(* ===== verification/Xv6_Prelude.thy ===== *)
theory Xv6_Prelude
  imports Main "HOL-Library.Word"
begin

text \<open>
  Shared vocabulary of the development: the machine integers of \<^verbatim>\<open>types.h\<close>, the
  outcome of a kernel call, table scans, and little-endian access to byte memory.

  A kernel call either returns (\<open>Ok\<close>), stops the machine through \<^verbatim>\<open>panic()\<close>
  (\<open>Panic\<close> with the message), dereferences an address that is not mapped
  (\<open>Fault\<close> with the address), or never returns (\<open>Hangs\<close>); \<open>andThen\<close> is the sequencing of C
  statements, which goes on only after a call that returned.
\<close>

unbundle bit_operations_syntax

section \<open>Machine integers\<close>

type_synonym u8 = "8 word"
type_synonym u16 = "16 word"
type_synonym u32 = "32 word"

section \<open>Outcomes of kernel calls\<close>

datatype 'a res = Ok 'a | Panic string | Fault u32 | Hangs

primrec andThen :: "'a res \<Rightarrow> ('a \<Rightarrow> 'b res) \<Rightarrow> 'b res" where
  "andThen (Ok x) f = f x"
| "andThen (Panic m) f = Panic m"
| "andThen (Fault c) f = Fault c"
| "andThen Hangs f = Hangs"

text \<open>What holds of the value of a call that returns, and of nothing else.\<close>

primrec on_ok :: "('a \<Rightarrow> bool) \<Rightarrow> 'a res \<Rightarrow> bool" where
  "on_ok P (Ok x) = P x"
| "on_ok P (Panic m) = True"
| "on_ok P (Fault c) = True"
| "on_ok P Hangs = True"

section \<open>Kernel objects a process can sleep on\<close>

text \<open>
  A sleep channel is the address of a kernel object, used only as a name; distinct objects
  have distinct addresses. Sleep locks sit in the buffers of the block cache and in the
  in-memory inodes, both numbered by table index; pipes are named by the address of their page.
\<close>

datatype sleepid = BUF_SLEEP nat | INODE_SLEEP nat

datatype chan =
    CHAN_NULL | CHAN_TICKS | CHAN_PROC nat | CHAN_SLEEP sleepid | CHAN_LOG | CHAN_BUF nat
  | CHAN_INPUT | CHAN_NREAD u32 | CHAN_NWRITE u32

section \<open>Table scans\<close>

text \<open>
  The kernel's tables are scanned by \<^verbatim>\<open>for(p = tab; p < &tab[N]; p++) if(...) goto found\<close>;
  the first matching index is what such a loop finds.
\<close>

primrec find_idx :: "('a \<Rightarrow> bool) \<Rightarrow> 'a list \<Rightarrow> nat option" where
  "find_idx P [] = None"
| "find_idx P (x # xs) = (if P x then Some 0 else map_option Suc (find_idx P xs))"

section \<open>Byte memory\<close>

definition load32 :: "(u32 \<Rightarrow> u8) \<Rightarrow> u32 \<Rightarrow> u32" where
  "load32 m a = ucast (m a) OR push_bit 8 (ucast (m (a + 1)))
     OR push_bit 16 (ucast (m (a + 2))) OR push_bit 24 (ucast (m (a + 3)))"

definition store32 :: "(u32 \<Rightarrow> u8) \<Rightarrow> u32 \<Rightarrow> u32 \<Rightarrow> (u32 \<Rightarrow> u8)" where
  "store32 m a v = m(a := ucast v, a + 1 := ucast (drop_bit 8 v),
     a + 2 := ucast (drop_bit 16 v), a + 3 := ucast (drop_bit 24 v))"

section \<open>Lemmas\<close>

named_theorems res_simps

lemma andThen_assoc [res_simps]: "andThen (andThen m f) g = andThen m (\<lambda>x. andThen (f x) g)"
  by (cases m) simp_all

lemma andThen_Ok_right [simp]: "andThen m Ok = m"
  by (cases m) simp_all

lemma andThen_eq_Ok_iff [res_simps]: "andThen m f = Ok y \<longleftrightarrow> (\<exists>x. m = Ok x \<and> f x = Ok y)"
  by (cases m) simp_all

lemma andThen_cong [fundef_cong]:
  "m = m' \<Longrightarrow> (\<And>x. m' = Ok x \<Longrightarrow> f x = g x) \<Longrightarrow> andThen m f = andThen m' g"
  by (cases m') simp_all

lemma andThen_if: "andThen (if b then m else m') f = (if b then andThen m f else andThen m' f)"
  by simp

lemma on_ok_andThen:
  "on_ok Q m \<Longrightarrow> (\<And>x. m = Ok x \<Longrightarrow> Q x \<Longrightarrow> on_ok P (f x)) \<Longrightarrow> on_ok P (andThen m f)"
  by (cases m) simp_all

lemma on_ok_iff: "on_ok P m \<longleftrightarrow> (\<forall>x. m = Ok x \<longrightarrow> P x)"
  by (cases m) simp_all

lemma find_idx_SomeD: "find_idx P xs = Some i \<Longrightarrow> i < length xs \<and> P (xs ! i) \<and> (\<forall>j<i. \<not> P (xs ! j))"
proof (induction xs arbitrary: i)
  case (Cons x xs)
  then show ?case
    by (auto split: if_splits simp: nth_Cons less_Suc_eq_0_disj split: nat.splits)
qed simp

lemma find_idx_None_iff: "find_idx P xs = None \<longleftrightarrow> (\<forall>x\<in>set xs. \<not> P x)"
  by (induction xs) auto

lemma find_idx_SomeI:
  "i < length xs \<Longrightarrow> P (xs ! i) \<Longrightarrow> (\<And>j. j < i \<Longrightarrow> \<not> P (xs ! j)) \<Longrightarrow> find_idx P xs = Some i"
proof (induction xs arbitrary: i)
  case (Cons x xs)
  show ?case
  proof (cases i)
    case 0
    with Cons.prems show ?thesis by simp
  next
    case (Suc k)
    have "\<not> P x" using Cons.prems(3)[of 0] Suc by simp
    moreover have "find_idx P xs = Some k"
    proof (rule Cons.IH)
      show "k < length xs" and "P (xs ! k)" using Cons.prems Suc by auto
      show "\<not> P (xs ! j)" if "j < k" for j using Cons.prems(3)[of "Suc j"] Suc that by simp
    qed
    ultimately show ?thesis using Suc by simp
  qed
qed simp

lemma find_idx_SomeE:
  assumes "find_idx P xs = Some i"
  obtains "i < length xs" "P (xs ! i)" "\<And>j. j < i \<Longrightarrow> \<not> P (xs ! j)"
  using find_idx_SomeD [OF assms] by blast

lemma split_bytes:
  "(n::nat) < 32 \<Longrightarrow> n < 8 \<or> (\<exists>k<8. n = 8 + k) \<or> (\<exists>k<8. n = 16 + k) \<or> (\<exists>k<8. n = 24 + k)"
  by presburger

lemma store32_bytes:
  "store32 m a v a = ucast v" "store32 m a v (a + 1) = ucast (drop_bit 8 v)"
  "store32 m a v (a + 2) = ucast (drop_bit 16 v)" "store32 m a v (a + 3) = ucast (drop_bit 24 v)"
  by (simp_all add: store32_def)
lemma load32_store32_same [simp]: "load32 (store32 m a v) a = v"
proof (rule bit_word_eqI)
  fix n assume "n < LENGTH(32)"
  then have "n < 32" by simp
  from split_bytes [OF this] show "bit (load32 (store32 m a v) a) n = bit v n"
    unfolding load32_def store32_bytes
    by (elim disjE exE conjE) (simp_all add: bit_simps)
qed

lemma word_far_apart:
  assumes "4 \<le> a - b" and "4 \<le> b - a" and "i \<in> {0, 1, 2, 3}" and "j \<in> {0, 1, 2, 3::u32}"
  shows "b + i \<noteq> a + j"
proof
  assume "b + i = a + j"
  then have e: "a - b = i - j" "b - a = j - i" by (simp_all add: algebra_simps)
  show False using assms unfolding e by (auto simp: word_le_nat_alt)
qed

lemma load32_store32_other:
  assumes "4 \<le> a - b" and "4 \<le> b - a"
  shows "load32 (store32 m a v) b = load32 m b"
  using word_far_apart [OF assms, of 0 0] word_far_apart [OF assms, of 0 1]
    word_far_apart [OF assms, of 0 2] word_far_apart [OF assms, of 0 3]
    word_far_apart [OF assms, of 1 0] word_far_apart [OF assms, of 1 1]
    word_far_apart [OF assms, of 1 2] word_far_apart [OF assms, of 1 3]
    word_far_apart [OF assms, of 2 0] word_far_apart [OF assms, of 2 1]
    word_far_apart [OF assms, of 2 2] word_far_apart [OF assms, of 2 3]
    word_far_apart [OF assms, of 3 0] word_far_apart [OF assms, of 3 1]
    word_far_apart [OF assms, of 3 2] word_far_apart [OF assms, of 3 3]
  by (simp add: load32_def store32_def)

lemma unat_diff_u32:
  "unat (a - b :: u32) = (if unat b \<le> unat a then unat a - unat b else unat a + 2 ^ 32 - unat b)"
  by (simp add: unat_sub_if_size word_size)

lemma aligned_apart:
  assumes "k dvd 2 ^ 32" "k dvd unat (a::u32)" "k dvd unat b" "a \<noteq> b"
  shows "k \<le> unat (a - b)"
proof (rule dvd_imp_le)
  have lt: "unat b < 2 ^ 32" using unsigned_less [of b] by simp
  have ne: "unat a \<noteq> unat b" using assms(4) by (simp add: word_unat_eq_iff)
  have "k dvd unat a + 2 ^ 32 - unat b" using assms(1-3) by (intro dvd_diff_nat dvd_add)
  then show "k dvd unat (a - b)" unfolding unat_diff_u32 using assms(2,3) by (simp add: dvd_diff_nat)
  show "0 < unat (a - b)" unfolding unat_diff_u32 using lt ne by (simp add: not_le)
qed

lemma aligned4_apart:
  assumes "4 dvd unat (a::u32)" "4 dvd unat b" "a \<noteq> b"
  shows "4 \<le> a - b"
proof -
  have "4 \<le> unat (a - b)" using assms by (intro aligned_apart) simp_all
  then show ?thesis by (simp add: word_le_nat_alt)
qed

lemma bit31_int:
  assumes "0 \<le> u" "u < 4294967296"
  shows "bit (u::int) 31 = (\<not> u < 2147483648)"
proof (cases "u < 2147483648")
  case True
  then have "u div 2147483648 = 0" using assms by (simp add: div_pos_pos_trivial)
  then show ?thesis using True by (simp add: bit_iff_odd)
next
  case False
  then have "u div 2147483648 = 1" using assms by (simp add: div_pos_geq div_pos_pos_trivial)
  then show ?thesis using False by (simp add: bit_iff_odd)
qed

lemma of_bool_u31:
  "(s::int) = u - 2 ^ 32 * of_bool (\<not> u < 2147483648) \<Longrightarrow>
   s = (if u < 2147483648 then u else u - 4294967296)"
  by auto

lemma sint_u32: "sint (x::u32) = (if uint x < 2147483648 then uint x else uint x - 4294967296)"
proof -
  have u: "0 \<le> uint x" "uint x < 4294967296" using uint_lt2p [of x] by auto
  have "sint x = take_bit 32 (uint x) - 2 ^ 32 * of_bool (bit (uint x) 31)"
    by (simp add: sint_uint signed_take_bit_eq_take_bit_minus)
  also have "take_bit 32 (uint x) = uint x" using u by (simp add: take_bit_int_eq_self)
  finally have "sint x = uint x - 2 ^ 32 * of_bool (\<not> uint x < 2147483648)"
    unfolding bit31_int [OF u] .
  then show ?thesis by (rule of_bool_u31)
qed

lemma unat_minus_u32: "x \<noteq> 0 \<Longrightarrow> unat (- x :: u32) = 4294967296 - unat x"
  using unat_diff_u32 [of 0 x] by (simp add: word_unat_eq_iff)

lemma sint_u32_cases:
  obtains "0 \<le> sint (x::u32)" "sint x = int (unat x)"
  | "sint x < 0" "sint x = int (unat x) - 4294967296" "x \<noteq> 0"
proof (cases "uint x < 2147483648")
  case True
  then have "sint x = uint x" by (simp only: sint_u32 if_True)
  then show ?thesis using that(1) by simp
next
  case False
  then have s: "sint x = uint x - 4294967296" by (simp only: sint_u32 if_False)
  moreover have "uint x < 4294967296" using uint_lt2p [of x] by simp
  ultimately have "sint x < 0" by linarith
  moreover from this have "x \<noteq> 0" by auto
  ultimately show ?thesis using that(2) s by simp
qed

lemma sint_neg_unat: "sint (x::u32) < 0 \<Longrightarrow> int (unat (- x)) = - sint x"
proof (cases x rule: sint_u32_cases)
  case 2
  have "unat x < 4294967296" using unsigned_less [of x, where ?'a = nat] by simp
  then show ?thesis using 2 unat_minus_u32 [of x] by linarith
qed linarith

lemma sint_nonneg_unat: "0 \<le> sint (x::u32) \<Longrightarrow> int (unat x) = sint x"
  by (cases x rule: sint_u32_cases) linarith+

lemma load32_cong:
  assumes "m a = m' a" "m (a + 1) = m' (a + 1)" "m (a + 2) = m' (a + 2)" "m (a + 3) = m' (a + 3)"
  shows "load32 m a = load32 m' a"
  using assms by (simp add: load32_def)

end
