(* ===== verification/Resource_Spec.thy ===== *)
theory Resource_Spec
  imports Xv6_Prelude
begin

text \<open>
  The contract between the kernel's allocators and their clients: a pool of free units from
  which \<open>alloc\<close> takes one and to which \<open>free\<close> gives one back. The page allocator
  implements it; what a client may rely on after any number of
  allocations is proved here once.
\<close>

fun alloc_n :: "('s \<Rightarrow> ('p \<times> 's) res) \<Rightarrow> nat \<Rightarrow> 's \<Rightarrow> ('p list \<times> 's) res" where
  "alloc_n alloc 0 s = Ok ([], s)"
| "alloc_n alloc (Suc n) s =
     andThen (alloc s) (\<lambda>(p, s). andThen (alloc_n alloc n s) (\<lambda>(ps, s). Ok (p # ps, s)))"

fun free_all :: "('p \<Rightarrow> 's \<Rightarrow> 's res) \<Rightarrow> 'p list \<Rightarrow> 's \<Rightarrow> 's res" where
  "free_all free [] s = Ok s"
| "free_all free (p # ps) s = andThen (free p s) (free_all free ps)"

locale allocator =
  fixes alloc :: "'s \<Rightarrow> ('p \<times> 's) res"
    and free :: "'p \<Rightarrow> 's \<Rightarrow> 's res"
    and pool :: "'s \<Rightarrow> 'p set \<Rightarrow> bool"
    and unit_ok :: "'s \<Rightarrow> 'p \<Rightarrow> bool"
  assumes alloc_ok: "pool s P \<Longrightarrow> P \<noteq> {} \<Longrightarrow>
      \<exists>p s'. alloc s = Ok (p, s') \<and> p \<in> P \<and> pool s' (P - {p}) \<and> unit_ok s' = unit_ok s"
    and free_ok: "pool s P \<Longrightarrow> unit_ok s p \<Longrightarrow> p \<notin> P \<Longrightarrow>
      \<exists>s'. free p s = Ok s' \<and> pool s' (insert p P) \<and> unit_ok s' = unit_ok s"
    and pool_ok: "pool s P \<Longrightarrow> p \<in> P \<Longrightarrow> unit_ok s p"
begin

lemma alloc_n_ok:
  assumes "pool s P" "finite P" "n \<le> card P"
  shows "\<exists>ps s'. alloc_n alloc n s = Ok (ps, s') \<and> length ps = n \<and> distinct ps \<and> set ps \<subseteq> P
    \<and> pool s' (P - set ps) \<and> unit_ok s' = unit_ok s"
  using assms
proof (induction n arbitrary: s P)
  case (Suc n)
  then have "P \<noteq> {}" by auto
  with alloc_ok [OF Suc.prems(1)] obtain p s1
    where 1: "alloc s = Ok (p, s1)" "p \<in> P" "pool s1 (P - {p})" "unit_ok s1 = unit_ok s" by blast
  from 1(2) Suc.prems have "n \<le> card (P - {p})" by simp
  from Suc.IH [OF 1(3) _ this] Suc.prems(2) obtain ps s2
    where 2: "alloc_n alloc n s1 = Ok (ps, s2)" "length ps = n" "distinct ps" "set ps \<subseteq> P - {p}"
      "pool s2 (P - {p} - set ps)" "unit_ok s2 = unit_ok s1" by auto
  moreover have "P - {p} - set ps = P - set (p # ps)" by auto
  ultimately show ?case using 1 by auto
qed simp

lemma free_all_ok:
  assumes "pool s P" "distinct ps" "set ps \<inter> P = {}" "\<forall>p\<in>set ps. unit_ok s p"
  shows "\<exists>s'. free_all free ps s = Ok s' \<and> pool s' (set ps \<union> P) \<and> unit_ok s' = unit_ok s"
  using assms
proof (induction ps arbitrary: s P)
  case (Cons p ps)
  with free_ok [OF Cons.prems(1), of p] obtain s1
    where 1: "free p s = Ok s1" "pool s1 (insert p P)" "unit_ok s1 = unit_ok s" by auto
  with Cons.IH [OF 1(2)] Cons.prems obtain s2
    where "free_all free ps s1 = Ok s2" "pool s2 (set ps \<union> insert p P)" "unit_ok s2 = unit_ok s"
    by auto
  with 1 show ?case by auto
qed simp

lemma alloc_free_roundtrip:
  assumes "pool s P" "finite P" "n \<le> card P"
  shows "\<exists>ps s1 s2. alloc_n alloc n s = Ok (ps, s1) \<and> free_all free ps s1 = Ok s2 \<and> pool s2 P"
proof -
  from alloc_n_ok [OF assms] obtain ps s1
    where 1: "alloc_n alloc n s = Ok (ps, s1)" "distinct ps" "set ps \<subseteq> P" "pool s1 (P - set ps)"
      "unit_ok s1 = unit_ok s" by blast
  then have "\<forall>p\<in>set ps. unit_ok s1 p" using pool_ok [OF assms(1)] by auto
  with free_all_ok [OF 1(4) 1(2)] obtain s2
    where "free_all free ps s1 = Ok s2" "pool s2 (set ps \<union> (P - set ps))" by blast
  moreover have "set ps \<union> (P - set ps) = P" using 1(3) by auto
  ultimately show ?thesis using 1(1) by auto
qed

end

end
