(* ===== verification/Queue_Spec.thy ===== *)
theory Queue_Spec
  imports Xv6_Prelude
begin

text \<open>
  The contract of a bounded byte queue, and the ring buffers of the kernel. A ring is an array with a
  read and a write index that run freely and wrap at 32 bits; its length divides the range of the
  indices, so that \<^verbatim>\<open>i % N\<close> goes on counting across the wrap.
\<close>

section \<open>Bounded queues\<close>

primrec get_n :: "('q \<Rightarrow> 'e \<times> 'q) \<Rightarrow> nat \<Rightarrow> 'q \<Rightarrow> 'e list \<times> 'q" where
  "get_n get 0 q = ([], q)"
| "get_n get (Suc n) q = (let (x, q) = get q; (xs, q) = get_n get n q in (x # xs, q))"

locale fifo =
  fixes ok :: "'q \<Rightarrow> bool"
    and contents :: "'q \<Rightarrow> 'e list"
    and cap :: nat
    and full :: "'q \<Rightarrow> bool"
    and emp :: "'q \<Rightarrow> bool"
    and put :: "'e \<Rightarrow> 'q \<Rightarrow> 'q"
    and get :: "'q \<Rightarrow> 'e \<times> 'q"
  assumes bounded: "ok q \<Longrightarrow> length (contents q) \<le> cap"
    and full_iff: "ok q \<Longrightarrow> full q \<longleftrightarrow> length (contents q) = cap"
    and emp_iff: "ok q \<Longrightarrow> emp q \<longleftrightarrow> contents q = []"
    and put_ok: "ok q \<Longrightarrow> \<not> full q \<Longrightarrow> ok (put x q) \<and> contents (put x q) = contents q @ [x]"
    and get_ok: "ok q \<Longrightarrow> \<not> emp q \<Longrightarrow> ok (snd (get q)) \<and> contents q = fst (get q) # contents (snd (get q))"
begin

lemma put_all:
  "ok q \<Longrightarrow> length (contents q) + length xs \<le> cap \<Longrightarrow> ok (fold put xs q) \<and> contents (fold put xs q) = contents q @ xs"
proof (induction xs arbitrary: q)
  case (Cons x xs)
  then have "\<not> full q" using full_iff by auto
  from put_ok [OF Cons.prems(1) this, of x] Cons show ?case by auto
qed simp

lemma put_not_full: "ok q \<Longrightarrow> length (contents q) < cap \<Longrightarrow> \<not> full q"
  using full_iff by auto

lemma get_all:
  "ok q \<Longrightarrow> n \<le> length (contents q) \<Longrightarrow>
   fst (get_n get n q) = take n (contents q) \<and> ok (snd (get_n get n q)) \<and> contents (snd (get_n get n q)) = drop n (contents q)"
proof (induction n arbitrary: q)
  case (Suc n)
  then have "\<not> emp q" using emp_iff by auto
  from get_ok [OF Suc.prems(1) this] obtain x q1 where g: "get q = (x, q1)" "ok q1" "contents q = x # contents q1"
    by (cases "get q") auto
  with Suc.IH [OF g(2)] Suc.prems show ?case by (auto simp: Let_def split: prod.splits)
qed simp

text \<open>What goes in comes out, in order, behind what was there.\<close>

lemma put_get:
  assumes "ok q" "length (contents q) + length xs \<le> cap"
  shows "fst (get_n get (length (contents q) + length xs) (fold put xs q)) = contents q @ xs"
  using put_all [OF assms] get_all [of "fold put xs q" "length (contents q) + length xs"] by simp

end

section \<open>Rings\<close>

definition ring_len :: "nat \<Rightarrow> bool" where
  "ring_len N \<longleftrightarrow> 0 < N \<and> N < 4294967296 \<and> N dvd 4294967296"

definition ring_list :: "'e list \<Rightarrow> u32 \<Rightarrow> u32 \<Rightarrow> 'e list" where
  "ring_list d r w = map (\<lambda>i. d ! ((unat r + i) mod length d)) [0..<unat (w - r)]"

definition ring_ok :: "nat \<Rightarrow> 'e list \<Rightarrow> u32 \<Rightarrow> u32 \<Rightarrow> bool" where
  "ring_ok N d r w \<longleftrightarrow> length d = N \<and> unat (w - r) \<le> N"

lemma length_ring_list [simp]: "length (ring_list d r w) = unat (w - r)"
  by (simp add: ring_list_def)

lemma ring_mod_add:
  assumes "N dvd 4294967296"
  shows "unat (r + x :: u32) mod N = (unat r + unat x) mod N"
  using assms by (simp add: unat_word_ariths mod_mod_cancel)

lemma ring_empty: "ring_list d r w = [] \<longleftrightarrow> r = w"
  by (auto simp: ring_list_def unat_eq_0)

lemma ring_full:
  assumes "ring_len N"
  shows "(w :: u32) = r + of_nat N \<longleftrightarrow> unat (w - r) = N"
proof -
  have "w = r + of_nat N \<longleftrightarrow> w - r = of_nat N" by (auto simp: algebra_simps)
  also have "\<dots> \<longleftrightarrow> unat (w - r) = N" using assms by (auto simp: ring_len_def word_unat_eq_iff unat_of_nat take_bit_nat_eq_self)
  finally show ?thesis .
qed

lemma unat_succ_diff:
  assumes "unat (w - r :: u32) < 4294967295"
  shows "unat (w + 1 - r) = Suc (unat (w - r))"
proof -
  have eq: "w + 1 - r = (w - r) + 1" by simp
  show ?thesis unfolding eq using assms by (subst unat_add_lem [THEN iffD1]) auto
qed

lemma ring_put:
  assumes N: "ring_len N" and d: "length d = N" and room: "unat (w - r) < N"
  shows "unat (w + 1 - r) = Suc (unat (w - r))"
    "ring_list (d[unat w mod N := x]) r (w + 1) = ring_list d r w @ [x]"
proof -
  have lt: "unat (w - r) < 4294967295" using N room by (auto simp: ring_len_def)
  show s: "unat (w + 1 - r) = Suc (unat (w - r))" by (rule unat_succ_diff [OF lt])
  have w: "unat w mod N = (unat r + unat (w - r)) mod N"
    using ring_mod_add [of N r "w - r"] N by (simp add: ring_len_def)
  have ne: "(unat r + i) mod N \<noteq> (unat r + unat (w - r)) mod N" if i: "i < unat (w - r)" for i
  proof
    assume "(unat r + i) mod N = (unat r + unat (w - r)) mod N"
    then have "N dvd (unat r + unat (w - r)) - (unat r + i)"
      using i by (intro mod_eq_dvd_iff_nat [THEN iffD1, rotated]) auto
    then have "N dvd unat (w - r) - i" by simp
    then show False using i room by (auto dest!: dvd_imp_le)
  qed
  have "map (\<lambda>i. d[unat w mod N := x] ! ((unat r + i) mod N)) [0..<unat (w - r)] = ring_list d r w"
    using d ne w by (auto simp: ring_list_def nth_list_update_neq [OF not_sym [OF ne]])
  moreover have "d[unat w mod N := x] ! ((unat r + unat (w - r)) mod N) = x"
    using w N d by (simp add: ring_len_def)
  ultimately show "ring_list (d[unat w mod N := x]) r (w + 1) = ring_list d r w @ [x]"
    using d s by (simp add: ring_list_def)
qed

lemma ring_get:
  assumes N: "ring_len N" and d: "length d = N" and ne: "r \<noteq> w"
  shows "unat (w - (r + 1)) = unat (w - r) - 1"
    "ring_list d r w = d ! (unat r mod N) # ring_list d (r + 1) w"
proof -
  have pos: "0 < unat (w - r)" using ne by (simp add: unat_gt_0)
  have "w - (r + 1) = (w - r) - 1" by simp
  then show s: "unat (w - (r + 1)) = unat (w - r) - 1" using ne by (metis right_minus_eq unat_minus_one)
  have "ring_list d (r + 1) w = map (\<lambda>i. d ! ((unat r + Suc i) mod N)) [0..<unat (w - r) - 1]"
    using ring_mod_add [of N r 1] N d by (auto simp: ring_list_def s ring_len_def mod_simps intro!: map_cong)
      (metis add.commute add_Suc_right mod_add_left_eq plus_1_eq_Suc)
  moreover have "[0..<unat (w - r)] = 0 # map Suc [0..<unat (w - r) - 1]"
    using pos by (simp add: map_Suc_upt upt_conv_Cons)
  ultimately show "ring_list d r w = d ! (unat r mod N) # ring_list d (r + 1) w"
    using d by (simp add: ring_list_def o_def)
qed

text \<open>A ring cut at an index in between, and one element less at the end.\<close>

lemma ring_split:
  assumes N: "ring_len (length d)" and le: "unat (w - r :: u32) \<le> unat (e - r)"
  shows "unat (e - w) = unat (e - r) - unat (w - r)" "ring_list d r e = ring_list d r w @ ring_list d w e"
proof -
  have eq: "e - w = (e - r) - (w - r)" by simp
  show n: "unat (e - w) = unat (e - r) - unat (w - r)" unfolding eq using le by (rule unat_sub [OF iffD2 [OF word_le_nat_alt]])
  have m: "(unat w + i) mod length d = (unat r + (unat (w - r) + i)) mod length d" for i
    using ring_mod_add [of "length d" r "w - r"] N mod_add_left_eq [of "unat w" "length d" i] mod_add_left_eq [of "unat r + unat (w - r)" "length d" i]
    by (simp add: ring_len_def add.assoc)
  have "[0..<unat (e - r)] = [0..<unat (w - r)] @ map (\<lambda>i. unat (w - r) + i) [0..<unat (e - w)]"
    using map_add_upt [of "unat (w - r)" "unat (e - w)"] upt_add_eq_append [of 0 "unat (w - r)" "unat (e - w)"] le n
    by (simp add: add.commute)
  then show "ring_list d r e = ring_list d r w @ ring_list d w e" by (simp add: ring_list_def m o_def)
qed

lemma ring_unput:
  assumes N: "ring_len (length d)" and ne: "e \<noteq> w"
  shows "unat (e - 1 - w) = unat (e - w) - 1" "ring_list d w (e - 1) = butlast (ring_list d w e)"
    "d ! (unat (e - 1) mod length d) = last (ring_list d w e)"
proof -
  have pos: "0 < unat (e - w)" using ne by (simp add: unat_gt_0)
  have eq: "e - 1 - w = (e - w) - 1" by simp
  show n: "unat (e - 1 - w) = unat (e - w) - 1" unfolding eq using ne by (intro unat_minus_one) simp
  obtain k where k: "unat (e - w) = Suc k" using pos by (cases "unat (e - w)") auto
  show "ring_list d w (e - 1) = butlast (ring_list d w e)" by (simp add: ring_list_def n k butlast_append)
  have "unat (e - 1) mod length d = (unat w + k) mod length d"
    using ring_mod_add [of "length d" w "e - 1 - w"] N n k by (simp add: ring_len_def)
  then show "d ! (unat (e - 1) mod length d) = last (ring_list d w e)" by (simp add: ring_list_def k)
qed

end
