(* ===== verification/Le_Bytes.thy ===== *)
theory Le_Bytes
  imports Xv6_Prelude
begin

text \<open>
  Little-endian fields of structures that live in byte arrays: the fields of on-disk structures
  (\<^verbatim>\<open>fs.h\<close>, \<^verbatim>\<open>log.c\<close>) inside a block, at the offsets the C compiler gives them.
\<close>

unbundle bit_operations_syntax

definition get16 :: "u8 list \<Rightarrow> nat \<Rightarrow> u16" where
  "get16 d i = (ucast (d ! i) :: u16) OR push_bit 8 (ucast (d ! (i + 1)))"

definition put16 :: "u8 list \<Rightarrow> nat \<Rightarrow> u16 \<Rightarrow> u8 list" where
  "put16 d i v = d[i := ucast v, i + 1 := ucast (drop_bit 8 v)]"

definition get32 :: "u8 list \<Rightarrow> nat \<Rightarrow> u32" where
  "get32 d i = ucast (d ! i) OR push_bit 8 (ucast (d ! (i + 1))) OR push_bit 16 (ucast (d ! (i + 2)))
     OR push_bit 24 (ucast (d ! (i + 3)))"

definition put32 :: "u8 list \<Rightarrow> nat \<Rightarrow> u32 \<Rightarrow> u8 list" where
  "put32 d i v = d[i := ucast v, i + 1 := ucast (drop_bit 8 v), i + 2 := ucast (drop_bit 16 v), i + 3 := ucast (drop_bit 24 v)]"

lemma length_put [simp]: "length (put16 d i h) = length d" "length (put32 d i v) = length d"
  by (simp_all add: put16_def put32_def)

lemma join_bytes:
  "(ucast (ucast (v :: u32) :: u8) :: u32) OR push_bit 8 (ucast (ucast (drop_bit 8 v) :: u8))
     OR push_bit 16 (ucast (ucast (drop_bit 16 v) :: u8)) OR push_bit 24 (ucast (ucast (drop_bit 24 v) :: u8)) = v"
proof (rule bit_word_eqI)
  fix n assume "n < LENGTH(32)"
  then have "n < 32" by simp
  from split_bytes [OF this] show "bit ((ucast (ucast (v :: u32) :: u8) :: u32) OR push_bit 8 (ucast (ucast (drop_bit 8 v) :: u8))
     OR push_bit 16 (ucast (ucast (drop_bit 16 v) :: u8)) OR push_bit 24 (ucast (ucast (drop_bit 24 v) :: u8))) n = bit v n"
    by (elim disjE exE conjE) (simp_all add: bit_simps)
qed

lemma get_put_same [simp]:
  "i + 1 < length d \<Longrightarrow> get16 (put16 d i h) i = h"
  "i + 3 < length d \<Longrightarrow> get32 (put32 d i v) i = v"
proof -
  show "get16 (put16 d i h) i = h" if "i + 1 < length d"
    using that by (simp add: get16_def put16_def nth_list_update) (rule bit_word_eqI, auto simp: bit_simps)
  show "get32 (put32 d i v) i = v" if "i + 3 < length d"
    using that join_bytes [of v] by (simp add: get32_def put32_def nth_list_update)
qed

lemma get_put_other:
  "j + 2 \<le> i \<or> i + 2 \<le> j \<Longrightarrow> get16 (put16 d i h) j = get16 d j"
  "j + 2 \<le> i \<or> i + 4 \<le> j \<Longrightarrow> get16 (put32 d i v) j = get16 d j"
  "j + 4 \<le> i \<or> i + 2 \<le> j \<Longrightarrow> get32 (put16 d i h) j = get32 d j"
  "j + 4 \<le> i \<or> i + 4 \<le> j \<Longrightarrow> get32 (put32 d i v) j = get32 d j"
  by (auto simp: get16_def get32_def put16_def put32_def nth_list_update)

primrec put32s :: "u8 list \<Rightarrow> nat \<Rightarrow> u32 list \<Rightarrow> u8 list" where
  "put32s d i [] = d"
| "put32s d i (v # vs) = put32s (put32 d i v) (i + 4) vs"

definition get32s :: "u8 list \<Rightarrow> nat \<Rightarrow> nat \<Rightarrow> u32 list" where
  "get32s d i n = map (\<lambda>k. get32 d (i + 4 * k)) [0..<n]"

lemma length_put32s [simp]: "length (put32s d i vs) = length d"
  by (induction vs arbitrary: d i) simp_all

lemma length_get32s [simp]: "length (get32s d i n) = n"
  by (simp add: get32s_def)

lemma get32_put32s_before: "j + 4 \<le> i \<Longrightarrow> get32 (put32s d i vs) j = get32 d j"
  by (induction vs arbitrary: d i) (simp_all add: get_put_other)

lemma get16_put32s_before: "j + 2 \<le> i \<Longrightarrow> get16 (put32s d i vs) j = get16 d j"
  by (induction vs arbitrary: d i) (simp_all add: get_put_other)

lemma get32_put32s: "i + 4 * length vs \<le> length d \<Longrightarrow> k < length vs \<Longrightarrow> get32 (put32s d i vs) (i + 4 * k) = vs ! k"
proof (induction vs arbitrary: d i k)
  case (Cons v vs)
  show ?case
  proof (cases k)
    case 0
    then show ?thesis using Cons.prems by (simp add: get32_put32s_before)
  next
    case (Suc m)
    then show ?thesis using Cons.IH [of "i + 4" "put32 d i v" m] Cons.prems by (simp add: add.assoc)
  qed
qed simp

lemma get32s_put32s [simp]: "i + 4 * length vs \<le> length d \<Longrightarrow> n = length vs \<Longrightarrow> get32s (put32s d i vs) i n = vs"
  by (auto simp: get32s_def get32_put32s intro: nth_equalityI)

end
