(* ===== verification/Spinlock.thy ===== *)
theory Spinlock
  imports Xv6_Prelude
begin

text \<open>
  \<^verbatim>\<open>spinlock.c\<close> and the per-CPU state of \<^verbatim>\<open>proc.h\<close>/\<^verbatim>\<open>proc.c\<close>.

  The kernel state is seen from one executing CPU: \<open>thiscpu\<close> is the \<^verbatim>\<open>struct cpu\<close>
  that \<^verbatim>\<open>mycpu()\<close> returns, \<open>fl_if\<close> the interrupt flag of its \<^verbatim>\<open>%eflags\<close>, and
  \<open>held l\<close> says that this CPU holds the spin lock \<open>l\<close> (\<^verbatim>\<open>locked && cpu == mycpu()\<close>).
  Every other component extends this record, so that \<open>acquire\<close> and \<open>release\<close> apply to
  its states. The race for one lock word between several CPUs is the second part of the
  theory: a step relation over the atomic exchange, the owner field and the release store.
\<close>

section \<open>Per-CPU state and lock words\<close>

datatype lockid =
    CONS_LOCK | KMEM_LOCK | PTABLE_LOCK | TICKSLOCK | IDELOCK | BCACHE_LOCK | LOG_LOCK
  | ICACHE_LOCK | FTABLE_LOCK | PIPE_LOCK u32 | SLEEP_LOCK sleepid

record cpu =
  apicid :: u8
  started :: bool
  ncli :: int
  intena :: bool
  proc :: "nat option"

record machine =
  thiscpu :: cpu
  fl_if :: bool
  held :: "lockid \<Rightarrow> bool"

text \<open>\<^verbatim>\<open>mycpu()\<close> looks the local APIC id up in \<^verbatim>\<open>cpus[]\<close>.\<close>

definition mycpu_scan :: "cpu list \<Rightarrow> u8 \<Rightarrow> bool \<Rightarrow> nat res" where
  "mycpu_scan cpus lapicid if_set =
     (if if_set then Panic (''mycpu called with interrupts enabled'' @ [CHR 0x0A])
      else case find_idx (\<lambda>c. apicid c = lapicid) cpus of
             Some i \<Rightarrow> Ok i
           | None \<Rightarrow> Panic (''unknown apicid'' @ [CHR 0x0A]))"

definition cpuid :: "cpu list \<Rightarrow> u8 \<Rightarrow> bool \<Rightarrow> nat res" where
  "cpuid cpus lapicid if_set = mycpu_scan cpus lapicid if_set"

definition mycpu :: "'a machine_scheme \<Rightarrow> cpu res" where
  "mycpu s = (if fl_if s then Panic (''mycpu called with interrupts enabled'' @ [CHR 0x0A]) else Ok (thiscpu s))"

definition pushcli :: "'a machine_scheme \<Rightarrow> 'a machine_scheme res" where
  "pushcli s =
     (let eflags = fl_if s; s = s\<lparr>fl_if := False\<rparr> in
      andThen (mycpu s) (\<lambda>c.
      let c = (if ncli c = 0 then c\<lparr>intena := eflags\<rparr> else c);
          c = c\<lparr>ncli := ncli c + 1\<rparr> in
      Ok (s\<lparr>thiscpu := c\<rparr>)))"

definition popcli :: "'a machine_scheme \<Rightarrow> 'a machine_scheme res" where
  "popcli s =
     (if fl_if s then Panic ''popcli - interruptible''
      else andThen (mycpu s) (\<lambda>c.
      let c = c\<lparr>ncli := ncli c - 1\<rparr>; s = s\<lparr>thiscpu := c\<rparr> in
      if ncli c < 0 then Panic ''popcli''
      else if ncli c = 0 \<and> intena c then Ok (s\<lparr>fl_if := True\<rparr>)
      else Ok s))"

definition myproc :: "'a machine_scheme \<Rightarrow> (nat option \<times> 'a machine_scheme) res" where
  "myproc s =
     andThen (pushcli s) (\<lambda>s.
     andThen (mycpu s) (\<lambda>c.
     let p = proc c in
     andThen (popcli s) (\<lambda>s. Ok (p, s))))"

definition initlock :: "lockid \<Rightarrow> 'a machine_scheme \<Rightarrow> 'a machine_scheme" where
  "initlock l s = s\<lparr>held := (held s)(l := False)\<rparr>"

definition holding :: "lockid \<Rightarrow> 'a machine_scheme \<Rightarrow> (bool \<times> 'a machine_scheme) res" where
  "holding l s =
     andThen (pushcli s) (\<lambda>s.
     let r = held s l in
     andThen (popcli s) (\<lambda>s. Ok (r, s)))"

text \<open>
  The exchange loop ends as soon as no other CPU holds the lock, so on the executing CPU
  it only changes who holds the lock.
\<close>

definition acquire :: "lockid \<Rightarrow> 'a machine_scheme \<Rightarrow> 'a machine_scheme res" where
  "acquire l s =
     andThen (pushcli s) (\<lambda>s.
     andThen (holding l s) (\<lambda>(h, s).
     if h then Panic ''acquire''
     else Ok (s\<lparr>held := (held s)(l := True)\<rparr>)))"

definition release :: "lockid \<Rightarrow> 'a machine_scheme \<Rightarrow> 'a machine_scheme res" where
  "release l s =
     andThen (holding l s) (\<lambda>(h, s).
     if \<not> h then Panic ''release''
     else popcli (s\<lparr>held := (held s)(l := False)\<rparr>))"

text \<open>The call stack recorded for debugging, following saved frame pointers in memory.\<close>

definition KERNBASE :: u32 where "KERNBASE = 0x80000000"

fun callerpcs_from :: "(u32 \<Rightarrow> u8) \<Rightarrow> nat \<Rightarrow> u32 \<Rightarrow> u32 list" where
  "callerpcs_from m 0 ebp = []"
| "callerpcs_from m (Suc n) ebp =
     (if ebp = 0 \<or> ebp < KERNBASE \<or> ebp = 0xffffffff then replicate (Suc n) 0
      else load32 m (ebp + 4) # callerpcs_from m n (load32 m ebp))"

definition getcallerpcs :: "(u32 \<Rightarrow> u8) \<Rightarrow> u32 \<Rightarrow> u32 list" where
  "getcallerpcs m v = callerpcs_from m 10 (v - 8)"

section \<open>Several CPUs and one lock word\<close>

text \<open>
  Where a CPU is in \<^verbatim>\<open>acquire\<close>/\<^verbatim>\<open>release\<close>: outside, in the exchange loop, between the
  exchange and the assignment to \<^verbatim>\<open>lk->cpu\<close>, in the critical section, and between clearing
  \<^verbatim>\<open>lk->cpu\<close> and the store of 0 to \<^verbatim>\<open>lk->locked\<close>.
\<close>

datatype lockpc = Outside | Spinning | Won | Critical | Releasing

record smp =
  lk_locked :: u32
  lk_cpu :: "nat option"
  at_pc :: "nat \<Rightarrow> lockpc"

definition smp_holding :: "nat \<Rightarrow> smp \<Rightarrow> bool" where
  "smp_holding i m = (lk_locked m \<noteq> 0 \<and> lk_cpu m = Some i)"

definition smp_init :: smp where
  "smp_init = \<lparr>lk_locked = 0, lk_cpu = None, at_pc = (\<lambda>_. Outside)\<rparr>"

inductive smp_step :: "smp \<Rightarrow> smp \<Rightarrow> bool" where
  enter: "at_pc m i = Outside \<Longrightarrow> \<not> smp_holding i m \<Longrightarrow>
     smp_step m (m\<lparr>at_pc := (at_pc m)(i := Spinning)\<rparr>)"
| xchg_fail: "at_pc m i = Spinning \<Longrightarrow> lk_locked m \<noteq> 0 \<Longrightarrow> smp_step m (m\<lparr>lk_locked := 1\<rparr>)"
| xchg_win: "at_pc m i = Spinning \<Longrightarrow> lk_locked m = 0 \<Longrightarrow>
     smp_step m (m\<lparr>lk_locked := 1, at_pc := (at_pc m)(i := Won)\<rparr>)"
| set_owner: "at_pc m i = Won \<Longrightarrow>
     smp_step m (m\<lparr>lk_cpu := Some i, at_pc := (at_pc m)(i := Critical)\<rparr>)"
| clear_owner: "at_pc m i = Critical \<Longrightarrow> smp_holding i m \<Longrightarrow>
     smp_step m (m\<lparr>lk_cpu := None, at_pc := (at_pc m)(i := Releasing)\<rparr>)"
| store_zero: "at_pc m i = Releasing \<Longrightarrow>
     smp_step m (m\<lparr>lk_locked := 0, at_pc := (at_pc m)(i := Outside)\<rparr>)"

inductive smp_reachable :: "smp \<Rightarrow> bool" where
  smp_start: "smp_reachable smp_init"
| smp_next: "smp_reachable m \<Longrightarrow> smp_step m m' \<Longrightarrow> smp_reachable m'"

definition smp_inside :: "lockpc \<Rightarrow> bool" where
  "smp_inside p = (p \<in> {Won, Critical, Releasing})"

definition smp_inv :: "smp \<Rightarrow> bool" where
  "smp_inv m \<longleftrightarrow>
     (\<forall>i j. smp_inside (at_pc m i) \<longrightarrow> smp_inside (at_pc m j) \<longrightarrow> i = j) \<and>
     ((\<exists>i. smp_inside (at_pc m i)) \<longleftrightarrow> lk_locked m \<noteq> 0) \<and>
     (\<forall>i. lk_cpu m = Some i \<longleftrightarrow> at_pc m i = Critical)"

section \<open>Critical sections on one CPU\<close>

text \<open>
  What \<open>acquire\<close> and \<open>release\<close> do to the CPU record when they succeed. A lock taken and
  given back leaves the CPU as it was, but for \<open>intena\<close>, which the outermost \<open>pushcli\<close>
  overwrites: \<open>cpu_settle\<close>.
\<close>

definition cpu_push :: "bool \<Rightarrow> cpu \<Rightarrow> cpu" where
  "cpu_push f c = c\<lparr>intena := (if ncli c = 0 then f else intena c), ncli := ncli c + 1\<rparr>"

definition cpu_pop :: "cpu \<Rightarrow> cpu" where
  "cpu_pop c = c\<lparr>ncli := ncli c - 1\<rparr>"

definition cpu_settle :: "bool \<Rightarrow> cpu \<Rightarrow> cpu" where
  "cpu_settle f c = (if ncli c = 0 then c\<lparr>intena := f\<rparr> else c)"

definition wf_cpu :: "'a machine_scheme \<Rightarrow> bool" where
  "wf_cpu s \<longleftrightarrow> 0 \<le> ncli (thiscpu s) \<and> (fl_if s \<longrightarrow> ncli (thiscpu s) = 0)"

named_theorems lock_simps

lemma cpu_push_sel [simp]:
  "ncli (cpu_push f c) = ncli c + 1" "proc (cpu_push f c) = proc c"
  "apicid (cpu_push f c) = apicid c" "started (cpu_push f c) = started c"
  by (simp_all add: cpu_push_def)

lemma cpu_settle_sel [simp]:
  "ncli (cpu_settle f c) = ncli c" "proc (cpu_settle f c) = proc c"
  "apicid (cpu_settle f c) = apicid c" "started (cpu_settle f c) = started c"
  by (simp_all add: cpu_settle_def)

lemma cpu_settle_idem [simp]: "cpu_settle f (cpu_settle f c) = cpu_settle f c"
  by (simp add: cpu_settle_def)

lemma cpu_push_settle [simp]: "cpu_push f (cpu_settle f c) = cpu_push f c"
  by (simp add: cpu_push_def cpu_settle_def)

lemma cpu_settle_push [simp]: "0 \<le> ncli c \<Longrightarrow> cpu_settle g (cpu_push f c) = cpu_push f c"
  by (simp add: cpu_settle_def)

lemma cpu_pop_push [simp]: "cpu_pop (cpu_push f c) = cpu_settle f c"
  by (simp add: cpu_pop_def cpu_push_def cpu_settle_def)

lemma held_off [simp]: "\<not> held s l \<Longrightarrow> (held s)(l := False) = held s"
  by (simp add: fun_upd_idem)

lemma pushcli_eq [lock_simps]:
  "pushcli s = Ok (s\<lparr>fl_if := False, thiscpu := cpu_push (fl_if s) (thiscpu s)\<rparr>)"
  by (simp add: pushcli_def mycpu_def Let_def cpu_push_def)

lemma popcli_push_eq:
  "wf_cpu s \<Longrightarrow> popcli (s\<lparr>fl_if := False, thiscpu := cpu_push (fl_if s) (thiscpu s)\<rparr>)
     = Ok (s\<lparr>thiscpu := cpu_settle (fl_if s) (thiscpu s)\<rparr>)"
  by (auto simp: popcli_def mycpu_def Let_def wf_cpu_def cpu_push_def cpu_settle_def)

lemma popcli_eq [lock_simps]:
  "\<not> fl_if s \<Longrightarrow> 0 < ncli (thiscpu s) \<Longrightarrow>
   popcli s = Ok (s\<lparr>thiscpu := cpu_pop (thiscpu s), fl_if := (ncli (thiscpu s) = 1 \<and> intena (thiscpu s))\<rparr>)"
  by (auto simp: popcli_def mycpu_def Let_def cpu_pop_def)

lemma myproc_eq [lock_simps]:
  "wf_cpu s \<Longrightarrow> myproc s = Ok (proc (thiscpu s), s\<lparr>thiscpu := cpu_settle (fl_if s) (thiscpu s)\<rparr>)"
  by (simp add: myproc_def pushcli_eq mycpu_def popcli_push_eq Let_def)

lemma holding_eq [lock_simps]:
  "wf_cpu s \<Longrightarrow> holding l s = Ok (held s l, s\<lparr>thiscpu := cpu_settle (fl_if s) (thiscpu s)\<rparr>)"
  by (simp add: holding_def pushcli_eq popcli_push_eq Let_def)

lemma acquire_eq [lock_simps]:
  assumes "wf_cpu s"
  shows "acquire l s = (if held s l then Panic ''acquire''
     else Ok (s\<lparr>fl_if := False, thiscpu := cpu_push (fl_if s) (thiscpu s),
                 held := (held s)(l := True)\<rparr>))"
proof -
  have "wf_cpu (s\<lparr>fl_if := False, thiscpu := cpu_push (fl_if s) (thiscpu s)\<rparr>)"
    using assms by (simp add: wf_cpu_def)
  then show ?thesis using assms by (simp add: acquire_def pushcli_eq holding_eq wf_cpu_def)
qed

lemma release_eq [lock_simps]:
  assumes "wf_cpu s" "held s l" "0 < ncli (thiscpu s)"
  shows "release l s = Ok (s\<lparr>held := (held s)(l := False), thiscpu := cpu_pop (thiscpu s),
     fl_if := (ncli (thiscpu s) = 1 \<and> intena (thiscpu s))\<rparr>)"
proof -
  have f: "\<not> fl_if s" using assms by (auto simp: wf_cpu_def)
  have c: "cpu_settle False (thiscpu s) = thiscpu s" using assms(3) by (simp add: cpu_settle_def)
  show ?thesis using assms f
    by (simp add: release_def holding_eq c popcli_eq)
qed

lemma release_not_held: "wf_cpu s \<Longrightarrow> \<not> held s l \<Longrightarrow> release l s = Panic ''release''"
  by (simp add: release_def holding_eq)

lemma pop_if_push [simp]:
  "wf_cpu s \<Longrightarrow> (ncli (thiscpu s) = 0 \<and> intena (cpu_push (fl_if s) (thiscpu s))) = fl_if s"
  by (auto simp: cpu_push_def wf_cpu_def)

section \<open>Properties\<close>

text \<open>
  C11. Taking a free spin lock and giving it back succeeds and leaves the CPU exactly as it was:
  the lock is free again, the \<^verbatim>\<open>pushcli\<close> depth and the interrupt flag are restored, and
  only \<open>intena\<close> of an outermost section is overwritten (with the flag it saved).
\<close>

theorem acquire_release:
  assumes "wf_cpu s" and "\<not> held s l"
  shows "andThen (acquire l s) (release l) = Ok (s\<lparr>thiscpu := cpu_settle (fl_if s) (thiscpu s)\<rparr>)"
  using assms by (simp add: acquire_eq release_eq wf_cpu_def)

definition boot_cpu :: cpu where
  "boot_cpu = \<lparr>apicid = 0, started = True, ncli = 0, intena = False, proc = Some 1\<rparr>"

definition boot_machine :: machine where
  "boot_machine = \<lparr>thiscpu = boot_cpu, fl_if = True, held = (\<lambda>_. False)\<rparr>"

lemma boot_machine_wf [simp]: "wf_cpu boot_machine" "\<not> held boot_machine l"
  by (simp_all add: wf_cpu_def boot_machine_def boot_cpu_def)

theorem acquire_release_witness:
  "andThen (acquire KMEM_LOCK boot_machine) (release KMEM_LOCK)
     = Ok (boot_machine\<lparr>thiscpu := boot_cpu\<lparr>intena := True\<rparr>\<rparr>)"
  using acquire_release [of boot_machine KMEM_LOCK]
  by (simp add: cpu_settle_def boot_machine_def boot_cpu_def wf_cpu_def)

lemma smp_inv_init: "smp_inv smp_init"
  by (simp add: smp_inv_def smp_init_def smp_inside_def)

lemma smp_inv_step:
  assumes "smp_step m m'" "smp_inv m"
  shows "smp_inv m'"
  using assms(1)
proof cases
  case (enter i)
  then show ?thesis using assms(2) unfolding smp_inv_def smp_inside_def smp_holding_def
    by (simp split: if_splits) (metis lockpc.distinct)
next
  case (xchg_fail i)
  then show ?thesis using assms(2) unfolding smp_inv_def by simp
next
  case (xchg_win i)
  then have "\<forall>j. \<not> smp_inside (at_pc m j)" "\<forall>j. lk_cpu m = Some j \<longrightarrow> False"
    using assms(2) unfolding smp_inv_def smp_inside_def by blast+
  then show ?thesis using xchg_win unfolding smp_inv_def by (auto simp: smp_inside_def)
next
  case (set_owner i)
  then have "\<forall>j. j \<noteq> i \<longrightarrow> \<not> smp_inside (at_pc m j)" "lk_locked m \<noteq> 0"
    using assms(2) unfolding smp_inv_def smp_inside_def by blast+
  then show ?thesis using set_owner unfolding smp_inv_def by (auto simp: smp_inside_def)
next
  case (clear_owner i)
  then have "\<forall>j. j \<noteq> i \<longrightarrow> \<not> smp_inside (at_pc m j)" "lk_locked m \<noteq> 0"
    using assms(2) unfolding smp_inv_def smp_inside_def by blast+
  then show ?thesis using clear_owner unfolding smp_inv_def by (auto simp: smp_inside_def)
next
  case (store_zero i)
  then have out: "\<forall>j. j \<noteq> i \<longrightarrow> \<not> smp_inside (at_pc m j)"
    using assms(2) unfolding smp_inv_def smp_inside_def by blast
  have "at_pc m j \<noteq> Critical" for j
    using out store_zero(2) by (cases "j = i") (auto simp: smp_inside_def)
  then have "lk_cpu m = None" using assms(2) unfolding smp_inv_def by (cases "lk_cpu m") auto
  then show ?thesis using out store_zero unfolding smp_inv_def by (auto simp: smp_inside_def)
qed

lemma smp_reachable_inv: "smp_reachable m \<Longrightarrow> smp_inv m"
  by (induction rule: smp_reachable.induct) (auto intro: smp_inv_init smp_inv_step)

text \<open>
  C2. Mutual exclusion under every interleaving of several CPUs: in every reachable state at
  most one CPU is between winning the exchange and storing 0 to the lock word, and
  \<^verbatim>\<open>holding()\<close> answers true on exactly the CPU that is in its critical section.
\<close>

theorem spinlock_mutual_exclusion:
  assumes "smp_reachable m"
  shows "(\<forall>i j. smp_inside (at_pc m i) \<longrightarrow> smp_inside (at_pc m j) \<longrightarrow> i = j)
     \<and> (\<forall>i. smp_holding i m \<longleftrightarrow> at_pc m i = Critical)"
  using smp_reachable_inv [OF assms] unfolding smp_inv_def smp_holding_def smp_inside_def by blast

lemma smp_contended:
  "smp_reachable (smp_init\<lparr>lk_locked := 1, lk_cpu := Some 0, at_pc := (at_pc smp_init)(0 := Critical, 1 := Spinning)\<rparr>)"
  (is "smp_reachable ?m")
proof -
  let ?a = "smp_init\<lparr>at_pc := (at_pc smp_init)(0 := Spinning)\<rparr>"
  let ?b = "?a\<lparr>lk_locked := 1, at_pc := (at_pc ?a)(0 := Won)\<rparr>"
  let ?c = "?b\<lparr>lk_cpu := Some 0, at_pc := (at_pc ?b)(0 := Critical)\<rparr>"
  let ?d = "?c\<lparr>at_pc := (at_pc ?c)(1 := Spinning)\<rparr>"
  have "smp_reachable ?a"
    by (rule smp_next [OF smp_start], rule enter) (simp_all add: smp_init_def smp_holding_def)
  then have "smp_reachable ?b"
    by (rule smp_next, intro xchg_win) (simp_all add: smp_init_def)
  then have "smp_reachable ?c" by (rule smp_next, intro set_owner) simp
  then have "smp_reachable ?d"
    by (rule smp_next, intro enter) (simp_all add: smp_init_def smp_holding_def)
  moreover have "?d = ?m" by (simp add: smp_init_def fun_eq_iff)
  ultimately show ?thesis by simp
qed

theorem spinlock_mutual_exclusion_witness:
  "smp_holding 0 (smp_init\<lparr>lk_locked := 1, lk_cpu := Some 0, at_pc := (at_pc smp_init)(0 := Critical, 1 := Spinning)\<rparr>)
   \<and> \<not> smp_holding 1 (smp_init\<lparr>lk_locked := 1, lk_cpu := Some 0, at_pc := (at_pc smp_init)(0 := Critical, 1 := Spinning)\<rparr>)"
  using spinlock_mutual_exclusion [OF smp_contended] by simp

lemma mycpu_scan_own:
  assumes "distinct (map apicid cpus)" "i < length cpus"
  shows "mycpu_scan cpus (apicid (cpus ! i)) False = Ok i"
proof -
  have "find_idx (\<lambda>c. apicid c = apicid (cpus ! i)) cpus = Some i"
  proof (rule find_idx_SomeI)
    fix j assume "j < i"
    then show "apicid (cpus ! j) \<noteq> apicid (cpus ! i)"
      using assms nth_eq_iff_index_eq [OF assms(1), of j i] by simp
  qed (use assms in auto)
  then show ?thesis by (simp add: mycpu_scan_def)
qed

lemma callerpcs_from_length [simp]: "length (callerpcs_from m n ebp) = n"
  by (induction m n ebp rule: callerpcs_from.induct) simp_all

section \<open>Lock-neutral operations\<close>

text \<open>
  The contract every kernel call keeps towards its caller: when it returns, the CPU holds
  the locks it held before, at the same \<^verbatim>\<open>pushcli\<close> depth, with the same interrupt flag and
  the same current process.
\<close>

definition same_locks :: "'a machine_scheme \<Rightarrow> 'a machine_scheme \<Rightarrow> bool" where
  "same_locks s s' \<longleftrightarrow> held s' = held s \<and> fl_if s' = fl_if s
     \<and> ncli (thiscpu s') = ncli (thiscpu s) \<and> proc (thiscpu s') = proc (thiscpu s)
     \<and> (ncli (thiscpu s) \<noteq> 0 \<longrightarrow> intena (thiscpu s') = intena (thiscpu s))"

lemma same_locks_refl [simp]: "same_locks s s"
  by (simp add: same_locks_def)

lemma same_locks_trans: "same_locks s t \<Longrightarrow> same_locks t u \<Longrightarrow> same_locks s u"
  by (simp add: same_locks_def)

lemma same_locks_wf: "same_locks s t \<Longrightarrow> wf_cpu s \<Longrightarrow> wf_cpu t"
  by (simp add: same_locks_def wf_cpu_def)

locale lock_neutral =
  fixes pre :: "'s machine_scheme \<Rightarrow> bool"
    and f :: "'s machine_scheme \<Rightarrow> ('a \<times> 's machine_scheme) res"
  assumes neutral: "wf_cpu s \<Longrightarrow> pre s \<Longrightarrow> f s = Ok (x, s') \<Longrightarrow> same_locks s s'"
begin

lemma keeps_wf: "wf_cpu s \<Longrightarrow> pre s \<Longrightarrow> f s = Ok (x, s') \<Longrightarrow> wf_cpu s'"
  using neutral same_locks_wf by blast

lemma keeps_lock: "wf_cpu s \<Longrightarrow> pre s \<Longrightarrow> f s = Ok (x, s') \<Longrightarrow> held s' l = held s l"
  using neutral by (simp add: same_locks_def)

lemma inside_section:
  assumes "wf_cpu s" "\<not> held s l" "acquire l s = Ok t" "pre t" "f t = Ok (x, u)" "release l u = Ok v"
  shows "same_locks s v"
proof -
  have t: "t = s\<lparr>fl_if := False, thiscpu := cpu_push (fl_if s) (thiscpu s), held := (held s)(l := True)\<rparr>"
    using assms(1-3) by (simp add: acquire_eq)
  then have wt: "wf_cpu t" using assms(1) by (simp add: wf_cpu_def)
  have tu: "same_locks t u" using neutral [OF wt assms(4,5)] .
  moreover have "wf_cpu u" using tu wt by (rule same_locks_wf)
  ultimately have "release l u = Ok (u\<lparr>held := (held u)(l := False), thiscpu := cpu_pop (thiscpu u),
     fl_if := (ncli (thiscpu u) = 1 \<and> intena (thiscpu u))\<rparr>)"
    using t assms(1) by (intro release_eq) (auto simp: same_locks_def wf_cpu_def)
  then show ?thesis using assms(1,2,6) tu t
    by (auto simp: same_locks_def cpu_pop_def wf_cpu_def cpu_push_def)
qed

end

end
