(* ===== verification/Console_Out.thy ===== *)
theory Console_Out
  imports Spinlock
begin

text \<open>
  The output half of \<^verbatim>\<open>console.c\<close> with \<^verbatim>\<open>uartputc\<close> of \<^verbatim>\<open>uart.c\<close>: number
  formatting, \<^verbatim>\<open>cprintf\<close>, and the character path to the serial port and the CGA text
  screen. \<open>uart_out\<close> is the sequence of bytes sent to \<^verbatim>\<open>COM1\<close>, \<open>crt\<close> the CGA memory
  and \<open>crt_pos\<close> the 16-bit cursor register behind \<^verbatim>\<open>CRTPORT\<close>.
\<close>

section \<open>State\<close>

record console = machine +
  cons_locking :: bool
  panicked :: bool
  uart :: bool
  uart_out :: "u8 list"
  crt :: "nat \<Rightarrow> u16"
  crt_pos :: nat

definition BACKSPACE :: u32 where "BACKSPACE = 0x100"

section \<open>Characters\<close>

definition uartputc :: "u32 \<Rightarrow> 'a console_scheme \<Rightarrow> 'a console_scheme" where
  "uartputc c s = (if \<not> uart s then s else s\<lparr>uart_out := uart_out s @ [ucast c]\<rparr>)"

text \<open>The part of \<^verbatim>\<open>cgaputc\<close> after the new position is known: range check, scroll, write back.\<close>

definition cga_setpos :: "int \<Rightarrow> (nat \<Rightarrow> u16) \<Rightarrow> 'a console_scheme \<Rightarrow> 'a console_scheme res" where
  "cga_setpos pos m s =
     (if pos < 0 \<or> pos > 25 * 80 then Panic ''pos under/overflow''
      else if pos div 80 \<ge> 24 then
        let m = (\<lambda>i. if i < 23 * 80 then m (i + 80) else m i);
            pos = pos - 80;
            m = (\<lambda>i. if nat pos \<le> i \<and> i < 24 * 80 then 0 else m i) in
        Ok (s\<lparr>crt_pos := nat pos mod 65536, crt := m(nat pos := 0x20 OR 0x0700)\<rparr>)
      else Ok (s\<lparr>crt_pos := nat pos mod 65536, crt := m(nat pos := 0x20 OR 0x0700)\<rparr>))"

definition cgaputc :: "u32 \<Rightarrow> 'a console_scheme \<Rightarrow> 'a console_scheme res" where
  "cgaputc c s =
     (let pos = int (crt_pos s) in
      if c = 10 then cga_setpos (pos + (80 - pos mod 80)) (crt s) s
      else if c = BACKSPACE then cga_setpos (if pos > 0 then pos - 1 else pos) (crt s) s
      else cga_setpos (pos + 1) ((crt s)(nat pos := ucast (c AND 0xff) OR 0x0700)) s)"

definition consputc :: "u32 \<Rightarrow> 'a console_scheme \<Rightarrow> 'a console_scheme res" where
  "consputc c s =
     (if panicked s then Hangs
      else
        let s = (if c = BACKSPACE then uartputc 8 (uartputc 0x20 (uartputc 8 s)) else uartputc c s) in
        cgaputc c s)"

primrec consputs :: "u32 list \<Rightarrow> 'a console_scheme \<Rightarrow> 'a console_scheme res" where
  "consputs [] s = Ok s"
| "consputs (c # cs) s = andThen (consputc c s) (consputs cs)"

section \<open>Numbers and formats\<close>

text \<open>
  The digits in the order the loop stores them in \<^verbatim>\<open>buf\<close>. The kernel only prints in base
  10 and 16; a base below 2 is cut off after one digit to make the recursion total.
\<close>

function ndigits :: "nat \<Rightarrow> nat \<Rightarrow> nat list" where
  "ndigits base x = x mod base # (if x div base = 0 \<or> base < 2 then [] else ndigits base (x div base))"
  by pat_completeness auto
termination
  by (relation "measure snd") (auto intro!: div_less_dividend simp: div_greater_zero_iff)

declare ndigits.simps [simp del]

definition digit_chars :: string where "digit_chars = ''0123456789abcdef''"

definition printint :: "u32 \<Rightarrow> nat \<Rightarrow> bool \<Rightarrow> string" where
  "printint xx base sign =
     (let neg = sign \<and> sint xx < 0;
          x = (if neg then unat (- xx) else unat xx);
          buf = map (\<lambda>d. digit_chars ! d) (ndigits base x);
          buf = (if neg then buf @ ''-'' else buf) in
      rev buf)"

datatype fmt_arg = ANum u32 | AStr "string option"

text \<open>The words behind \<^verbatim>\<open>argp\<close>: what \<^verbatim>\<open>%d\<close>, \<^verbatim>\<open>%x\<close>, \<^verbatim>\<open>%p\<close> and \<^verbatim>\<open>%s\<close> print for one.\<close>

fun fmt_num :: "fmt_arg list \<Rightarrow> nat \<Rightarrow> bool \<Rightarrow> string" where
  "fmt_num (ANum x # _) base sign = printint x base sign"
| "fmt_num _ base sign = []"

fun fmt_str :: "fmt_arg list \<Rightarrow> string" where
  "fmt_str (AStr (Some t) # _) = t"
| "fmt_str (AStr None # _) = ''(null)''"
| "fmt_str _ = []"

fun cformat :: "string \<Rightarrow> fmt_arg list \<Rightarrow> string" where
  "cformat [] args = []"
| "cformat (c # fmt) args =
     (if c \<noteq> CHR ''%'' then c # cformat fmt args
      else case fmt of
        [] \<Rightarrow> []
      | d # fmt' \<Rightarrow>
          if d = CHR ''d'' then fmt_num args 10 True @ cformat fmt' (tl args)
          else if d = CHR ''x'' \<or> d = CHR ''p'' then fmt_num args 16 False @ cformat fmt' (tl args)
          else if d = CHR ''s'' then fmt_str args @ cformat fmt' (tl args)
          else if d = CHR ''%'' then CHR ''%'' # cformat fmt' args
          else CHR ''%'' # d # cformat fmt' args)"

definition char_codes :: "string \<Rightarrow> u32 list" where
  "char_codes t = map of_char t"

definition cprintf :: "string \<Rightarrow> fmt_arg list \<Rightarrow> 'a console_scheme \<Rightarrow> 'a console_scheme res" where
  "cprintf fmt args s =
     (let locking = cons_locking s in
      andThen (if locking then acquire CONS_LOCK s else Ok s) (\<lambda>s.
      andThen (consputs (char_codes (cformat fmt args)) s) (\<lambda>s.
      if locking then release CONS_LOCK s else Ok s)))"

text \<open>
  \<^verbatim>\<open>panic\<close>: the state in which it spins for ever. The saved return addresses and the local APIC
  id are arguments; the message is itself used as a format.
\<close>

fun panic_pcs :: "u32 list \<Rightarrow> 'a console_scheme \<Rightarrow> 'a console_scheme res" where
  "panic_pcs [] s = Ok s"
| "panic_pcs (pc # pcs) s = andThen (cprintf '' %p'' [ANum pc] s) (panic_pcs pcs)"

definition panic :: "u32 \<Rightarrow> u32 list \<Rightarrow> string \<Rightarrow> 'a console_scheme \<Rightarrow> 'a console_scheme res" where
  "panic lapicid pcs msg s =
     (let s = s\<lparr>fl_if := False, cons_locking := False\<rparr> in
      andThen (cprintf ''lapicid %d: panic: '' [ANum lapicid] s) (\<lambda>s.
      andThen (cprintf msg [] s) (\<lambda>s.
      andThen (cprintf [CHR 0x0A] [] s) (\<lambda>s.
      andThen (panic_pcs pcs s) (\<lambda>s.
      Ok (s\<lparr>panicked := True\<rparr>))))))"

section \<open>The number printer\<close>

text \<open>The value a digit string denotes, most significant digit first.\<close>

fun digits_val :: "nat \<Rightarrow> nat list \<Rightarrow> nat" where
  "digits_val base [] = 0"
| "digits_val base (d # ds) = d + base * digits_val base ds"

definition char_digit :: "char \<Rightarrow> nat" where
  "char_digit c = (case find_idx ((=) c) digit_chars of Some d \<Rightarrow> d | None \<Rightarrow> 0)"

definition parse_num :: "nat \<Rightarrow> string \<Rightarrow> int" where
  "parse_num base t =
     (case t of
        [] \<Rightarrow> 0
      | c # cs \<Rightarrow>
          if c = CHR ''-'' then - int (digits_val base (map char_digit (rev cs)))
          else int (digits_val base (map char_digit (rev (c # cs)))))"

lemma digits_val_ndigits: "2 \<le> base \<Longrightarrow> digits_val base (ndigits base x) = x"
proof (induction base x rule: ndigits.induct)
  case (1 base x)
  show ?case
  proof (cases "x div base = 0")
    case True
    with 1 show ?thesis by (subst ndigits.simps) (simp, metis div_mult_mod_eq mult_zero_left add_0)
  next
    case False
    with 1 have "digits_val base (ndigits base (x div base)) = x div base" by simp
    with False 1 show ?thesis by (subst ndigits.simps) simp
  qed
qed

lemma ndigits_less: "2 \<le> base \<Longrightarrow> d \<in> set (ndigits base x) \<Longrightarrow> d < base"
proof (induction base x rule: ndigits.induct)
  case (1 base x)
  from 1(3) have "d = x mod base \<or> (x div base \<noteq> 0 \<and> d \<in> set (ndigits base (x div base)))"
    by (subst (asm) ndigits.simps) (auto split: if_splits)
  with 1 show ?case by auto
qed

lemma ndigits_nonempty [simp]: "ndigits base x \<noteq> []"
  by (subst ndigits.simps) simp

lemma digit_chars_simps:
  "length digit_chars = 16" "d < 16 \<Longrightarrow> char_digit (digit_chars ! d) = d"
  "d < 16 \<Longrightarrow> digit_chars ! d \<noteq> CHR ''-''"
proof -
  show "length digit_chars = 16" by (simp add: digit_chars_def)
  have "\<forall>d\<in>{..<16}. char_digit (digit_chars ! d) = d \<and> digit_chars ! d \<noteq> CHR ''-''"
    by (simp add: lessThan_nat_numeral lessThan_Suc char_digit_def digit_chars_def)
  then show "d < 16 \<Longrightarrow> char_digit (digit_chars ! d) = d" "d < 16 \<Longrightarrow> digit_chars ! d \<noteq> CHR ''-''"
    by auto
qed

lemma map_char_digit:
  assumes "2 \<le> base" "base \<le> 16"
  shows "map char_digit (map (\<lambda>d. digit_chars ! d) (ndigits base x)) = ndigits base x"
proof -
  have "char_digit (digit_chars ! d) = d" if "d \<in> set (ndigits base x)" for d
    using assms that digit_chars_simps(2) ndigits_less [of base d x] by simp
  then show ?thesis by (simp add: map_idI)
qed

lemma parse_num_minus [simp]: "parse_num base (CHR ''-'' # t) = - int (digits_val base (map char_digit (rev t)))"
  by (simp add: parse_num_def)

lemma parse_num_plain:
  assumes "t \<noteq> []" "CHR ''-'' \<notin> set t"
  shows "parse_num base t = int (digits_val base (map char_digit (rev t)))"
  using assms by (cases t) (auto simp: parse_num_def)

lemma printint_no_minus:
  assumes "2 \<le> base" "base \<le> 16"
  shows "CHR ''-'' \<notin> set (map (\<lambda>d. digit_chars ! d) (ndigits base n))"
proof -
  have "digit_chars ! d \<noteq> CHR ''-''" if "d \<in> set (ndigits base n)" for d
    using assms that digit_chars_simps(3) ndigits_less [of base d n] by simp
  then show ?thesis by fastforce
qed

lemma parse_printint:
  assumes "2 \<le> base" "base \<le> 16"
  shows "parse_num base (printint x base sign) = (if sign then sint x else uint x)"
proof (cases "sign \<and> sint x < 0")
  case True
  then have "parse_num base (printint x base sign) = - int (unat (- x))"
    using assms by (simp add: printint_def Let_def map_char_digit digits_val_ndigits del: map_map)
  also have "\<dots> = sint x" using True sint_neg_unat [of x] by linarith
  finally show ?thesis using True by simp
next
  case False
  then have p: "printint x base sign = rev (map (\<lambda>d. digit_chars ! d) (ndigits base (unat x)))"
    by (auto simp: printint_def Let_def)
  have "parse_num base (printint x base sign) = int (unat x)"
    using assms printint_no_minus [OF assms, of "unat x"]
    unfolding p by (simp add: parse_num_plain map_char_digit digits_val_ndigits del: map_map set_map of_nat_unat)
  also have "\<dots> = (if sign then sint x else uint x)" using False sint_nonneg_unat [of x] by auto
  finally show ?thesis .
qed

section \<open>The character path\<close>

text \<open>
  The cursor stays on the first 24 rows: a character written there never trips the range
  check, and scrolling brings the cursor back.
\<close>

definition cursor_ok :: "'a console_scheme \<Rightarrow> bool" where
  "cursor_ok s \<longleftrightarrow> crt_pos s < 24 * 80"

lemma newline_pos:
  assumes "0 \<le> p" "p < 1920"
  shows "0 \<le> p + (80 - p mod 80)" "p + (80 - p mod (80::int)) \<le> 1920"
proof -
  have "p div 80 < 24" using assms(2) by (simp add: div_less_iff_less_mult)
  moreover have "p - p mod 80 = 80 * (p div 80)" by (simp add: minus_mod_eq_mult_div)
  ultimately show "p + (80 - p mod 80) \<le> 1920" by linarith
  show "0 \<le> p + (80 - p mod 80)" using assms(1) pos_mod_bound [of 80 p] by linarith
qed

lemma cga_setpos_ok:
  assumes "0 \<le> q" "q \<le> 1920"
  shows "\<exists>p m'. cga_setpos q m s = Ok (s\<lparr>crt_pos := p, crt := m'\<rparr>) \<and> p < 24 * 80"
proof (cases "q = 1920")
  case True
  then show ?thesis unfolding cga_setpos_def Let_def by auto
next
  case False
  then have "\<not> 24 \<le> q div 80" "nat q < 1920" using assms by (simp_all add: not_le div_less_iff_less_mult)
  with assms show ?thesis unfolding cga_setpos_def by auto
qed

lemma cgaputc_ok:
  assumes "cursor_ok s"
  shows "\<exists>p m. cgaputc c s = Ok (s\<lparr>crt_pos := p, crt := m\<rparr>) \<and> p < 24 * 80"
proof -
  have p: "0 \<le> int (crt_pos s)" "int (crt_pos s) < 1920" using assms by (simp_all add: cursor_ok_def)
  show ?thesis unfolding cgaputc_def Let_def
    by (simp only: split: if_split, intro conjI impI cga_setpos_ok) (use p newline_pos [OF p] in linarith)+
qed

text \<open>The bytes one console character sends to the serial port.\<close>

definition serial_bytes :: "u32 \<Rightarrow> u8 list" where
  "serial_bytes c = (if c = BACKSPACE then [8, 0x20, 8] else [ucast c])"

lemma consputc_ok:
  assumes "\<not> panicked s" "cursor_ok s"
  shows "\<exists>p m. consputc c s = Ok (s\<lparr>uart_out := uart_out s @ (if uart s then serial_bytes c else []),
           crt_pos := p, crt := m\<rparr>) \<and> p < 24 * 80"
proof -
  let ?t = "s\<lparr>uart_out := uart_out s @ (if uart s then serial_bytes c else [])\<rparr>"
  have "consputc c s = cgaputc c ?t"
    using assms(1) by (auto simp: consputc_def Let_def uartputc_def serial_bytes_def)
  moreover have "cursor_ok ?t" using assms(2) by (simp add: cursor_ok_def)
  ultimately show ?thesis using cgaputc_ok [of ?t c] by simp
qed

lemma consputs_ok:
  assumes "\<not> panicked s" "cursor_ok s"
  shows "\<exists>p m. consputs cs s = Ok (s\<lparr>uart_out := uart_out s @ (if uart s then concat (map serial_bytes cs) else []),
           crt_pos := p, crt := m\<rparr>) \<and> p < 24 * 80"
  using assms
proof (induction cs arbitrary: s)
  case Nil
  have "s = s\<lparr>uart_out := uart_out s, crt_pos := crt_pos s, crt := crt s\<rparr>" by simp
  then show ?case using Nil.prems(2) unfolding cursor_ok_def by (metis append_Nil2 concat.simps(1) consputs.simps(1) list.map(1))
next
  case (Cons c cs)
  obtain p m where 1: "consputc c s = Ok (s\<lparr>uart_out := uart_out s @ (if uart s then serial_bytes c else []),
           crt_pos := p, crt := m\<rparr>)" (is "_ = Ok ?t") and p: "p < 24 * 80"
    using consputc_ok [OF Cons.prems] by blast
  have "\<not> panicked ?t" "cursor_ok ?t" using Cons.prems p by (simp_all add: cursor_ok_def)
  from Cons.IH [OF this] show ?case using 1 by (simp split: if_splits)
qed

lemma of_char_codes: "serial_bytes (of_char ch) = [of_char ch]"
proof -
  have n: "(of_char ch :: nat) < 256"
    by (metis mod_less_divisor of_char_mod_256 zero_less_numeral)
  have u: "(of_char ch :: u32) = word_of_nat (of_char ch)" "(of_char ch :: u8) = word_of_nat (of_char ch)"
    by (simp_all add: of_nat_of_char)
  have c: "unat (of_char ch :: u32) = of_char ch" 
    unfolding u unat_of_nat using n by (intro mod_less order_less_trans [OF n]) simp
  have b: "unat BACKSPACE = 256" by (simp add: BACKSPACE_def)
  have "unat (of_char ch :: u32) \<noteq> unat BACKSPACE" unfolding c b by (rule less_imp_neq [OF n])
  then have "(of_char ch :: u32) \<noteq> BACKSPACE" by (rule contrapos_nn) (rule arg_cong)
  moreover have "(ucast (of_char ch :: u32) :: u8) = of_char ch"
    by (subst of_nat_unat [symmetric], subst c, rule of_nat_of_char)
  ultimately show ?thesis by (simp add: serial_bytes_def)
qed

lemma serial_char_codes [simp]: "concat (map serial_bytes (char_codes t)) = map of_char t"
  by (induction t) (simp_all add: char_codes_def of_char_codes)

lemma cprintf_ok:
  assumes "wf_cpu s" "\<not> held s CONS_LOCK" "\<not> panicked s" "cursor_ok s"
  shows "\<exists>p m. cprintf fmt args s = Ok (s\<lparr>uart_out := uart_out s @ (if uart s then map of_char (cformat fmt args) else []),
           crt_pos := p, crt := m,
           thiscpu := (if cons_locking s then cpu_settle (fl_if s) (thiscpu s) else thiscpu s)\<rparr>) \<and> p < 24 * 80"
proof (cases "cons_locking s")
  case True
  let ?a = "s\<lparr>fl_if := False, thiscpu := cpu_push (fl_if s) (thiscpu s), held := (held s)(CONS_LOCK := True)\<rparr>"
  have "\<not> panicked ?a" "cursor_ok ?a" using assms by (simp_all add: cursor_ok_def)
  from consputs_ok [OF this, of "char_codes (cformat fmt args)", unfolded serial_char_codes] obtain p m where
    c: "consputs (char_codes (cformat fmt args)) ?a = Ok (?a\<lparr>uart_out := uart_out s @ (if uart s then map of_char (cformat fmt args) else []), crt_pos := p, crt := m\<rparr>)"
    and p: "p < 24 * 80" by auto
  have "cprintf fmt args s = Ok (s\<lparr>uart_out := uart_out s @ (if uart s then map of_char (cformat fmt args) else []),
           crt_pos := p, crt := m, thiscpu := cpu_settle (fl_if s) (thiscpu s)\<rparr>)"
    using True assms c by (simp add: cprintf_def acquire_eq release_eq wf_cpu_def)
  with p True show ?thesis by auto
next
  case False
  then show ?thesis using consputs_ok [OF assms(3,4), of "char_codes (cformat fmt args)", unfolded serial_char_codes]
    by (auto simp: cprintf_def)
qed

section \<open>Properties\<close>



text \<open>
  C20. \<^verbatim>\<open>cprintf\<close> with a cursor on the screen never trips the cursor range check: it returns, the
  serial port receives exactly the formatted text, the cursor is on the screen again, and the
  lock state is as before.
\<close>

theorem cprintf_prints:
  assumes "wf_cpu s" "\<not> held s CONS_LOCK" "\<not> panicked s" "cursor_ok s" "uart s"
  shows "\<exists>s'. cprintf fmt args s = Ok s' \<and> uart_out s' = uart_out s @ map of_char (cformat fmt args)
    \<and> cursor_ok s' \<and> wf_cpu s' \<and> held s' = held s \<and> fl_if s' = fl_if s
    \<and> ncli (thiscpu s') = ncli (thiscpu s)"
proof -
  obtain p m where 1: "cprintf fmt args s = Ok (s\<lparr>uart_out := uart_out s @ (if uart s then map of_char (cformat fmt args) else []),
           crt_pos := p, crt := m,
           thiscpu := (if cons_locking s then cpu_settle (fl_if s) (thiscpu s) else thiscpu s)\<rparr>)"
      (is "_ = Ok ?t") and p: "p < 24 * 80"
    using cprintf_ok [OF assms(1-4)] by blast
  have "cursor_ok ?t" "wf_cpu ?t" using p assms(1) by (simp_all add: cursor_ok_def wf_cpu_def)
  then show ?thesis using 1 assms(5) by simp
qed

definition console_example :: console where
  "console_example = \<lparr>thiscpu = boot_cpu, fl_if = True, held = (\<lambda>_. False), cons_locking = True,
     panicked = False, uart = True, uart_out = [], crt = (\<lambda>_. 0), crt_pos = 1919\<rparr>"

theorem cprintf_prints_witness:
  "\<exists>s'. cprintf ''a%xb%d'' [ANum 255, ANum 0xFFFFFFFF] console_example = Ok s'
     \<and> uart_out s' = map of_char ''affb-1''"
proof -
  have "cformat ''a%xb%d'' [ANum 255, ANum 0xFFFFFFFF] = ''affb-1''"
    by (simp add: printint_def ndigits.simps digit_chars_def)
  then show ?thesis
    using cprintf_prints [of console_example "''a%xb%d''" "[ANum 255, ANum 0xFFFFFFFF]"]
    by (simp add: console_example_def cursor_ok_def wf_cpu_def boot_cpu_def) blast
qed

lemma cprintf_unlocked:
  assumes "\<not> panicked s" "cursor_ok s" "\<not> cons_locking s"
  shows "\<exists>s'. cprintf fmt args s = Ok s' \<and> \<not> panicked s' \<and> cursor_ok s' \<and> \<not> cons_locking s'
    \<and> uart s' = uart s \<and> uart_out s' = uart_out s @ (if uart s then map of_char (cformat fmt args) else [])"
proof -
  obtain p m where "consputs (char_codes (cformat fmt args)) s = Ok (s\<lparr>uart_out := uart_out s @
      (if uart s then map of_char (cformat fmt args) else []), crt_pos := p, crt := m\<rparr>)" "p < 24 * 80"
    using consputs_ok [OF assms(1,2), of "char_codes (cformat fmt args)", unfolded serial_char_codes] by blast
  then show ?thesis using assms by (auto simp: cprintf_def cursor_ok_def)
qed

lemma panic_pcs_ok:
  assumes "\<not> panicked s" "cursor_ok s" "\<not> cons_locking s"
  shows "\<exists>s' t. panic_pcs pcs s = Ok s' \<and> \<not> panicked s' \<and> cursor_ok s' \<and> \<not> cons_locking s'
    \<and> uart s' = uart s \<and> uart_out s' = uart_out s @ t"
  using assms
proof (induction pcs arbitrary: s)
  case (Cons pc pcs)
  from cprintf_unlocked [OF Cons.prems, of "'' %p''" "[ANum pc]"] obtain s1 where
    "cprintf '' %p'' [ANum pc] s = Ok s1" "\<not> panicked s1" "cursor_ok s1" "\<not> cons_locking s1"
    "uart s1 = uart s" "\<exists>t. uart_out s1 = uart_out s @ t" by blast
  with Cons.IH [of s1] show ?case by fastforce
qed auto

text \<open>
  C21. \<^verbatim>\<open>panic\<close> works even when this CPU already holds the console lock: it reports its message on
  the serial port without taking the lock, and afterwards every attempt to print, on any CPU,
  spins for ever.
\<close>

theorem panic_reports_and_freezes:
  assumes "\<not> panicked s" "cursor_ok s" "uart s"
  shows "\<exists>s' t. panic lapicid pcs msg s = Ok s'
    \<and> uart_out s' = uart_out s @ map of_char (cformat ''lapicid %d: panic: '' [ANum lapicid] @ cformat msg []) @ t
    \<and> (\<forall>c. consputc c s' = Hangs)"
proof -
  let ?s = "s\<lparr>fl_if := False, cons_locking := False\<rparr>"
  have "\<not> panicked ?s" "cursor_ok ?s" "\<not> cons_locking ?s" using assms by (simp_all add: cursor_ok_def)
  from cprintf_unlocked [OF this, of "''lapicid %d: panic: ''" "[ANum lapicid]"] assms(3) obtain s1 where
    1: "cprintf ''lapicid %d: panic: '' [ANum lapicid] ?s = Ok s1" "\<not> panicked s1" "cursor_ok s1" "\<not> cons_locking s1" "uart s1"
      "uart_out s1 = uart_out s @ map of_char (cformat ''lapicid %d: panic: '' [ANum lapicid])"
    by (auto simp del: cformat.simps)
  from cprintf_unlocked [OF 1(2-4), of msg "[]"] 1(5) obtain s2 where
    2: "cprintf msg [] s1 = Ok s2" "\<not> panicked s2" "cursor_ok s2" "\<not> cons_locking s2" "uart s2"
      "uart_out s2 = uart_out s1 @ map of_char (cformat msg [])" by auto
  from cprintf_unlocked [OF 2(2-4), of "[CHR 0x0A]" "[]"] 2(5) obtain s3 where
    3: "cprintf [CHR 0x0A] [] s2 = Ok s3" "\<not> panicked s3" "cursor_ok s3" "\<not> cons_locking s3"
      "\<exists>t. uart_out s3 = uart_out s2 @ t" by blast
  from panic_pcs_ok [OF 3(2-4), of pcs] obtain s4 t where
    4: "panic_pcs pcs s3 = Ok s4" "uart_out s4 = uart_out s3 @ t" by auto
  have "panic lapicid pcs msg s = Ok (s4\<lparr>panicked := True\<rparr>)"
    using 1(1) 2(1) 3(1) 4(1) by (simp add: panic_def)
  moreover have "\<exists>t. uart_out s4 = uart_out s @ map of_char (cformat ''lapicid %d: panic: '' [ANum lapicid] @ cformat msg []) @ t"
    using 1(6) 2(6) 3(5) 4(2) by (auto simp del: cformat.simps)
  ultimately show ?thesis by (fastforce simp: consputc_def simp del: cformat.simps)
qed

theorem panic_reports_and_freezes_witness:
  "\<exists>s' t. panic 3 [] ''kfree'' (console_example\<lparr>held := (\<lambda>_. True)\<rparr>) = Ok s'
    \<and> uart_out s' = map of_char ''lapicid 3: panic: kfree'' @ t \<and> consputc 65 s' = Hangs"
proof -
  have "cformat ''lapicid %d: panic: '' [ANum 3] @ cformat ''kfree'' [] = ''lapicid 3: panic: kfree''"
    by (simp add: printint_def ndigits.simps digit_chars_def)
  then show ?thesis
    using panic_reports_and_freezes [of "console_example\<lparr>held := (\<lambda>_. True)\<rparr>" 3 "[]" "''kfree''"]
    by (auto simp: console_example_def cursor_ok_def simp del: cformat.simps)
qed

end
