(* ===== verification/Kstring.thy ===== *)
theory Kstring
  imports Xv6_Prelude
begin

text \<open>
  \<^verbatim>\<open>string.c\<close> over byte memory \<open>u32 \<Rightarrow> u8\<close>, with \<^verbatim>\<open>stosb\<close> and \<^verbatim>\<open>stosl\<close> of
  \<^verbatim>\<open>x86.h\<close>. Pointers are 32-bit words and wrap; the loops count the \<^verbatim>\<open>n\<close> of the C
  code down.
\<close>

type_synonym memory = "u32 \<Rightarrow> u8"

section \<open>Memory blocks\<close>

primrec stosb :: "memory \<Rightarrow> u32 \<Rightarrow> u8 \<Rightarrow> nat \<Rightarrow> memory" where
  "stosb m addr data 0 = m"
| "stosb m addr data (Suc cnt) = stosb (m(addr := data)) (addr + 1) data cnt"

primrec stosl :: "memory \<Rightarrow> u32 \<Rightarrow> u32 \<Rightarrow> nat \<Rightarrow> memory" where
  "stosl m addr data 0 = m"
| "stosl m addr data (Suc cnt) = stosl (store32 m addr data) (addr + 4) data cnt"

definition memset :: "memory \<Rightarrow> u32 \<Rightarrow> u32 \<Rightarrow> u32 \<Rightarrow> memory" where
  "memset m dst c n =
     (if unat dst mod 4 = 0 \<and> unat n mod 4 = 0 then
        let c = c AND 0xFF in
        stosl m dst (push_bit 24 c OR push_bit 16 c OR push_bit 8 c OR c) (unat n div 4)
      else stosb m dst (ucast c) (unat n))"

primrec memcmp_n :: "memory \<Rightarrow> u32 \<Rightarrow> u32 \<Rightarrow> nat \<Rightarrow> int" where
  "memcmp_n m s1 s2 0 = 0"
| "memcmp_n m s1 s2 (Suc n) =
     (if m s1 \<noteq> m s2 then uint (m s1) - uint (m s2) else memcmp_n m (s1 + 1) (s2 + 1) n)"

definition memcmp :: "memory \<Rightarrow> u32 \<Rightarrow> u32 \<Rightarrow> u32 \<Rightarrow> int" where
  "memcmp m v1 v2 n = memcmp_n m v1 v2 (unat n)"

primrec copy_up :: "memory \<Rightarrow> u32 \<Rightarrow> u32 \<Rightarrow> nat \<Rightarrow> memory" where
  "copy_up m d s 0 = m"
| "copy_up m d s (Suc n) = copy_up (m(d := m s)) (d + 1) (s + 1) n"

text \<open>The downward loop of \<^verbatim>\<open>memmove\<close>, entered with both pointers past the block.\<close>

primrec copy_down :: "memory \<Rightarrow> u32 \<Rightarrow> u32 \<Rightarrow> nat \<Rightarrow> memory" where
  "copy_down m d s 0 = m"
| "copy_down m d s (Suc n) = copy_down (m(d - 1 := m (s - 1))) (d - 1) (s - 1) n"

definition memmove :: "memory \<Rightarrow> u32 \<Rightarrow> u32 \<Rightarrow> u32 \<Rightarrow> memory" where
  "memmove m dst src n =
     (if src < dst \<and> src + n > dst then copy_down m (dst + n) (src + n) (unat n)
      else copy_up m dst src (unat n))"

section \<open>Strings\<close>

primrec strncmp_n :: "memory \<Rightarrow> u32 \<Rightarrow> u32 \<Rightarrow> nat \<Rightarrow> int" where
  "strncmp_n m p q 0 = 0"
| "strncmp_n m p q (Suc n) =
     (if m p \<noteq> 0 \<and> m p = m q then strncmp_n m (p + 1) (q + 1) n
      else uint (m p) - uint (m q))"

definition strncmp :: "memory \<Rightarrow> u32 \<Rightarrow> u32 \<Rightarrow> u32 \<Rightarrow> int" where
  "strncmp m p q n = strncmp_n m p q (unat n)"

text \<open>\<open>strncpy\<close> and \<open>safestrcpy\<close> take a signed count, and do nothing when it is not positive.\<close>

primrec strncpy_n :: "memory \<Rightarrow> u32 \<Rightarrow> u32 \<Rightarrow> nat \<Rightarrow> memory" where
  "strncpy_n m s t 0 = m"
| "strncpy_n m s t (Suc n) =
     (let m' = m(s := m t) in
      if m t \<noteq> 0 then strncpy_n m' (s + 1) (t + 1) n else stosb m' (s + 1) 0 n)"

definition strncpy :: "memory \<Rightarrow> u32 \<Rightarrow> u32 \<Rightarrow> int \<Rightarrow> memory" where
  "strncpy m s t n = strncpy_n m s t (nat n)"

primrec safestrcpy_n :: "memory \<Rightarrow> u32 \<Rightarrow> u32 \<Rightarrow> nat \<Rightarrow> memory" where
  "safestrcpy_n m s t 0 = m(s := 0)"
| "safestrcpy_n m s t (Suc n) =
     (let m' = m(s := m t) in
      if m t \<noteq> 0 then safestrcpy_n m' (s + 1) (t + 1) n else m'(s + 1 := 0))"

definition safestrcpy :: "memory \<Rightarrow> u32 \<Rightarrow> u32 \<Rightarrow> int \<Rightarrow> memory" where
  "safestrcpy m s t n = (if n \<le> 0 then m else safestrcpy_n m s t (nat n - 1))"

text \<open>\<open>strlen\<close> scans for the terminator; \<open>fuel\<close> bounds the scan, \<open>None\<close> means none was found.\<close>

primrec strlen_fuel :: "nat \<Rightarrow> memory \<Rightarrow> u32 \<Rightarrow> nat \<Rightarrow> nat option" where
  "strlen_fuel 0 m s n = None"
| "strlen_fuel (Suc fuel) m s n =
     (if m (s + of_nat n) = 0 then Some n else strlen_fuel fuel m s (Suc n))"

section \<open>Blocks\<close>

lemma unat_pred: "x \<noteq> 0 \<Longrightarrow> unat (x - 1 :: u32) = unat x - 1"
  using unat_diff_u32 [of x 1] by (simp add: unat_gt_0 Suc_leI)

lemma diff_step:
  assumes "x \<noteq> (a :: u32)"
  shows "unat (x - (a + 1)) = unat (x - a) - 1" "0 < unat (x - a)"
proof -
  have e: "x - (a + 1) = (x - a) - 1" by (rule diff_diff_eq [symmetric])
  show "unat (x - (a + 1)) = unat (x - a) - 1" unfolding e using unat_pred [of "x - a"] assms by simp
  show "0 < unat (x - a)" using assms by (simp add: unat_gt_0)
qed

lemma diff_self_step: "unat (a - (a + 1) :: u32) = 2 ^ 32 - 1"
  using unat_minus_u32 [of 1] by simp

lemma stosb_apply: "n < 2 ^ 32 \<Longrightarrow> stosb m a b n x = (if unat (x - a) < n then b else m x)"
proof (induction n arbitrary: m a)
  case (Suc n)
  then have IH: "stosb (m(a := b)) (a + 1) b n x = (if unat (x - (a + 1)) < n then b else (m(a := b)) x)"
    by simp
  show ?case
  proof (cases "x = a")
    case True
    then show ?thesis using IH Suc.prems diff_self_step [of a] by simp
  next
    case False
    then show ?thesis using IH diff_step [OF False] by auto
  qed
qed simp

lemma copy_up_apply:
  assumes "n < 2 ^ 32" "d = s \<or> n \<le> unat (d - s)"
  shows "copy_up m d s n x = (if unat (x - d) < n then m (s + (x - d)) else m x)"
  using assms
proof (induction n arbitrary: m d s)
  case (Suc n)
  have IH: "copy_up (m(d := m s)) (d + 1) (s + 1) n x
      = (if unat (x - (d + 1)) < n then (m(d := m s)) (s + 1 + (x - (d + 1))) else (m(d := m s)) x)"
    using Suc.prems by (intro Suc.IH) auto
  show ?case
  proof (cases "x = d")
    case True
    then show ?thesis using IH Suc.prems diff_self_step [of d] by simp
  next
    case False
    have "s + (x - d) \<noteq> d" if "unat (x - d) < Suc n"
    proof
      assume "s + (x - d) = d"
      then have "x - d = d - s" by (simp add: algebra_simps)
      then show False using that Suc.prems False by auto
    qed
    moreover have "s + 1 + (x - (d + 1)) = s + (x - d)" by simp
    ultimately show ?thesis using IH diff_step [OF False] False by auto
  qed
qed simp

lemma copy_down_apply:
  assumes "n < 2 ^ 32" "d = s \<or> n \<le> unat (s - d)"
  shows "copy_down m (d + of_nat n) (s + of_nat n) n x = (if unat (x - d) < n then m (s + (x - d)) else m x)"
  using assms
proof (induction n arbitrary: m)
  case (Suc n)
  let ?m = "m(d + of_nat n := m (s + of_nat n))"
  have IH: "copy_down ?m (d + of_nat n) (s + of_nat n) n x
      = (if unat (x - d) < n then ?m (s + (x - d)) else ?m x)"
    using Suc.prems by (intro Suc.IH) auto
  have top: "x = d + of_nat n \<longleftrightarrow> unat (x - d) = n"
  proof
    assume "x = d + of_nat n"
    then show "unat (x - d) = n" using Suc.prems by (simp add: unat_of_nat)
  next
    assume "unat (x - d) = n"
    then have "of_nat n = x - d" by auto
    then show "x = d + of_nat n" by simp
  qed
  have "s + (x - d) \<noteq> d + of_nat n" if "unat (x - d) < n"
  proof
    assume "s + (x - d) = d + of_nat n"
    then have e: "s - d = of_nat n - (x - d)" by (simp add: algebra_simps)
    have "unat (of_nat n - (x - d) :: u32) = n - unat (x - d)"
      using that Suc.prems unat_diff_u32 [of "of_nat n" "x - d"] by (simp add: unat_of_nat)
    then have "unat (s - d) = n - unat (x - d)" unfolding e .
    then show False using that Suc.prems by auto
  qed
  then show ?case using IH top by (auto simp: algebra_simps)
qed simp

text \<open>
  C12. \<^verbatim>\<open>memmove\<close> is a copy of the source block as it was before the call, whether or not the
  blocks overlap, and touches nothing else, for all blocks that do not wrap around the top
  of the address space.
\<close>

theorem memmove_copies:
  assumes "unat src + unat n \<le> 2 ^ 32" "unat dst + unat n \<le> 2 ^ 32"
  shows "memmove m dst src n x = (if x - dst < n then m (src + (x - dst)) else m x)"
proof (cases "src < dst \<and> src + n > dst")
  case True
  then have lt: "unat src < unat dst" by (simp add: word_less_nat_alt)
  have "unat (src - dst) = unat src + 2 ^ 32 - unat dst" using lt unat_diff_u32 [of src dst] by simp
  then have "unat n \<le> unat (src - dst)" using assms by simp
  then show ?thesis
    using True copy_down_apply [of "unat n" dst src m x] unsigned_less [of n, where ?'a = nat]
    by (simp add: memmove_def word_less_nat_alt)
next
  case False
  have "dst = src \<or> unat n \<le> unat (dst - src)"
  proof (cases "src < dst")
    case True
    then have lt: "unat src < unat dst" by (simp add: word_less_nat_alt)
    then have "unat (src + n) = unat src + unat n" using assms by (simp add: unat_word_ariths)
    then have "unat src + unat n \<le> unat dst" using False True by (simp add: word_less_nat_alt not_less)
    moreover have "unat (dst - src) = unat dst - unat src" using lt unat_diff_u32 [of dst src] by simp
    ultimately show ?thesis by linarith
  next
    case F: False
    show ?thesis
    proof (cases "dst = src")
      case False
      then have "unat dst < unat src" using F by (simp add: word_less_nat_alt not_less word_unat_eq_iff)
      then have "unat (dst - src) = unat dst + 2 ^ 32 - unat src" using unat_diff_u32 [of dst src] by simp
      then show ?thesis using assms by linarith
    qed simp
  qed
  moreover have "memmove m dst src n = copy_up m dst src (unat n)"
    using False by (auto simp: memmove_def)
  ultimately show ?thesis
    using copy_up_apply [of "unat n" dst src m x] unsigned_less [of n, where ?'a = nat]
    by (simp add: word_less_nat_alt)
qed

theorem memmove_copies_witness:
  "memmove (\<lambda>a. if a = 100 then 7 else if a = 101 then 8 else 0) 101 100 2 101 = 7
   \<and> memmove (\<lambda>a. if a = 100 then 7 else if a = 101 then 8 else 0) 101 100 2 102 = 8"
  using memmove_copies [of 100 2 101 "\<lambda>a. if a = 100 then 7 else if a = 101 then 8 else 0" 101]
    memmove_copies [of 100 2 101 "\<lambda>a. if a = 100 then 7 else if a = 101 then 8 else 0" 102]
  by simp

lemma store32_const:
  assumes "ucast w = b" "ucast (drop_bit 8 w) = b" "ucast (drop_bit 16 w) = b" "ucast (drop_bit 24 w) = b"
  shows "store32 m a w = stosb m a b 4"
proof -
  have "stosb m a b 4 = m(a := b, a + 1 := b, a + 2 := b, a + 3 := b)"
    by (simp add: numeral_eq_Suc add.commute)
  then show ?thesis unfolding store32_def assms by simp
qed

lemma stosb_add: "stosb m a b (k + n) = stosb (stosb m a b k) (a + of_nat k) b n"
  by (induction k arbitrary: m a) (simp_all add: algebra_simps)

lemma stosl_const:
  assumes "ucast w = b" "ucast (drop_bit 8 w) = b" "ucast (drop_bit 16 w) = b" "ucast (drop_bit 24 w) = b"
  shows "stosl m a w n = stosb m a b (4 * n)"
proof (induction n arbitrary: m a)
  case (Suc n)
  have "stosb m a b (4 + 4 * n) = stosb (stosb m a b 4) (a + 4) b (4 * n)"
    using stosb_add [of m a b 4 "4 * n"] by simp
  then show ?case using Suc store32_const [OF assms, of m a] by simp
qed simp

lemma and_ff: "(c :: u32) AND 0xFF = take_bit 8 c"
  by (simp add: take_bit_eq_mask mask_eq_exp_minus_1)

lemma memset_word_bytes:
  fixes c :: u32
  defines "w \<equiv> push_bit 24 (c AND 0xFF) OR push_bit 16 (c AND 0xFF) OR push_bit 8 (c AND 0xFF) OR (c AND 0xFF)"
  shows "(ucast w :: u8) = ucast c" "(ucast (drop_bit 8 w) :: u8) = ucast c"
    "(ucast (drop_bit 16 w) :: u8) = ucast c" "(ucast (drop_bit 24 w) :: u8) = ucast c"
  unfolding w_def and_ff by (rule bit_word_eqI; auto simp: bit_simps)+

lemma memset_eq_stosb: "memset m dst c n = stosb m dst (ucast c) (unat n)"
proof (cases "unat dst mod 4 = 0 \<and> unat n mod 4 = 0")
  case True
  then have "4 * (unat n div 4) = unat n" by (metis add.right_neutral mult_div_mod_eq)
  then show ?thesis using True stosl_const [OF memset_word_bytes, of m dst c "unat n div 4"]
    by (simp add: memset_def Let_def)
qed (auto simp: memset_def)

lemma memset_apply: "memset m dst c n x = (if x - dst < n then ucast c else m x)"
  using stosb_apply [of "unat n" m dst "ucast c" x] unsigned_less [of n, where ?'a = nat]
  by (simp add: memset_eq_stosb word_less_nat_alt)

text \<open>
  C15. \<^verbatim>\<open>memset\<close> stores the low byte of its argument in exactly the \<^verbatim>\<open>n\<close> bytes from
  \<^verbatim>\<open>dst\<close>: the word-wise fast path for aligned blocks and the byte loop do the same.
\<close>

theorem memset_fills: "memset m dst c n x = (if x - dst < n then ucast c else m x)"
  by (rule memset_apply)

section \<open>C strings\<close>

text \<open>The string in the array of \<open>n\<close> bytes at \<open>p\<close>: everything before the first NUL.\<close>

primrec cstr :: "memory \<Rightarrow> u32 \<Rightarrow> nat \<Rightarrow> u8 list" where
  "cstr m p 0 = []"
| "cstr m p (Suc n) = (if m p = 0 then [] else m p # cstr m (p + 1) n)"

lemma strncmp_n_0_iff: "strncmp_n m p q n = 0 \<longleftrightarrow> cstr m p n = cstr m q n"
  by (induction n arbitrary: p q) (auto simp: word_uint_eq_iff)

text \<open>
  C13. \<^verbatim>\<open>strncmp\<close> answers 0 exactly when the two strings, cut off at \<^verbatim>\<open>n\<close> bytes, are equal.
\<close>

theorem strncmp_equal: "strncmp m p q n = 0 \<longleftrightarrow> cstr m p (unat n) = cstr m q (unat n)"
  by (simp add: strncmp_def strncmp_n_0_iff)

lemma cstr_cong: "(\<And>i. i < n \<Longrightarrow> m (p + of_nat i) = m' (p + of_nat i)) \<Longrightarrow> cstr m p n = cstr m' p n"
proof (induction n arbitrary: p)
  case (Suc n)
  have "m p = m' p" using Suc.prems [of 0] by simp
  moreover have "cstr m (p + 1) n = cstr m' (p + 1) n"
    using Suc.prems by (intro Suc.IH) (metis Suc_less_eq add.assoc of_nat_Suc)
  ultimately show ?case by simp
qed simp

lemma outside_block: "i < n \<Longrightarrow> n \<le> 2 ^ 32 \<Longrightarrow> unat (of_nat i :: u32) = i"
  by (simp add: unat_of_nat)

lemma safestrcpy_n_frame:
  "n < 2 ^ 32 - 1 \<Longrightarrow> n < unat (x - s) \<Longrightarrow> safestrcpy_n m s t n x = m x"
proof (induction n arbitrary: m s t)
  case (Suc n)
  then have ne: "x \<noteq> s" by auto
  have d: "unat (x - (s + 1)) = unat (x - s) - 1" using diff_step [OF ne] by simp
  then have "x \<noteq> s + 1" using Suc.prems by auto
  moreover have "safestrcpy_n (m(s := m t)) (s + 1) (t + 1) n x = (m(s := m t)) x"
    using Suc d by (intro Suc.IH) auto
  ultimately show ?case using ne by (simp add: Let_def)
qed auto

lemma safestrcpy_n_cstr:
  assumes "n < 2 ^ 32 - 1" "n < unat (t - s)" "n < unat (s - t)"
  shows "cstr (safestrcpy_n m s t n) s (Suc n) = cstr m t n"
  using assms
proof (induction n arbitrary: m s t)
  case (Suc n)
  let ?m = "m(s := m t)"
  have ne: "s \<noteq> t" using Suc.prems by auto
  have keep: "unat (s - (s + 1)) = 2 ^ 32 - 1" by (rule diff_self_step)
  have s: "safestrcpy_n ?m (s + 1) (t + 1) n s = m t"
    using safestrcpy_n_frame [of n s "s + 1" ?m "t + 1"] Suc.prems keep by simp
  have t: "cstr ?m (t + 1) n = cstr m (t + 1) n"
  proof (rule cstr_cong)
    fix i assume i: "i < n"
    have "t + 1 + of_nat i \<noteq> s"
    proof
      assume "t + 1 + of_nat i = s"
      then have "s - t = of_nat (Suc i)" by (simp add: algebra_simps)
      then have "unat (s - t) = Suc i" using i Suc.prems outside_block [of "Suc i" "2 ^ 32"] by simp
      then show False using i Suc.prems by simp
    qed
    then show "?m (t + 1 + of_nat i) = m (t + 1 + of_nat i)" by simp
  qed
  have "cstr (safestrcpy_n ?m (s + 1) (t + 1) n) (s + 1) (Suc n) = cstr ?m (t + 1) n"
    using Suc.prems by (intro Suc.IH) auto
  then show ?case using s t by (simp add: Let_def)
qed simp

text \<open>
  C14. \<^verbatim>\<open>safestrcpy\<close> into a buffer of \<^verbatim>\<open>n > 0\<close> bytes that does not overlap the source: the
  buffer holds the source string cut off at \<^verbatim>\<open>n - 1\<close> bytes, with its terminator inside the
  buffer, and no byte outside the buffer changes.
\<close>

theorem safestrcpy_terminates:
  assumes "0 < n" "n < 2 ^ 32" "nat n \<le> unat (t - s)" "nat n \<le> unat (s - t)"
  shows "cstr (safestrcpy m s t n) s (nat n) = cstr m t (nat n - 1)
     \<and> (\<forall>x. nat n \<le> unat (x - s) \<longrightarrow> safestrcpy m s t n x = m x)"
proof -
  obtain k where k: "nat n = Suc k" using assms(1) by (cases "nat n") auto
  then have lt: "k < 2 ^ 32 - 1" using assms(2) by simp
  have "cstr (safestrcpy_n m s t k) s (Suc k) = cstr m t k"
    using lt assms k by (intro safestrcpy_n_cstr) auto
  moreover have "safestrcpy_n m s t k x = m x" if "nat n \<le> unat (x - s)" for x
    using safestrcpy_n_frame [OF lt, of x s m t] that k by simp
  ultimately show ?thesis using k assms(1) by (simp add: safestrcpy_def)
qed

theorem safestrcpy_terminates_witness:
  "cstr (safestrcpy (\<lambda>a. if a = 200 then 104 else if a = 201 then 105 else if a = 202 then 33 else 0) 100 200 3) 100 3
     = [104, 105]"
proof -
  let ?m = "\<lambda>a::u32. if a = 200 then 104 else if a = 201 then 105 else if a = 202 then 33 else 0 :: u8"
  have "cstr ?m 200 (Suc (Suc 0)) = [104, 105]" by simp
  then have "cstr ?m 200 2 = [104, 105]" by (simp add: numeral_2_eq_2)
  moreover have "(0::int) < 3" "(3::int) < 2 ^ 32" "nat 3 \<le> unat (200 - 100 :: u32)" "nat 3 \<le> unat (100 - 200 :: u32)"
    by simp_all
  note safestrcpy_terminates [OF this, of ?m]
  ultimately show ?thesis by simp
qed

lemma strlen_fuel_correct:
  "(\<exists>i<fuel. m (s + of_nat (n + i)) = 0) \<Longrightarrow>
   \<exists>k. strlen_fuel fuel m s n = Some k \<and> n \<le> k \<and> m (s + of_nat k) = 0 \<and> (\<forall>j. n \<le> j \<and> j < k \<longrightarrow> m (s + of_nat j) \<noteq> 0)"
proof (induction fuel arbitrary: n)
  case (Suc fuel)
  show ?case
  proof (cases "m (s + of_nat n) = 0")
    case False
    from Suc.prems obtain i where i: "i < Suc fuel" "m (s + of_nat (n + i)) = 0" by blast
    with False obtain j where "i = Suc j" by (cases i) auto
    with i have "\<exists>j<fuel. m (s + of_nat (Suc n + j)) = 0" by auto
    from Suc.IH [OF this] False show ?thesis
      by (auto simp: Suc_le_eq) (metis le_neq_implies_less)
  qed auto
qed simp

end
