(* ===== verification/Kalloc.thy ===== *)
theory Kalloc
  imports Console_Out Kstring Resource_Spec
begin

text \<open>
  \<^verbatim>\<open>kalloc.c\<close>: the allocator of 4096-byte physical pages. The free list is threaded
  through the free pages themselves (\<^verbatim>\<open>struct run\<close>), so it lives in the byte memory \<open>mem\<close>,
  which is indexed by kernel virtual address. \<open>kend\<close> is the linker symbol \<^verbatim>\<open>end\<close>.
\<close>

section \<open>State and address arithmetic\<close>

record kmem = console +
  mem :: memory
  kend :: u32
  use_lock :: bool
  freelist :: u32

definition PGSIZE :: u32 where "PGSIZE = 4096"
definition PHYSTOP :: u32 where "PHYSTOP = 0xE000000"
definition EXTMEM :: u32 where "EXTMEM = 0x100000"
definition DEVSPACE :: u32 where "DEVSPACE = 0xFE000000"
definition KERNLINK :: u32 where "KERNLINK = KERNBASE + EXTMEM"

definition V2P :: "u32 \<Rightarrow> u32" where "V2P a = a - KERNBASE"
definition P2V :: "u32 \<Rightarrow> u32" where "P2V a = a + KERNBASE"

definition PGROUNDUP :: "u32 \<Rightarrow> u32" where
  "PGROUNDUP sz = (sz + PGSIZE - 1) AND NOT (PGSIZE - 1)"

definition PGROUNDDOWN :: "u32 \<Rightarrow> u32" where
  "PGROUNDDOWN a = a AND NOT (PGSIZE - 1)"

section \<open>Operations\<close>

definition kmem_acquire :: "'a kmem_scheme \<Rightarrow> 'a kmem_scheme res" where
  "kmem_acquire s = (if use_lock s then acquire KMEM_LOCK s else Ok s)"

definition kmem_release :: "'a kmem_scheme \<Rightarrow> 'a kmem_scheme res" where
  "kmem_release s = (if use_lock s then release KMEM_LOCK s else Ok s)"

definition kfree :: "u32 \<Rightarrow> 'a kmem_scheme \<Rightarrow> 'a kmem_scheme res" where
  "kfree v s =
     (if v mod PGSIZE \<noteq> 0 \<or> v < kend s \<or> V2P v \<ge> PHYSTOP then Panic ''kfree''
      else
        let s = s\<lparr>mem := memset (mem s) v 1 PGSIZE\<rparr> in
        andThen (kmem_acquire s) (\<lambda>s.
        let s = s\<lparr>mem := store32 (mem s) v (freelist s), freelist := v\<rparr> in
        kmem_release s))"

definition kalloc :: "'a kmem_scheme \<Rightarrow> (u32 \<times> 'a kmem_scheme) res" where
  "kalloc s =
     andThen (kmem_acquire s) (\<lambda>s.
     let r = freelist s;
         s = (if r \<noteq> 0 then s\<lparr>freelist := load32 (mem s) r\<rparr> else s) in
     andThen (kmem_release s) (\<lambda>s. Ok (r, s)))"

text \<open>
  \<^verbatim>\<open>freerange\<close> steps through the address space one page at a time; there are \<open>2^20\<close> pages,
  so that much fuel is enough for every range (\<open>Hangs\<close> is running out of it).
\<close>

fun freerange_from :: "nat \<Rightarrow> u32 \<Rightarrow> u32 \<Rightarrow> 'a kmem_scheme \<Rightarrow> 'a kmem_scheme res" where
  "freerange_from 0 p vend s = Hangs"
| "freerange_from (Suc fuel) p vend s =
     (if p + PGSIZE \<le> vend then andThen (kfree p s) (freerange_from fuel (p + PGSIZE) vend)
      else Ok s)"

definition freerange :: "u32 \<Rightarrow> u32 \<Rightarrow> 'a kmem_scheme \<Rightarrow> 'a kmem_scheme res" where
  "freerange vstart vend s = freerange_from (2 ^ 20 + 1) (PGROUNDUP vstart) vend s"

definition kinit1 :: "u32 \<Rightarrow> u32 \<Rightarrow> 'a kmem_scheme \<Rightarrow> 'a kmem_scheme res" where
  "kinit1 vstart vend s =
     (let s = initlock KMEM_LOCK s; s = s\<lparr>use_lock := False\<rparr> in freerange vstart vend s)"

definition kinit2 :: "u32 \<Rightarrow> u32 \<Rightarrow> 'a kmem_scheme \<Rightarrow> 'a kmem_scheme res" where
  "kinit2 vstart vend s =
     andThen (freerange vstart vend s) (\<lambda>s. Ok (s\<lparr>use_lock := True\<rparr>))"

section \<open>The free list\<close>

text \<open>The pages on the list, most recently freed first.\<close>

primrec fl_chain :: "memory \<Rightarrow> u32 \<Rightarrow> u32 list \<Rightarrow> bool" where
  "fl_chain m p [] = (p = 0)"
| "fl_chain m p (a # as) = (p = a \<and> a \<noteq> 0 \<and> fl_chain m (load32 m a) as)"

definition page_ok :: "'a kmem_scheme \<Rightarrow> u32 \<Rightarrow> bool" where
  "page_ok s v \<longleftrightarrow> v mod PGSIZE = 0 \<and> kend s \<le> v \<and> V2P v < PHYSTOP"

definition free_pages :: "'a kmem_scheme \<Rightarrow> u32 list \<Rightarrow> bool" where
  "free_pages s ps \<longleftrightarrow> fl_chain (mem s) (freelist s) ps \<and> distinct ps \<and> (\<forall>a\<in>set ps. page_ok s a)"

definition kmem_ready :: "'a kmem_scheme \<Rightarrow> bool" where
  "kmem_ready s \<longleftrightarrow> wf_cpu s \<and> KERNBASE \<le> kend s \<and> (use_lock s \<longrightarrow> \<not> held s KMEM_LOCK)"

definition kmem_cpu :: "'a kmem_scheme \<Rightarrow> cpu" where
  "kmem_cpu s = (if use_lock s then cpu_settle (fl_if s) (thiscpu s) else thiscpu s)"

lemma kalloc_eq:
  assumes "kmem_ready s"
  shows "kalloc s = Ok (freelist s,
     s\<lparr>freelist := (if freelist s \<noteq> 0 then load32 (mem s) (freelist s) else 0), thiscpu := kmem_cpu s\<rparr>)"
  using assms
  by (auto simp: kalloc_def kmem_acquire_def kmem_release_def kmem_ready_def kmem_cpu_def
      acquire_eq release_eq wf_cpu_def Let_def)

lemma kfree_eq:
  assumes "kmem_ready s"
  shows "kfree v s = (if page_ok s v
     then Ok (s\<lparr>mem := store32 (memset (mem s) v 1 PGSIZE) v (freelist s), freelist := v, thiscpu := kmem_cpu s\<rparr>)
     else Panic ''kfree'')"
  using assms
  by (auto simp: kfree_def kmem_acquire_def kmem_release_def kmem_ready_def kmem_cpu_def page_ok_def
      acquire_eq release_eq wf_cpu_def Let_def not_le not_less)

lemma page_ok_aligned: "page_ok s v \<Longrightarrow> 4096 dvd unat v"
  by (simp add: page_ok_def PGSIZE_def word_unat_eq_iff unat_mod_distrib mod_eq_0_iff_dvd)

lemma page_ok_nonzero:
  assumes "KERNBASE \<le> kend s" "page_ok s v"
  shows "v \<noteq> 0"
  using assms by (auto simp: page_ok_def KERNBASE_def)

lemma page_outside:
  assumes "4096 dvd unat (a::u32)" "4096 dvd unat v" "a \<noteq> v" "unat i < 4096"
  shows "\<not> a + i - v < 4096"
proof -
  have 1: "4096 \<le> unat (a - v)" and 2: "4096 \<le> unat (v - a)"
    using assms by (auto intro: aligned_apart)
  have "unat (v - a) = 2 ^ 32 - unat (a - v)"
    using 1 unat_minus_u32 [of "a - v"] by (auto simp: word_unat_eq_iff)
  then have "unat (a - v) + unat i < 2 ^ 32" using 2 assms(4) by simp
  then have "unat ((a - v) + i) = unat (a - v) + unat i" by (simp add: unat_word_ariths)
  then have "\<not> (a - v) + i < 4096" using 1 by (simp add: word_less_nat_alt del: add_uminus_conv_diff)
  moreover have "a + i - v = (a - v) + i" by simp
  ultimately show ?thesis by metis
qed

lemma load32_memset_other:
  assumes "4096 dvd unat (a::u32)" "4096 dvd unat v" "a \<noteq> v"
  shows "load32 (memset m v c 4096) a = load32 m a"
  using page_outside [OF assms, of 0] page_outside [OF assms, of 1]
    page_outside [OF assms, of 2] page_outside [OF assms, of 3]
  by (intro load32_cong) (simp_all add: memset_apply)

lemma page4: "4096 dvd (n::nat) \<Longrightarrow> 4 dvd n"
  by (rule dvd_trans [of _ 4096]) simp_all

lemma load32_kfree_other:
  assumes "4096 dvd unat (a::u32)" "4096 dvd unat v" "a \<noteq> v"
  shows "load32 (store32 (memset m v c 4096) v x) a = load32 m a"
  using assms aligned4_apart [of a v] aligned4_apart [of v a] page4
  by (simp add: load32_store32_other load32_memset_other)

lemma fl_chain_cong:
  "(\<And>a. a \<in> set ps \<Longrightarrow> load32 m' a = load32 m a) \<Longrightarrow> fl_chain m' p ps = fl_chain m p ps"
  by (induction ps arbitrary: p) simp_all

lemma fl_chain_unique: "fl_chain m p ps \<Longrightarrow> fl_chain m p qs \<Longrightarrow> ps = qs"
  by (induction ps arbitrary: p qs) (case_tac qs, auto)+

lemma free_pages_unique: "free_pages s ps \<Longrightarrow> free_pages s qs \<Longrightarrow> ps = qs"
  unfolding free_pages_def by (blast intro: fl_chain_unique)

lemma page_ok_cong [simp]:
  "page_ok (s\<lparr>mem := m\<rparr>) = page_ok s" "page_ok (s\<lparr>freelist := f\<rparr>) = page_ok s"
  "page_ok (s\<lparr>thiscpu := c\<rparr>) = page_ok s" "page_ok (s\<lparr>use_lock := u\<rparr>) = page_ok s"
  "page_ok (s\<lparr>held := h\<rparr>) = page_ok s"
  by (simp_all add: page_ok_def fun_eq_iff)

lemma kfree_pages:
  assumes "kmem_ready s" "free_pages s ps" "page_ok s v" "v \<notin> set ps"
  obtains s' where "kfree v s = Ok s'" "free_pages s' (v # ps)" "kmem_ready s'"
    "page_ok s' = page_ok s"
    "s' = s\<lparr>mem := store32 (memset (mem s) v 1 PGSIZE) v (freelist s), freelist := v, thiscpu := kmem_cpu s\<rparr>"
proof -
  let ?s = "s\<lparr>mem := store32 (memset (mem s) v 1 PGSIZE) v (freelist s), freelist := v, thiscpu := kmem_cpu s\<rparr>"
  have "fl_chain (store32 (memset (mem s) v 1 PGSIZE) v (freelist s)) (freelist s) ps
      = fl_chain (mem s) (freelist s) ps"
    unfolding PGSIZE_def using assms
    by (intro fl_chain_cong load32_kfree_other)
      (auto simp: free_pages_def intro: page_ok_aligned)
  then have "free_pages ?s (v # ps)"
    using assms page_ok_nonzero [of s v] by (simp add: free_pages_def kmem_ready_def)
  moreover have "kmem_ready ?s" using assms(1)
    by (simp add: kmem_ready_def wf_cpu_def kmem_cpu_def)
  ultimately show thesis using that assms(1,3) by (simp add: kfree_eq)
qed

lemma kalloc_pages:
  assumes "kmem_ready s" "free_pages s ps"
  obtains s' where "kalloc s = Ok (case ps of [] \<Rightarrow> 0 | a # _ \<Rightarrow> a, s')" "free_pages s' (tl ps)"
    "kmem_ready s'" "page_ok s' = page_ok s" "mem s' = mem s"
proof -
  let ?s = "s\<lparr>freelist := (if freelist s \<noteq> 0 then load32 (mem s) (freelist s) else 0), thiscpu := kmem_cpu s\<rparr>"
  have "freelist s = (case ps of [] \<Rightarrow> 0 | a # _ \<Rightarrow> a)" and "free_pages ?s (tl ps)"
    using assms(2) by (cases ps; auto simp: free_pages_def)+
  moreover have "kmem_ready ?s" using assms(1)
    by (simp add: kmem_ready_def wf_cpu_def kmem_cpu_def)
  ultimately show thesis using that assms(1) by (simp add: kalloc_eq)
qed

section \<open>The allocator contract\<close>

definition page_pool :: "'a kmem_scheme \<Rightarrow> u32 set \<Rightarrow> bool" where
  "page_pool s P \<longleftrightarrow> kmem_ready s \<and> (\<exists>ps. free_pages s ps \<and> P = set ps)"

interpretation pages: allocator kalloc kfree page_pool page_ok
proof
  fix s :: "'a kmem_scheme" and P
  assume "page_pool s P" "P \<noteq> {}"
  then obtain ps where ps: "kmem_ready s" "free_pages s ps" "P = set ps" "ps \<noteq> []"
    by (auto simp: page_pool_def)
  from kalloc_pages [OF ps(1,2)] obtain s' where
    "kalloc s = Ok (case ps of [] \<Rightarrow> 0 | a # _ \<Rightarrow> a, s')" "free_pages s' (tl ps)" "kmem_ready s'"
    "page_ok s' = page_ok s" by metis
  moreover have "distinct ps" using ps by (simp add: free_pages_def)
  ultimately show "\<exists>p s'. kalloc s = Ok (p, s') \<and> p \<in> P \<and> page_pool s' (P - {p}) \<and> page_ok s' = page_ok s"
    using ps by (cases ps) (auto simp: page_pool_def)
next
  fix s :: "'a kmem_scheme" and P p
  assume "page_pool s P" "page_ok s p" "p \<notin> P"
  then obtain ps where ps: "kmem_ready s" "free_pages s ps" "P = set ps" "p \<notin> set ps"
    by (auto simp: page_pool_def)
  from kfree_pages [OF ps(1,2) \<open>page_ok s p\<close> ps(4)] obtain s' where
    "kfree p s = Ok s'" "free_pages s' (p # ps)" "kmem_ready s'" "page_ok s' = page_ok s" by metis
  then show "\<exists>s'. kfree p s = Ok s' \<and> page_pool s' (insert p P) \<and> page_ok s' = page_ok s"
    using ps by (auto simp: page_pool_def)
qed (auto simp: page_pool_def free_pages_def)

lemma kalloc_same_locks: "wf_cpu s \<Longrightarrow> kmem_ready s \<Longrightarrow> kalloc s = Ok (x, s') \<Longrightarrow> same_locks s s'"
  by (auto simp: kalloc_eq same_locks_def kmem_cpu_def cpu_settle_def split: if_splits)

interpretation kalloc_ln: lock_neutral kmem_ready kalloc
  by unfold_locales (rule kalloc_same_locks)

section \<open>Filling the list at boot\<close>

definition range_pages :: "u32 \<Rightarrow> nat \<Rightarrow> u32 list" where
  "range_pages p n = map (\<lambda>i. p + of_nat i * PGSIZE) [0..<n]"

lemma range_pages_0 [simp]: "range_pages p 0 = []"
  by (simp add: range_pages_def)

lemma range_pages_Suc: "range_pages p (Suc n) = p # range_pages (p + PGSIZE) n"
  by (simp add: range_pages_def upt_conv_Cons map_Suc_upt [symmetric] algebra_simps
      del: upt_Suc)

lemma freerange_from_pages:
  assumes "kmem_ready s" "free_pages s ps" "distinct (range_pages p n)"
    "set (range_pages p n) \<inter> set ps = {}" "\<forall>a\<in>set (range_pages p n). page_ok s a"
    "\<forall>i<n. p + of_nat (Suc i) * PGSIZE \<le> vend" "\<not> p + of_nat (Suc n) * PGSIZE \<le> vend" "n < fuel"
  shows "\<exists>s'. freerange_from fuel p vend s = Ok s' \<and> kmem_ready s'
    \<and> free_pages s' (rev (range_pages p n) @ ps)
    \<and> use_lock s' = use_lock s \<and> kend s' = kend s \<and> held s' = held s"
  using assms
proof (induction n arbitrary: p s ps fuel)
  case 0
  then show ?case by (cases fuel) auto
next
  case (Suc n)
  obtain f where f: "fuel = Suc f" "n < f" using Suc.prems(8) by (cases fuel) auto
  note pr = Suc.prems [unfolded range_pages_Suc]
  obtain s1 where s1: "kfree p s = Ok s1" "free_pages s1 (p # ps)" "kmem_ready s1"
      "page_ok s1 = page_ok s"
      "s1 = s\<lparr>mem := store32 (memset (mem s) p 1 PGSIZE) p (freelist s), freelist := p, thiscpu := kmem_cpu s\<rparr>"
    using pr by (auto elim: kfree_pages [of s ps p])
  have u: "use_lock s1 = use_lock s" "kend s1 = kend s" "held s1 = held s" using s1(5) by simp_all
  have b: "\<forall>i<n. p + PGSIZE + of_nat (Suc i) * PGSIZE \<le> vend"
  proof (intro allI impI)
    fix i assume "i < n"
    then have "p + of_nat (Suc (Suc i)) * PGSIZE \<le> vend" using pr(6) by blast
    then show "p + PGSIZE + of_nat (Suc i) * PGSIZE \<le> vend" by (simp add: algebra_simps)
  qed
  have e: "\<not> p + PGSIZE + of_nat (Suc n) * PGSIZE \<le> vend"
    using pr(7) by (simp add: algebra_simps)
  have g: "p + PGSIZE \<le> vend" using pr(6) by (auto dest!: spec [of _ 0])
  obtain s' where "freerange_from f (p + PGSIZE) vend s1 = Ok s'" "kmem_ready s'"
      "free_pages s' (rev (range_pages (p + PGSIZE) n) @ p # ps)"
      "use_lock s' = use_lock s" "kend s' = kend s" "held s' = held s"
    using Suc.IH [OF s1(3,2) _ _ _ b e f(2)] pr(3-5) u s1(4) by auto
  then show ?case using f g s1(1) by (simp add: range_pages_Suc)
qed

lemma unat_PGROUNDDOWN: "unat (PGROUNDDOWN a) = unat a div 4096 * 4096"
proof -
  have "PGROUNDDOWN a = push_bit 12 (drop_bit 12 a)"
    by (rule bit_word_eqI)
      (auto simp: PGROUNDDOWN_def PGSIZE_def bit_simps mask_eq_exp_minus_1 [of 12, where ?'a = u32, simplified, symmetric])
  then have "unat (PGROUNDDOWN a) = unat a div 4096 * 4096 mod 2 ^ 32"
    by (simp add: push_bit_eq_mult drop_bit_eq_div unat_word_ariths unat_div mod_mult_left_eq)
  moreover have "unat a div 4096 * 4096 \<le> unat a" by simp
  then have "unat a div 4096 * 4096 < 2 ^ 32" using unsigned_less [of a, where ?'a = nat] by simp
  ultimately show ?thesis by simp
qed

lemma unat_PGROUNDUP:
  assumes "unat a + 4095 < 2 ^ 32"
  shows "unat (PGROUNDUP a) = (unat a + 4095) div 4096 * 4096"
proof -
  have "PGROUNDUP a = PGROUNDDOWN (a + 4095)"
    by (simp add: PGROUNDUP_def PGROUNDDOWN_def PGSIZE_def add.commute)
  moreover have "unat (a + 4095) = unat a + 4095"
    using assms by (simp add: unat_word_ariths)
  ultimately show ?thesis by (simp add: unat_PGROUNDDOWN)
qed

definition range_set :: "u32 \<Rightarrow> u32 \<Rightarrow> u32 set" where
  "range_set vstart vend =
     {a. 4096 dvd unat a \<and> unat vstart \<le> unat a \<and> unat a + 4096 \<le> unat vend}"

lemma unat_range_page:
  assumes "unat p + i * 4096 < 2 ^ 32"
  shows "unat (p + of_nat i * PGSIZE) = unat p + i * 4096"
proof -
  have "p + of_nat i * PGSIZE = of_nat (unat p + i * 4096)" by (simp add: PGSIZE_def)
  then show ?thesis using assms by (simp only: unat_of_nat) simp
qed

definition range_count :: "u32 \<Rightarrow> u32 \<Rightarrow> nat" where
  "range_count vstart vend = (unat vend - unat (PGROUNDUP vstart)) div 4096"

lemma aligned_range_nat:
  assumes "4096 dvd (p::nat)" "vs \<le> p" "p < vs + 4096"
  shows "4096 dvd a \<and> vs \<le> a \<and> a + 4096 \<le> ve \<longleftrightarrow> (\<exists>i < (ve - p) div 4096. a = p + i * (4096::nat))"
proof
  assume a: "4096 dvd a \<and> vs \<le> a \<and> a + 4096 \<le> ve"
  have "p \<le> a"
  proof (rule ccontr)
    assume "\<not> p \<le> a"
    moreover have "4096 dvd p - a" using assms(1) a by (simp add: dvd_diff_nat)
    ultimately have "4096 \<le> p - a" by (simp add: dvd_imp_le)
    then show False using assms(2,3) a by linarith
  qed
  moreover have "4096 dvd a - p" using assms(1) a by (simp add: dvd_diff_nat)
  then obtain k where k: "a - p = 4096 * k" by auto
  ultimately have "a = p + k * 4096" by simp
  moreover have "Suc k * 4096 \<le> ve - p" using a calculation by auto
  then have "Suc k \<le> (ve - p) div 4096" by (simp add: less_eq_div_iff_mult_less_eq)
  ultimately show "\<exists>i < (ve - p) div 4096. a = p + i * 4096" by auto
next
  assume "\<exists>i < (ve - p) div 4096. a = p + i * 4096"
  then obtain i where i: "Suc i \<le> (ve - p) div 4096" "a = p + i * 4096" by auto
  then have "Suc i * 4096 \<le> ve - p" by (simp add: less_eq_div_iff_mult_less_eq)
  then show "4096 dvd a \<and> vs \<le> a \<and> a + 4096 \<le> ve" using i assms by auto
qed

lemma PGROUNDUP_ceil:
  assumes "unat a + 4095 < 2 ^ 32"
  shows "4096 dvd unat (PGROUNDUP a)" "unat a \<le> unat (PGROUNDUP a)" "unat (PGROUNDUP a) < unat a + 4096"
proof -
  have "(unat a + 4095) div 4096 * 4096 + (unat a + 4095) mod 4096 = unat a + 4095"
    by (rule div_mult_mod_eq)
  moreover have "(unat a + 4095) mod 4096 < 4096" by simp
  ultimately show "unat a \<le> unat (PGROUNDUP a)" "unat (PGROUNDUP a) < unat a + 4096"
    unfolding unat_PGROUNDUP [OF assms] by linarith+
qed (simp add: unat_PGROUNDUP [OF assms])

lemma range_page_bound:
  assumes "unat vend + 8192 < 2 ^ 32" "unat p \<le> unat vend + 4095" "i \<le> (unat vend - unat p) div 4096"
  shows "i * 4096 \<le> unat vend - unat p" "unat p + Suc i * 4096 < 2 ^ 32"
    "unat (p + of_nat i * PGSIZE) = unat p + i * 4096"
    "unat (p + of_nat (Suc i) * PGSIZE) = unat p + Suc i * 4096"
proof -
  show "i * 4096 \<le> unat vend - unat p"
    using assms(3) by (simp add: less_eq_div_iff_mult_less_eq)
  then show *: "unat p + Suc i * 4096 < 2 ^ 32" using assms(1,2) by simp
  show "unat (p + of_nat i * PGSIZE) = unat p + i * 4096"
    "unat (p + of_nat (Suc i) * PGSIZE) = unat p + Suc i * 4096"
    using * by (intro unat_range_page; simp)+
qed

lemma range_pages_set:
  assumes v: "unat vend + 8192 < 2 ^ 32" "unat vstart \<le> unat vend"
  defines "p \<equiv> PGROUNDUP vstart"
  defines "n \<equiv> range_count vstart vend"
  shows "set (range_pages p n) = range_set vstart vend"
    and "distinct (range_pages p n)"
    and "\<forall>i<n. p + of_nat (Suc i) * PGSIZE \<le> vend"
    and "\<not> p + of_nat (Suc n) * PGSIZE \<le> vend"
    and "n < 2 ^ 20 + 1"
proof -
  have p: "4096 dvd unat p" "unat vstart \<le> unat p" "unat p < unat vstart + 4096"
    using PGROUNDUP_ceil [of vstart] v by (simp_all add: p_def)
  have n: "n = (unat vend - unat p) div 4096" by (simp add: n_def p_def range_count_def)
  have pv: "unat p \<le> unat vend + 4095" using p v by simp
  note b = range_page_bound [OF v(1) pv, folded n]
  show "distinct (range_pages p n)"
    by (auto simp: range_pages_def distinct_map inj_on_def word_unat_eq_iff b(3))
  show "set (range_pages p n) = range_set vstart vend"
  proof (intro set_eqI)
    fix a :: u32
    have "a \<in> set (range_pages p n) \<longleftrightarrow> (\<exists>i<n. unat a = unat p + i * 4096)"
      by (auto simp: range_pages_def image_iff Bex_def word_unat_eq_iff b(3))
    also have "\<dots> \<longleftrightarrow> a \<in> range_set vstart vend"
      using aligned_range_nat [OF p, of "unat a" "unat vend"] by (simp add: range_set_def n)
    finally show "a \<in> set (range_pages p n) \<longleftrightarrow> a \<in> range_set vstart vend" .
  qed
  show "\<forall>i<n. p + of_nat (Suc i) * PGSIZE \<le> vend"
  proof (intro allI impI)
    fix i assume i: "i < n"
    then have "Suc i * 4096 \<le> unat vend - unat p" by (intro b(1)) simp
    then show "p + of_nat (Suc i) * PGSIZE \<le> vend" using b(4) [of i] i by (simp add: word_le_nat_alt)
  qed
  have "unat vend - unat p < Suc n * 4096"
    unfolding n by (metis dividend_less_times_div lessI mult.commute mult_Suc_right zero_less_numeral)
  then show "\<not> p + of_nat (Suc n) * PGSIZE \<le> vend"
    using b(4) [of n] by (simp add: word_le_nat_alt)
  show "n < 2 ^ 20 + 1" using b(1) [of n] v(1) by simp
qed

lemma range_set_ok:
  assumes "KERNBASE \<le> kend s" "kend s \<le> vstart" "vend \<le> P2V PHYSTOP" "a \<in> range_set vstart vend"
  shows "page_ok s a"
proof -
  have le: "kend s \<le> a" "KERNBASE \<le> a" and lt: "unat a + 4096 \<le> unat (P2V PHYSTOP)"
    using assms by (auto simp: range_set_def word_le_nat_alt)
  have "unat (V2P a) = unat a - unat KERNBASE"
    using le by (simp add: V2P_def unat_diff_u32 word_le_nat_alt)
  then have "V2P a < PHYSTOP"
    using lt le by (simp add: word_less_nat_alt word_le_nat_alt P2V_def PHYSTOP_def KERNBASE_def)
  then show ?thesis using le assms(4)
    by (simp add: page_ok_def range_set_def PGSIZE_def word_unat_eq_iff unat_mod_distrib mod_eq_0_iff_dvd)
qed

lemma freerange_pool:
  assumes "page_pool s P" "kend s \<le> vstart" "vstart \<le> vend" "vend \<le> P2V PHYSTOP"
    "range_set vstart vend \<inter> P = {}"
  shows "\<exists>s'. freerange vstart vend s = Ok s' \<and> page_pool s' (range_set vstart vend \<union> P)
    \<and> use_lock s' = use_lock s \<and> kend s' = kend s \<and> held s' = held s"
proof -
  obtain ps where ps: "kmem_ready s" "free_pages s ps" "P = set ps"
    using assms(1) by (auto simp: page_pool_def)
  have k: "KERNBASE \<le> kend s" using ps(1) by (simp add: kmem_ready_def)
  have v: "unat vend + 8192 < 2 ^ 32" "unat vstart \<le> unat vend"
    using assms(3,4) by (simp_all add: word_le_nat_alt P2V_def PHYSTOP_def KERNBASE_def)
  note r = range_pages_set [OF v]
  have "\<forall>a\<in>set (range_pages (PGROUNDUP vstart) (range_count vstart vend)). page_ok s a"
    unfolding r(1) using range_set_ok [OF k assms(2,4)] by blast
  from freerange_from_pages [OF ps(1,2) r(2) _ this r(3,4,5)] assms(5)
  obtain s' where s': "freerange vstart vend s = Ok s'" "kmem_ready s'"
      "free_pages s' (rev (range_pages (PGROUNDUP vstart) (range_count vstart vend)) @ ps)"
      "use_lock s' = use_lock s" "kend s' = kend s" "held s' = held s"
    unfolding freerange_def r(1) ps(3) by auto
  then have "page_pool s' (set (rev (range_pages (PGROUNDUP vstart) (range_count vstart vend)) @ ps))"
    unfolding page_pool_def by blast
  then show ?thesis using s' by (auto simp: r(1) ps(3))
qed

lemma range_set_join:
  assumes "vstart \<le> mid" "mid \<le> vend" "4096 dvd unat mid"
  shows "range_set mid vend \<union> range_set vstart mid = range_set vstart vend"
    and "range_set mid vend \<inter> range_set vstart mid = {}"
proof -
  have "unat a + 4096 \<le> unat mid" if a: "4096 dvd unat a" "unat a < unat mid" for a :: u32
  proof -
    have "4096 dvd unat mid - unat a" using assms(3) a(1) by (simp add: dvd_diff_nat)
    then have "4096 \<le> unat mid - unat a" using a(2) by (simp add: dvd_imp_le)
    then show ?thesis by simp
  qed
  then show "range_set mid vend \<union> range_set vstart mid = range_set vstart vend"
    using assms(1,2) by (fastforce simp: range_set_def word_le_nat_alt not_le)
qed (auto simp: range_set_def)

section \<open>Properties\<close>

text \<open>
  C16. \<^verbatim>\<open>kalloc\<close> takes the most recently freed page off the in-memory list: it returns that page,
  the remaining pages stay on the list and do not include it, no memory byte is written, and
  it returns 0, changing nothing, exactly when the list is empty.
\<close>

theorem kalloc_pops:
  assumes "kmem_ready s" "free_pages s ps"
  shows "\<exists>s'. kalloc s = Ok (case ps of [] \<Rightarrow> 0 | a # _ \<Rightarrow> a, s') \<and> free_pages s' (tl ps)
    \<and> (ps \<noteq> [] \<longrightarrow> hd ps \<notin> set (tl ps) \<and> page_ok s (hd ps) \<and> hd ps \<noteq> 0)
    \<and> mem s' = mem s \<and> kmem_ready s'"
proof -
  obtain s' where "kalloc s = Ok (case ps of [] \<Rightarrow> 0 | a # _ \<Rightarrow> a, s')" "free_pages s' (tl ps)"
    "kmem_ready s'" "mem s' = mem s"
    using kalloc_pages [OF assms] by metis
  moreover have "ps \<noteq> [] \<longrightarrow> hd ps \<notin> set (tl ps) \<and> page_ok s (hd ps) \<and> hd ps \<noteq> 0"
    using assms by (cases ps) (auto simp: free_pages_def kmem_ready_def dest: page_ok_nonzero)
  ultimately show ?thesis by blast
qed

text \<open>A kernel that ends at \<open>0x80110000\<close> with one page on its free list.\<close>

definition kmem_example :: kmem where
  "kmem_example = \<lparr>thiscpu = boot_cpu, fl_if = True, held = (\<lambda>_. False),
     cons_locking = True, panicked = False, uart = True, uart_out = [], crt = (\<lambda>_. 0), crt_pos = 0,
     mem = (\<lambda>_. 0), kend = 0x80110000, use_lock = True, freelist = 0x80400000\<rparr>"

lemma kmem_example_ok [simp]:
  "kmem_ready kmem_example" "free_pages kmem_example [0x80400000]"
  by (simp_all add: kmem_ready_def wf_cpu_def kmem_example_def boot_cpu_def free_pages_def load32_def
      page_ok_def V2P_def KERNBASE_def PHYSTOP_def PGSIZE_def)

theorem kalloc_pops_witness:
  "\<exists>s'. kalloc kmem_example = Ok (0x80400000, s') \<and> free_pages s' []"
  using kalloc_pops [of kmem_example "[0x80400000]"] by auto

text \<open>
  C17. \<^verbatim>\<open>kfree\<close> panics on an address that is not a page of allocatable memory; on a page that is
  not free already it puts the page on the front of the list, changes no byte outside the
  page, and fills the page with the junk byte 1 except for the link in its first four bytes.
\<close>

theorem kfree_pushes:
  assumes "kmem_ready s" "free_pages s ps" "v \<notin> set ps"
  shows "(\<not> page_ok s v \<longrightarrow> kfree v s = Panic ''kfree'')
    \<and> (page_ok s v \<longrightarrow> (\<exists>s'. kfree v s = Ok s' \<and> free_pages s' (v # ps) \<and> kmem_ready s'
        \<and> (\<forall>x. mem s' x = (if x - v < 4 then mem s' x else if x - v < PGSIZE then 1 else mem s x))))"
proof (cases "page_ok s v")
  case True
  obtain s' where s': "kfree v s = Ok s'" "free_pages s' (v # ps)" "kmem_ready s'"
    "s' = s\<lparr>mem := store32 (memset (mem s) v 1 PGSIZE) v (freelist s), freelist := v, thiscpu := kmem_cpu s\<rparr>"
    using kfree_pages [OF assms(1,2) True assms(3)] by metis
  moreover have "mem s' x = (if x - v < PGSIZE then 1 else mem s x)" if "\<not> x - v < 4" for x
  proof -
    have "x \<noteq> v" "x \<noteq> v + 1" "x \<noteq> v + 2" "x \<noteq> v + 3" using that by auto
    then show ?thesis by (simp add: s'(4) store32_def memset_apply)
  qed
  ultimately show ?thesis using True by auto
qed (use assms in \<open>simp add: kfree_eq\<close>)

theorem kfree_pushes_witness:
  "\<exists>s'. kfree 0x80401000 kmem_example = Ok s' \<and> free_pages s' [0x80401000, 0x80400000]"
proof -
  have "page_ok kmem_example 0x80401000"
    by (simp add: page_ok_def kmem_example_def V2P_def KERNBASE_def PHYSTOP_def PGSIZE_def)
  then show ?thesis using kfree_pushes [of kmem_example "[0x80400000]" "0x80401000"] by auto
qed

text \<open>
  C10. Pages handed out by successive calls of \<^verbatim>\<open>kalloc\<close> are distinct and were free, as many can be
  taken as the pool has, and giving them back restores the pool.
\<close>

theorem kalloc_many_distinct:
  assumes "page_pool s P" "n \<le> card P"
  shows "\<exists>ps s1 s2. alloc_n kalloc n s = Ok (ps, s1) \<and> length ps = n \<and> distinct ps \<and> set ps \<subseteq> P
    \<and> page_pool s1 (P - set ps) \<and> free_all kfree ps s1 = Ok s2 \<and> page_pool s2 P"
proof -
  have "finite P" using assms(1) by (auto simp: page_pool_def)
  then show ?thesis
    using pages.alloc_n_ok [OF assms(1) _ assms(2)] pages.alloc_free_roundtrip [OF assms(1) _ assms(2)]
    by (metis (no_types, lifting) prod.inject res.inject(1))
qed

lemma kmem_example_pool: "page_pool kmem_example {0x80400000}"
  unfolding page_pool_def by (intro conjI exI [of _ "[0x80400000]"]) simp_all

theorem kalloc_many_distinct_witness:
  "\<exists>p s1. alloc_n kalloc 1 kmem_example = Ok ([p], s1) \<and> p \<in> {0x80400000} \<and> page_pool s1 ({0x80400000} - {p})"
proof -
  obtain ps s1 where "alloc_n kalloc 1 kmem_example = Ok (ps, s1)" "length ps = 1"
    "set ps \<subseteq> {0x80400000}" "page_pool s1 ({0x80400000} - set ps)"
    using kalloc_many_distinct [OF kmem_example_pool, of 1] by auto
  then show ?thesis by (cases ps) auto
qed

text \<open>
  C18. Boot frees every usable page exactly once: after \<^verbatim>\<open>kinit1(end, P2V(4*1024*1024))\<close> and
  \<^verbatim>\<open>kinit2(P2V(4*1024*1024), P2V(PHYSTOP))\<close> the pool holds exactly the page-aligned addresses
  from the end of the kernel up to \<^verbatim>\<open>PHYSTOP\<close>, and locking is on.
\<close>

theorem kinit_frees_all:
  assumes "wf_cpu s" "freelist s = 0" "KERNBASE \<le> kend s" "kend s \<le> P2V 0x400000"
  shows "\<exists>s1 s2. kinit1 (kend s) (P2V 0x400000) s = Ok s1
    \<and> kinit2 (P2V 0x400000) (P2V PHYSTOP) s1 = Ok s2
    \<and> page_pool s2 (range_set (kend s) (P2V PHYSTOP)) \<and> use_lock s2"
proof -
  let ?s = "(initlock KMEM_LOCK s)\<lparr>use_lock := False\<rparr>" and ?m = "P2V 0x400000"
  have c: "?m \<le> P2V PHYSTOP" "4096 dvd unat ?m" by (simp_all add: P2V_def PHYSTOP_def KERNBASE_def)
  have "page_pool ?s {}"
    using assms unfolding page_pool_def
    by (intro conjI exI [of _ "[]"]) (simp_all add: kmem_ready_def free_pages_def initlock_def wf_cpu_def)
  from freerange_pool [OF this, of "kend s" ?m] assms c obtain s1
    where s1: "kinit1 (kend s) ?m s = Ok s1" "page_pool s1 (range_set (kend s) ?m)"
      "kend s1 = kend s" "\<not> held s1 KMEM_LOCK"
    by (auto simp: kinit1_def Let_def initlock_def)
  have "kend s1 \<le> ?m" using s1(3) assms(4) by simp
  from freerange_pool [OF s1(2) this c(1)] range_set_join [OF assms(4) c] obtain s2
    where s2: "freerange ?m (P2V PHYSTOP) s1 = Ok s2" "page_pool s2 (range_set (kend s) (P2V PHYSTOP))"
      "held s2 = held s1"
    by auto
  then have "page_pool (s2\<lparr>use_lock := True\<rparr>) (range_set (kend s) (P2V PHYSTOP))"
    using s1(4) by (auto simp: page_pool_def kmem_ready_def free_pages_def wf_cpu_def)
  then show ?thesis using s1(1) s2(1) by (simp add: kinit2_def)
qed

theorem kinit_frees_all_witness:
  "\<exists>s1 s2. kinit1 0x80110000 (P2V 0x400000) (kmem_example\<lparr>freelist := 0\<rparr>) = Ok s1
    \<and> kinit2 (P2V 0x400000) (P2V PHYSTOP) s1 = Ok s2
    \<and> page_pool s2 (range_set 0x80110000 (P2V PHYSTOP))"
  using kinit_frees_all [of "kmem_example\<lparr>freelist := 0\<rparr>"]
  by (auto simp: kmem_example_def wf_cpu_def boot_cpu_def KERNBASE_def P2V_def)

end
