(* ===== verification/Mmu.thy ===== *)
theory Mmu
  imports Kalloc
begin

text \<open>
  \<^verbatim>\<open>mmu.h\<close> and the trap frame of \<^verbatim>\<open>x86.h\<close>: the layout of linear addresses, page table
  entries, segment and gate descriptors, and what the paging hardware reads through a page
  directory.
\<close>

section \<open>Linear addresses and page table entries\<close>

definition PDX :: "u32 \<Rightarrow> u32" where "PDX va = drop_bit 22 va AND 0x3FF"
definition PTX :: "u32 \<Rightarrow> u32" where "PTX va = drop_bit 12 va AND 0x3FF"

definition PGADDR :: "u32 \<Rightarrow> u32 \<Rightarrow> u32 \<Rightarrow> u32" where
  "PGADDR d t off = push_bit 22 d OR push_bit 12 t OR off"

definition NPDENTRIES :: nat where "NPDENTRIES = 1024"

definition PTE_P :: u32 where "PTE_P = 1"
definition PTE_W :: u32 where "PTE_W = 2"
definition PTE_U :: u32 where "PTE_U = 4"

definition PTE_ADDR :: "u32 \<Rightarrow> u32" where "PTE_ADDR pte = pte AND NOT 0xFFF"
definition PTE_FLAGS :: "u32 \<Rightarrow> u32" where "PTE_FLAGS pte = pte AND 0xFFF"

definition FL_IF :: u32 where "FL_IF = 0x200"

section \<open>Descriptors\<close>

record segdesc =
  sd_lim_15_0 :: u16
  sd_base_15_0 :: u16
  sd_base_23_16 :: u8
  sd_type :: "4 word"
  sd_s :: "1 word"
  sd_dpl :: "2 word"
  sd_p :: "1 word"
  sd_lim_19_16 :: "4 word"
  sd_avl :: "1 word"
  sd_rsv1 :: "1 word"
  sd_db :: "1 word"
  sd_g :: "1 word"
  sd_base_31_24 :: u8

definition SEG_KCODE :: nat where "SEG_KCODE = 1"
definition SEG_KDATA :: nat where "SEG_KDATA = 2"
definition SEG_UCODE :: nat where "SEG_UCODE = 3"
definition SEG_UDATA :: nat where "SEG_UDATA = 4"
definition SEG_TSS :: nat where "SEG_TSS = 5"

definition STA_X :: "4 word" where "STA_X = 8"
definition STA_W :: "4 word" where "STA_W = 2"
definition STA_R :: "4 word" where "STA_R = 2"
definition STS_T32A :: "4 word" where "STS_T32A = 9"
definition STS_IG32 :: "4 word" where "STS_IG32 = 0xE"
definition STS_TG32 :: "4 word" where "STS_TG32 = 0xF"
definition DPL_USER :: "2 word" where "DPL_USER = 3"

definition SEG :: "4 word \<Rightarrow> u32 \<Rightarrow> u32 \<Rightarrow> 2 word \<Rightarrow> segdesc" where
  "SEG type base lim dpl =
     \<lparr>sd_lim_15_0 = ucast (drop_bit 12 lim), sd_base_15_0 = ucast base,
      sd_base_23_16 = ucast (drop_bit 16 base), sd_type = type, sd_s = 1, sd_dpl = dpl, sd_p = 1,
      sd_lim_19_16 = ucast (drop_bit 28 lim), sd_avl = 0, sd_rsv1 = 0, sd_db = 1, sd_g = 1,
      sd_base_31_24 = ucast (drop_bit 24 base)\<rparr>"

definition SEG16 :: "4 word \<Rightarrow> u32 \<Rightarrow> u32 \<Rightarrow> 2 word \<Rightarrow> segdesc" where
  "SEG16 type base lim dpl =
     \<lparr>sd_lim_15_0 = ucast lim, sd_base_15_0 = ucast base,
      sd_base_23_16 = ucast (drop_bit 16 base), sd_type = type, sd_s = 1, sd_dpl = dpl, sd_p = 1,
      sd_lim_19_16 = ucast (drop_bit 16 lim), sd_avl = 0, sd_rsv1 = 0, sd_db = 1, sd_g = 0,
      sd_base_31_24 = ucast (drop_bit 24 base)\<rparr>"

record gatedesc =
  gd_off_15_0 :: u16
  gd_cs :: u16
  gd_args :: "5 word"
  gd_rsv1 :: "3 word"
  gd_type :: "4 word"
  gd_s :: "1 word"
  gd_dpl :: "2 word"
  gd_p :: "1 word"
  gd_off_31_16 :: u16

definition SETGATE :: "bool \<Rightarrow> u16 \<Rightarrow> u32 \<Rightarrow> 2 word \<Rightarrow> gatedesc" where
  "SETGATE istrap sel off d =
     \<lparr>gd_off_15_0 = ucast off, gd_cs = sel, gd_args = 0, gd_rsv1 = 0,
      gd_type = (if istrap then STS_TG32 else STS_IG32), gd_s = 0, gd_dpl = d, gd_p = 1,
      gd_off_31_16 = ucast (drop_bit 16 off)\<rparr>"

text \<open>What the processor reads out of a descriptor.\<close>

definition seg_base :: "segdesc \<Rightarrow> u32" where
  "seg_base d = ucast (sd_base_15_0 d) OR push_bit 16 (ucast (sd_base_23_16 d))
     OR push_bit 24 (ucast (sd_base_31_24 d))"

definition seg_limit :: "segdesc \<Rightarrow> u32" where
  "seg_limit d =
     (let l = ucast (sd_lim_15_0 d) OR push_bit 16 (ucast (sd_lim_19_16 d)) in
      if sd_g d = 1 then push_bit 12 l OR 0xFFF else l)"

definition gate_offset :: "gatedesc \<Rightarrow> u32" where
  "gate_offset g = ucast (gd_off_15_0 g) OR push_bit 16 (ucast (gd_off_31_16 g))"

section \<open>The trap frame\<close>

text \<open>Byte offsets of the fields of \<^verbatim>\<open>struct trapframe\<close>, which the kernel accesses in memory.\<close>

definition TF_edi :: u32 where "TF_edi = 0"
definition TF_esi :: u32 where "TF_esi = 4"
definition TF_ebp :: u32 where "TF_ebp = 8"
definition TF_ebx :: u32 where "TF_ebx = 16"
definition TF_edx :: u32 where "TF_edx = 20"
definition TF_ecx :: u32 where "TF_ecx = 24"
definition TF_eax :: u32 where "TF_eax = 28"
definition TF_es :: u32 where "TF_es = 40"
definition TF_ds :: u32 where "TF_ds = 44"
definition TF_trapno :: u32 where "TF_trapno = 48"
definition TF_err :: u32 where "TF_err = 52"
definition TF_eip :: u32 where "TF_eip = 56"
definition TF_cs :: u32 where "TF_cs = 60"
definition TF_eflags :: u32 where "TF_eflags = 64"
definition TF_esp :: u32 where "TF_esp = 68"
definition TF_ss :: u32 where "TF_ss = 72"
definition TF_SIZE :: u32 where "TF_SIZE = 76"

section \<open>Lemmas\<close>

lemma mask_3FF: "(0x3FF :: u32) = mask 10" and mask_FFF: "(0xFFF :: u32) = mask 12"
  by (simp_all add: mask_eq_exp_minus_1)

lemma PDX_bound: "unat (PDX va) < 1024" and PTX_bound: "unat (PTX va) < 1024"
proof -
  have "unat (take_bit 10 x) < 1024" for x :: u32
    by (simp add: take_bit_eq_mod unat_mod_distrib)
  then show "unat (PDX va) < 1024" "unat (PTX va) < 1024"
    by (simp_all add: PDX_def PTX_def mask_3FF take_bit_eq_mask [symmetric])
qed

text \<open>An address is made up of its two indices and its offset.\<close>

lemma PGADDR_split: "PGADDR (PDX va) (PTX va) (va AND 0xFFF) = va"
proof (rule bit_word_eqI)
  fix n assume "n < LENGTH(32)"
  then show "bit (PGADDR (PDX va) (PTX va) (va AND 0xFFF)) n = bit va n"
    by (cases "22 \<le> n"; cases "12 \<le> n")
      (auto simp: PGADDR_def PDX_def PTX_def mask_3FF mask_FFF take_bit_eq_mask [symmetric] bit_simps)
qed

lemma PTE_ADDR_FLAGS: "PTE_ADDR pte OR PTE_FLAGS pte = pte"
  unfolding PTE_ADDR_def PTE_FLAGS_def by (rule bit_word_eqI) (auto simp: bit_simps)

lemma word_pieces:
  "ucast (ucast x :: u16) OR push_bit 16 (ucast (ucast (drop_bit 16 x) :: u8))
     OR push_bit 24 (ucast (ucast (drop_bit 24 x) :: u8)) = (x :: u32)"
  "ucast (ucast x :: u16) OR push_bit 16 (ucast (ucast (drop_bit 16 x) :: u16)) = (x :: u32)"
proof -
  have "bit (ucast (ucast x :: u16) OR push_bit 16 (ucast (ucast (drop_bit 16 x) :: u8))
     OR push_bit 24 (ucast (ucast (drop_bit 24 x) :: u8)) :: u32) n = bit x n" if "n < 32" for n
    using that by (cases "24 \<le> n"; cases "16 \<le> n") (auto simp: bit_simps)
  then show "ucast (ucast x :: u16) OR push_bit 16 (ucast (ucast (drop_bit 16 x) :: u8))
     OR push_bit 24 (ucast (ucast (drop_bit 24 x) :: u8)) = x"
    by (intro bit_word_eqI) simp
  have "bit (ucast (ucast x :: u16) OR push_bit 16 (ucast (ucast (drop_bit 16 x) :: u16)) :: u32) n = bit x n"
    if "n < 32" for n
    using that by (cases "16 \<le> n") (auto simp: bit_simps)
  then show "ucast (ucast x :: u16) OR push_bit 16 (ucast (ucast (drop_bit 16 x) :: u16)) = x"
    by (intro bit_word_eqI) simp
qed

lemma limit_pieces:
  "push_bit 12 (ucast (ucast (drop_bit 12 x) :: u16) OR push_bit 16 (ucast (ucast (drop_bit 28 x) :: 4 word)))
     OR mask 12 = x OR (mask 12 :: u32)"
proof -
  have "bit (push_bit 12 (ucast (ucast (drop_bit 12 x) :: u16) OR push_bit 16 (ucast (ucast (drop_bit 28 x) :: 4 word)))
     OR mask 12 :: u32) n = bit (x OR mask 12) n" if "n < 32" for n
    using that by (cases "12 \<le> n"; cases "28 \<le> n") (auto simp: bit_simps)
  then show ?thesis by (intro bit_word_eqI) simp
qed

lemma seg_base_SEG: "seg_base (SEG type base lim dpl) = base"
  and seg_base_SEG16: "seg_base (SEG16 type base lim dpl) = base"
  by (simp_all add: seg_base_def SEG_def SEG16_def word_pieces)

lemma seg_limit_SEG: "seg_limit (SEG type base lim dpl) = lim OR 0xFFF"
  using limit_pieces [of lim] by (simp add: seg_limit_def SEG_def mask_FFF)


end
