(* ===== verification/Vm.thy ===== *)
theory Vm
  imports Mmu
begin

text \<open>
  \<^verbatim>\<open>vm.c\<close>: page directories and page tables in byte memory, the user part of an address
  space (growing, shrinking, copying, freeing), the kernel part every directory shares, and
  the per-CPU segment and task registers.
\<close>

section \<open>State\<close>

record taskstate =
  ts_link :: u32
  ts_esp0 :: u32
  ts_ss0 :: u16
  ts_padding1 :: u16
  ts_esp1 :: u32
  ts_ss1 :: u16
  ts_padding2 :: u16
  ts_esp2 :: u32
  ts_ss2 :: u16
  ts_padding3 :: u16
  ts_cr3 :: u32
  ts_eip :: u32
  ts_eflags :: u32
  ts_eax :: u32
  ts_ecx :: u32
  ts_edx :: u32
  ts_ebx :: u32
  ts_esp :: u32
  ts_ebp :: u32
  ts_esi :: u32
  ts_edi :: u32
  ts_es :: u16
  ts_padding4 :: u16
  ts_cs :: u16
  ts_padding5 :: u16
  ts_ss :: u16
  ts_padding6 :: u16
  ts_ds :: u16
  ts_padding7 :: u16
  ts_fs :: u16
  ts_padding8 :: u16
  ts_gs :: u16
  ts_padding9 :: u16
  ts_ldt :: u16
  ts_padding10 :: u16
  ts_t :: u16
  ts_iomb :: u16

record vm = kmem +
  data_sym :: u32
  kpgdir :: u32
  cr3 :: u32
  gdt :: "nat \<Rightarrow> segdesc"
  ts :: taskstate
  ts_addr :: u32
  task_reg :: nat

section \<open>Walking and mapping\<close>

definition pde_addr :: "u32 \<Rightarrow> u32 \<Rightarrow> u32" where "pde_addr pgdir va = pgdir + 4 * PDX va"

definition walkpgdir :: "u32 \<Rightarrow> u32 \<Rightarrow> bool \<Rightarrow> 'a kmem_scheme \<Rightarrow> (u32 \<times> 'a kmem_scheme) res" where
  "walkpgdir pgdir va alloc s =
     (let pde = pde_addr pgdir va in
      if load32 (mem s) pde AND PTE_P \<noteq> 0
      then Ok (P2V (PTE_ADDR (load32 (mem s) pde)) + 4 * PTX va, s)
      else if \<not> alloc then Ok (0, s)
      else andThen (kalloc s) (\<lambda>(pgtab, s).
        if pgtab = 0 then Ok (0, s)
        else
          let s = s\<lparr>mem := memset (mem s) pgtab 0 PGSIZE\<rparr>;
              s = s\<lparr>mem := store32 (mem s) pde (V2P pgtab OR PTE_P OR PTE_W OR PTE_U)\<rparr> in
          Ok (pgtab + 4 * PTX va, s)))"

text \<open>The loops below step through pages; \<open>2^20\<close> pages is the whole address space.\<close>

definition VM_FUEL :: nat where "VM_FUEL = 2 ^ 20 + 1"

fun mappages_from ::
    "nat \<Rightarrow> u32 \<Rightarrow> u32 \<Rightarrow> u32 \<Rightarrow> u32 \<Rightarrow> u32 \<Rightarrow> 'a kmem_scheme \<Rightarrow> (int \<times> 'a kmem_scheme) res" where
  "mappages_from 0 pgdir a last_a pa perm s = Hangs"
| "mappages_from (Suc fuel) pgdir a last_a pa perm s =
     andThen (walkpgdir pgdir a True s) (\<lambda>(pte, s).
       if pte = 0 then Ok (- 1, s)
       else if load32 (mem s) pte AND PTE_P \<noteq> 0 then Panic ''remap''
       else
         let s = s\<lparr>mem := store32 (mem s) pte (pa OR perm OR PTE_P)\<rparr> in
         if a = last_a then Ok (0, s)
         else mappages_from fuel pgdir (a + PGSIZE) last_a (pa + PGSIZE) perm s)"

definition mappages :: "u32 \<Rightarrow> u32 \<Rightarrow> u32 \<Rightarrow> u32 \<Rightarrow> u32 \<Rightarrow> 'a kmem_scheme \<Rightarrow> (int \<times> 'a kmem_scheme) res" where
  "mappages pgdir va sz pa perm s =
     mappages_from VM_FUEL pgdir (PGROUNDDOWN va) (PGROUNDDOWN (va + sz - 1)) pa perm s"

section \<open>Shrinking and freeing\<close>

fun deallocuvm_from :: "nat \<Rightarrow> u32 \<Rightarrow> u32 \<Rightarrow> u32 \<Rightarrow> 'a kmem_scheme \<Rightarrow> 'a kmem_scheme res" where
  "deallocuvm_from 0 pgdir a oldsz s = Hangs"
| "deallocuvm_from (Suc fuel) pgdir a oldsz s =
     (if \<not> a < oldsz then Ok s
      else andThen (walkpgdir pgdir a False s) (\<lambda>(pte, s).
        if pte = 0 then
          let a = PGADDR (PDX a + 1) 0 0 - PGSIZE in
          deallocuvm_from fuel pgdir (a + PGSIZE) oldsz s
        else if load32 (mem s) pte AND PTE_P \<noteq> 0 then
          let pa = PTE_ADDR (load32 (mem s) pte) in
          if pa = 0 then Panic ''kfree''
          else andThen (kfree (P2V pa) s) (\<lambda>s.
            let s = s\<lparr>mem := store32 (mem s) pte 0\<rparr> in
            deallocuvm_from fuel pgdir (a + PGSIZE) oldsz s)
        else deallocuvm_from fuel pgdir (a + PGSIZE) oldsz s))"

definition deallocuvm :: "u32 \<Rightarrow> u32 \<Rightarrow> u32 \<Rightarrow> 'a kmem_scheme \<Rightarrow> (u32 \<times> 'a kmem_scheme) res" where
  "deallocuvm pgdir oldsz newsz s =
     (if newsz \<ge> oldsz then Ok (oldsz, s)
      else andThen (deallocuvm_from VM_FUEL pgdir (PGROUNDUP newsz) oldsz s) (\<lambda>s. Ok (newsz, s)))"

fun freevm_tables :: "nat \<Rightarrow> u32 \<Rightarrow> u32 \<Rightarrow> 'a kmem_scheme \<Rightarrow> 'a kmem_scheme res" where
  "freevm_tables 0 pgdir i s = Ok s"
| "freevm_tables (Suc n) pgdir i s =
     andThen
       (if load32 (mem s) (pgdir + 4 * i) AND PTE_P \<noteq> 0
        then kfree (P2V (PTE_ADDR (load32 (mem s) (pgdir + 4 * i)))) s else Ok s)
       (freevm_tables n pgdir (i + 1))"

definition freevm :: "u32 \<Rightarrow> 'a kmem_scheme \<Rightarrow> 'a kmem_scheme res" where
  "freevm pgdir s =
     (if pgdir = 0 then Panic ''freevm: no pgdir''
      else andThen (deallocuvm pgdir KERNBASE 0 s) (\<lambda>(_, s).
           andThen (freevm_tables NPDENTRIES pgdir 0 s) (kfree pgdir)))"

section \<open>The kernel part\<close>

definition kmap :: "'a vm_scheme \<Rightarrow> (u32 \<times> u32 \<times> u32 \<times> u32) list" where
  "kmap s =
     [(KERNBASE, 0, EXTMEM, PTE_W),
      (KERNLINK, V2P KERNLINK, V2P (data_sym s), 0),
      (data_sym s, V2P (data_sym s), PHYSTOP, PTE_W),
      (DEVSPACE, DEVSPACE, 0, PTE_W)]"

fun setupkvm_maps :: "(u32 \<times> u32 \<times> u32 \<times> u32) list \<Rightarrow> u32 \<Rightarrow> 'a kmem_scheme \<Rightarrow> (u32 \<times> 'a kmem_scheme) res" where
  "setupkvm_maps [] pgdir s = Ok (pgdir, s)"
| "setupkvm_maps ((virt, phys_start, phys_end, perm) # ks) pgdir s =
     andThen (mappages pgdir virt (phys_end - phys_start) phys_start perm s) (\<lambda>(r, s).
       if r < 0 then andThen (freevm pgdir s) (\<lambda>s. Ok (0, s))
       else setupkvm_maps ks pgdir s)"

definition setupkvm :: "'a vm_scheme \<Rightarrow> (u32 \<times> 'a vm_scheme) res" where
  "setupkvm s =
     andThen (kalloc s) (\<lambda>(pgdir, s).
       if pgdir = 0 then Ok (0, s)
       else
         let s = s\<lparr>mem := memset (mem s) pgdir 0 PGSIZE\<rparr> in
         if P2V PHYSTOP > DEVSPACE then Panic ''PHYSTOP too high''
         else setupkvm_maps (kmap s) pgdir s)"

definition switchkvm :: "'a vm_scheme \<Rightarrow> 'a vm_scheme" where
  "switchkvm s = s\<lparr>cr3 := V2P (kpgdir s)\<rparr>"

definition kvmalloc :: "'a vm_scheme \<Rightarrow> 'a vm_scheme res" where
  "kvmalloc s = andThen (setupkvm s) (\<lambda>(pgdir, s). Ok (switchkvm (s\<lparr>kpgdir := pgdir\<rparr>)))"

definition seginit :: "'a vm_scheme \<Rightarrow> 'a vm_scheme" where
  "seginit s =
     s\<lparr>gdt := (gdt s)(SEG_KCODE := SEG (STA_X OR STA_R) 0 0xffffffff 0,
                       SEG_KDATA := SEG STA_W 0 0xffffffff 0,
                       SEG_UCODE := SEG (STA_X OR STA_R) 0 0xffffffff DPL_USER,
                       SEG_UDATA := SEG STA_W 0 0xffffffff DPL_USER)\<rparr>"

text \<open>\<^verbatim>\<open>switchuvm\<close> of a process with the given kernel stack and page directory (0 for null).\<close>

definition KSTACKSIZE :: u32 where "KSTACKSIZE = 4096"

definition switchuvm :: "u32 \<Rightarrow> u32 \<Rightarrow> 'a vm_scheme \<Rightarrow> 'a vm_scheme res" where
  "switchuvm kstack pgdir s =
     (if kstack = 0 then Panic ''switchuvm: no kstack''
      else if pgdir = 0 then Panic ''switchuvm: no pgdir''
      else andThen (pushcli s) (\<lambda>s.
        let d = SEG16 STS_T32A (ts_addr s) (104 - 1) 0;
            s = s\<lparr>gdt := (gdt s)(SEG_TSS := d\<lparr>sd_s := 0\<rparr>)\<rparr>;
            s = s\<lparr>ts := (ts s)\<lparr>ts_ss0 := of_nat (SEG_KDATA * 8), ts_esp0 := kstack + KSTACKSIZE, ts_iomb := 0xFFFF\<rparr>\<rparr>;
            s = s\<lparr>task_reg := SEG_TSS * 8\<rparr>;
            s = s\<lparr>cr3 := V2P pgdir\<rparr> in
        popcli s))"

section \<open>User memory\<close>

text \<open>
  \<open>init\<close> is the address of the program to load, in kernel memory. Without a free page the
  \<^verbatim>\<open>memset\<close> goes through a null pointer.
\<close>

definition inituvm :: "u32 \<Rightarrow> u32 \<Rightarrow> u32 \<Rightarrow> 'a kmem_scheme \<Rightarrow> 'a kmem_scheme res" where
  "inituvm pgdir init sz s =
     (if sz \<ge> PGSIZE then Panic ''inituvm: more than a page''
      else andThen (kalloc s) (\<lambda>(mem_p, s).
        if mem_p = 0 then Fault 0 else
        let s = s\<lparr>mem := memset (mem s) mem_p 0 PGSIZE\<rparr> in
        andThen (mappages pgdir 0 PGSIZE (V2P mem_p) (PTE_W OR PTE_U) s) (\<lambda>(_, s).
        Ok (s\<lparr>mem := memmove (mem s) mem_p init sz\<rparr>))))"

fun allocuvm_from :: "nat \<Rightarrow> u32 \<Rightarrow> u32 \<Rightarrow> u32 \<Rightarrow> u32 \<Rightarrow> 'a kmem_scheme \<Rightarrow> (u32 \<times> 'a kmem_scheme) res" where
  "allocuvm_from 0 pgdir oldsz a newsz s = Hangs"
| "allocuvm_from (Suc fuel) pgdir oldsz a newsz s =
     (if \<not> a < newsz then Ok (newsz, s)
      else andThen (kalloc s) (\<lambda>(mem_p, s).
        if mem_p = 0 then
          andThen (cprintf (''allocuvm out of memory'' @ [CHR 0x0A]) [] s) (\<lambda>s.
          andThen (deallocuvm pgdir newsz oldsz s) (\<lambda>(_, s). Ok (0, s)))
        else
          let s = s\<lparr>mem := memset (mem s) mem_p 0 PGSIZE\<rparr> in
          andThen (mappages pgdir a PGSIZE (V2P mem_p) (PTE_W OR PTE_U) s) (\<lambda>(r, s).
          if r < 0 then
            andThen (cprintf (''allocuvm out of memory (2)'' @ [CHR 0x0A]) [] s) (\<lambda>s.
            andThen (deallocuvm pgdir newsz oldsz s) (\<lambda>(_, s).
            andThen (kfree mem_p s) (\<lambda>s. Ok (0, s))))
          else allocuvm_from fuel pgdir oldsz (a + PGSIZE) newsz s)))"

definition allocuvm :: "u32 \<Rightarrow> u32 \<Rightarrow> u32 \<Rightarrow> 'a kmem_scheme \<Rightarrow> (u32 \<times> 'a kmem_scheme) res" where
  "allocuvm pgdir oldsz newsz s =
     (if newsz \<ge> KERNBASE then Ok (0, s)
      else if newsz < oldsz then Ok (oldsz, s)
      else allocuvm_from VM_FUEL pgdir oldsz (PGROUNDUP oldsz) newsz s)"

definition clearpteu :: "u32 \<Rightarrow> u32 \<Rightarrow> 'a kmem_scheme \<Rightarrow> 'a kmem_scheme res" where
  "clearpteu pgdir uva s =
     andThen (walkpgdir pgdir uva False s) (\<lambda>(pte, s).
       if pte = 0 then Panic ''clearpteu''
       else Ok (s\<lparr>mem := store32 (mem s) pte (load32 (mem s) pte AND NOT PTE_U)\<rparr>))"

fun copyuvm_from :: "nat \<Rightarrow> u32 \<Rightarrow> u32 \<Rightarrow> u32 \<Rightarrow> u32 \<Rightarrow> 'a kmem_scheme \<Rightarrow> (u32 \<times> 'a kmem_scheme) res" where
  "copyuvm_from 0 pgdir sz d i s = Hangs"
| "copyuvm_from (Suc fuel) pgdir sz d i s =
     (if \<not> i < sz then Ok (d, s)
      else andThen (walkpgdir pgdir i False s) (\<lambda>(pte, s).
        if pte = 0 then Panic ''copyuvm: pte should exist''
        else if load32 (mem s) pte AND PTE_P = 0 then Panic ''copyuvm: page not present''
        else
          let pa = PTE_ADDR (load32 (mem s) pte); flags = PTE_FLAGS (load32 (mem s) pte) in
          andThen (kalloc s) (\<lambda>(mem_p, s).
          if mem_p = 0 then andThen (freevm d s) (\<lambda>s. Ok (0, s))
          else
            let s = s\<lparr>mem := memmove (mem s) mem_p (P2V pa) PGSIZE\<rparr> in
            andThen (mappages d i PGSIZE (V2P mem_p) flags s) (\<lambda>(r, s).
            if r < 0 then andThen (kfree mem_p s) (\<lambda>s. andThen (freevm d s) (\<lambda>s. Ok (0, s)))
            else copyuvm_from fuel pgdir sz d (i + PGSIZE) s))))"

definition copyuvm :: "u32 \<Rightarrow> u32 \<Rightarrow> 'a vm_scheme \<Rightarrow> (u32 \<times> 'a vm_scheme) res" where
  "copyuvm pgdir sz s =
     andThen (setupkvm s) (\<lambda>(d, s).
       if d = 0 then Ok (0, s) else copyuvm_from VM_FUEL pgdir sz d 0 s)"

text \<open>\<^verbatim>\<open>uva2ka\<close> dereferences the entry without testing that there is a page table.\<close>

definition uva2ka :: "u32 \<Rightarrow> u32 \<Rightarrow> 'a kmem_scheme \<Rightarrow> u32 res" where
  "uva2ka pgdir uva s =
     andThen (walkpgdir pgdir uva False s) (\<lambda>(pte, s).
       if pte = 0 then Fault 0
       else if load32 (mem s) pte AND PTE_P = 0 then Ok 0
       else if load32 (mem s) pte AND PTE_U = 0 then Ok 0
       else Ok (P2V (PTE_ADDR (load32 (mem s) pte))))"

fun copyout_from :: "nat \<Rightarrow> u32 \<Rightarrow> u32 \<Rightarrow> u32 \<Rightarrow> u32 \<Rightarrow> 'a kmem_scheme \<Rightarrow> (int \<times> 'a kmem_scheme) res" where
  "copyout_from 0 pgdir va buf len s = Hangs"
| "copyout_from (Suc fuel) pgdir va buf len s =
     (if len = 0 then Ok (0, s)
      else
        let va0 = PGROUNDDOWN va in
        andThen (uva2ka pgdir va0 s) (\<lambda>pa0.
        if pa0 = 0 then Ok (- 1, s)
        else
          let n = PGSIZE - (va - va0);
              n = (if n > len then len else n);
              s = s\<lparr>mem := memmove (mem s) (pa0 + (va - va0)) buf n\<rparr> in
          copyout_from fuel pgdir (va0 + PGSIZE) (buf + n) (len - n) s))"

definition copyout :: "u32 \<Rightarrow> u32 \<Rightarrow> u32 \<Rightarrow> u32 \<Rightarrow> 'a kmem_scheme \<Rightarrow> (int \<times> 'a kmem_scheme) res" where
  "copyout pgdir va p len s = copyout_from (VM_FUEL + 1) pgdir va p len s"

section \<open>What the paging hardware reads\<close>

definition pde_of :: "memory \<Rightarrow> u32 \<Rightarrow> u32 \<Rightarrow> u32" where
  "pde_of m pgdir i = load32 m (pgdir + 4 * i)"

definition present :: "u32 \<Rightarrow> bool" where "present e \<longleftrightarrow> e AND PTE_P \<noteq> 0"

definition table_of :: "u32 \<Rightarrow> u32" where "table_of e = P2V (PTE_ADDR e)"

text \<open>Page frame and flags of a virtual address, \<open>None\<close> where an access page-faults.\<close>

definition translate :: "memory \<Rightarrow> u32 \<Rightarrow> u32 \<Rightarrow> (u32 \<times> u32) option" where
  "translate m pgdir va =
     (let pde = pde_of m pgdir (PDX va) in
      if \<not> present pde then None
      else
        let pte = load32 m (table_of pde + 4 * PTX va) in
        if present pte then Some (PTE_ADDR pte, PTE_FLAGS pte) else None)"

section \<open>Words in pages\<close>

lemma aligned_room: "4096 dvd unat (p::u32) \<Longrightarrow> unat p + 4096 \<le> 2 ^ 32"
proof -
  assume a: "4096 dvd unat p"
  have "4096 dvd (2 ^ 32 - unat p)" using a by (intro dvd_diff_nat) simp_all
  moreover have "0 < 2 ^ 32 - unat p" using unsigned_less [of p, where ?'a = nat] by simp
  ultimately have "4096 \<le> 2 ^ 32 - unat p" by (rule dvd_imp_le)
  then show ?thesis by simp
qed

lemma unat_slot:
  assumes "4096 dvd unat (p::u32)" "unat i < 1024"
  shows "unat (p + 4 * i) = unat p + 4 * unat i"
proof -
  have "unat (4 * i) = 4 * unat i" using assms(2) by (simp add: unat_word_ariths)
  then show ?thesis using assms(2) aligned_room [OF assms(1)] by (simp add: unat_word_ariths)
qed

lemma slot_inj:
  assumes "4096 dvd unat (p::u32)" "4096 dvd unat q" "unat i < 1024" "unat j < 1024"
  shows "p + 4 * i = q + 4 * j \<longleftrightarrow> p = q \<and> i = j"
proof
  assume e: "p + 4 * i = q + 4 * j"
  then have u: "unat p + 4 * unat i = unat q + 4 * unat j"
    using unat_slot [OF assms(1,3)] unat_slot [OF assms(2,4)] by simp
  have "(unat p + 4 * unat i) div 4096 = unat p div 4096" "(unat q + 4 * unat j) div 4096 = unat q div 4096"
    using assms by (auto elim!: dvdE)
  then have "unat p = unat q" using u assms(1,2) by (metis dvd_div_mult_self)
  then show "p = q \<and> i = j" using u by (simp add: word_unat_eq_iff)
qed simp

lemma slot_aligned: "4096 dvd unat (p::u32) \<Longrightarrow> unat i < 1024 \<Longrightarrow> 4 dvd unat (p + 4 * i)"
  by (simp add: unat_slot page4)

lemma load32_store32_slot:
  assumes "4096 dvd unat (p::u32)" "4096 dvd unat q" "unat i < 1024" "unat j < 1024"
  shows "load32 (store32 m (p + 4 * i) v) (q + 4 * j) = (if p = q \<and> i = j then v else load32 m (q + 4 * j))"
proof (cases "p = q \<and> i = j")
  case False
  then have n: "p + 4 * i \<noteq> q + 4 * j" using slot_inj [OF assms] by simp
  have "4 \<le> p + 4 * i - (q + 4 * j)" "4 \<le> q + 4 * j - (p + 4 * i)"
    using n assms by (intro aligned4_apart slot_aligned; simp)+
  then show ?thesis using False by (subst load32_store32_other) auto
qed simp

lemma load32_zero: "m a = 0 \<Longrightarrow> m (a + 1) = 0 \<Longrightarrow> m (a + 2) = 0 \<Longrightarrow> m (a + 3) = 0 \<Longrightarrow> load32 m a = 0"
  by (simp add: load32_def)

lemma slot_byte_inside:
  assumes "unat i < 1024" "unat k < 4"
  shows "(p::u32) + 4 * i + k - p < 4096"
proof -
  have e: "p + 4 * i + k - p = 4 * i + k" by simp
  have "unat (4 * i) = 4 * unat i" using assms(1) by (simp add: unat_word_ariths)
  then have "unat (4 * i + k) = 4 * unat i + unat k" using assms by (simp add: unat_word_ariths)
  then show ?thesis unfolding e using assms by (simp add: word_less_nat_alt)
qed

lemma slot_byte_outside:
  assumes "4096 dvd unat (p::u32)" "4096 dvd unat q" "p \<noteq> q" "unat i < 1024" "unat k < 4"
  shows "\<not> q + 4 * i + k - p < 4096"
proof -
  have "unat (4 * i) = 4 * unat i" using assms(4) by (simp add: unat_word_ariths)
  then have "unat (4 * i + k) = 4 * unat i + unat k" using assms by (simp add: unat_word_ariths)
  then have "\<not> q + (4 * i + k) - p < 4096" using assms by (intro page_outside) simp_all
  then show ?thesis by (simp add: add.assoc)
qed

lemma load32_memset_slot:
  assumes "4096 dvd unat (p::u32)" "4096 dvd unat q" "unat j < 1024"
  shows "load32 (memset m p 0 PGSIZE) (q + 4 * j) = (if p = q then 0 else load32 m (q + 4 * j))"
proof (cases "p = q")
  case True
  then show ?thesis unfolding PGSIZE_def
    using slot_byte_inside [OF assms(3), of 0 q] slot_byte_inside [OF assms(3), of 1 q]
      slot_byte_inside [OF assms(3), of 2 q] slot_byte_inside [OF assms(3), of 3 q]
    by (auto intro!: load32_zero simp: memset_apply)
next
  case False
  note o = slot_byte_outside [OF assms(1,2) False assms(3)]
  show ?thesis unfolding PGSIZE_def
    using False o [of 0] o [of 1] o [of 2] o [of 3] by (auto intro!: load32_cong simp: memset_apply)
qed

section \<open>Entries\<close>

lemma PTE_ADDR_eq: "PTE_ADDR e = PGROUNDDOWN e"
  by (simp add: PTE_ADDR_def PGROUNDDOWN_def PGSIZE_def)

lemma PTE_ADDR_aligned [simp]: "4096 dvd unat (PTE_ADDR e)"
  by (simp add: PTE_ADDR_eq unat_PGROUNDDOWN)

lemma P2V_aligned:
  assumes "4096 dvd unat a"
  shows "4096 dvd unat (P2V a)"
proof -
  have "unat (P2V a) = (unat a + 2147483648) mod 2 ^ 32"
    by (simp add: P2V_def KERNBASE_def unat_word_ariths)
  moreover have "4096 dvd unat a + 2147483648" using assms by (simp add: dvd_add)
  moreover have "4096 dvd (2::nat) ^ 32" by simp
  ultimately show ?thesis using dvd_mod by metis
qed

lemma table_aligned [simp]: "4096 dvd unat (table_of e)"
  by (simp add: table_of_def P2V_aligned)

lemma V2P_aligned:
  assumes "4096 dvd unat a"
  shows "4096 dvd unat (V2P a)"
proof -
  have "V2P a = P2V a" by (simp add: V2P_def P2V_def KERNBASE_def)
  then show ?thesis using P2V_aligned [OF assms] by simp
qed

lemma PTE_ADDR_self:
  assumes "4096 dvd unat a"
  shows "PTE_ADDR a = a"
  using assms by (simp add: PTE_ADDR_eq word_unat_eq_iff unat_PGROUNDDOWN)

lemma PTE_ADDR_or: "PTE_ADDR (a OR b) = PTE_ADDR a OR PTE_ADDR b"
  by (simp add: PTE_ADDR_def bit.conj_disj_distrib2)

lemma PTE_FLAGS_or: "PTE_FLAGS (a OR b) = PTE_FLAGS a OR PTE_FLAGS b"
  by (simp add: PTE_FLAGS_def bit.conj_disj_distrib2)

lemma PTE_FLAGS_aligned:
  assumes "4096 dvd unat a"
  shows "PTE_FLAGS a = 0"
proof -
  have "PTE_FLAGS a = PTE_FLAGS (PTE_ADDR a)" by (simp add: PTE_ADDR_self assms)
  then show ?thesis by (simp add: PTE_FLAGS_def PTE_ADDR_def ac_simps)
qed

definition perm_ok :: "u32 \<Rightarrow> bool" where "perm_ok perm \<longleftrightarrow> PTE_ADDR perm = 0"

lemma pte_parts:
  assumes "4096 dvd unat pa" "perm_ok perm"
  shows "PTE_ADDR (pa OR perm OR PTE_P) = pa"
    "PTE_FLAGS (pa OR perm OR PTE_P) = perm OR PTE_P"
    "present (pa OR perm OR PTE_P)"
proof -
  show "PTE_ADDR (pa OR perm OR PTE_P) = pa"
    using assms by (simp add: PTE_ADDR_or PTE_ADDR_self perm_ok_def) (simp add: PTE_ADDR_def PTE_P_def)
  have "PTE_FLAGS (perm OR PTE_P) = perm OR PTE_P"
    using PTE_ADDR_FLAGS [of perm] assms(2) by (simp add: PTE_FLAGS_or perm_ok_def) (simp add: PTE_FLAGS_def PTE_P_def)
  then show "PTE_FLAGS (pa OR perm OR PTE_P) = perm OR PTE_P"
    using PTE_FLAGS_aligned [OF assms(1)] by (simp add: PTE_FLAGS_or)
  have "bit (pa OR perm OR PTE_P) 0" by (simp add: PTE_P_def bit_simps)
  then show "present (pa OR perm OR PTE_P)"
    by (simp add: present_def PTE_P_def and_one_eq bit_0 odd_iff_mod_2_eq_one)
qed

lemma present_table:
  assumes "4096 dvd unat a"
  shows "present (V2P a OR PTE_P OR PTE_W OR PTE_U)" "table_of (V2P a OR PTE_P OR PTE_W OR PTE_U) = a"
proof -
  have p: "perm_ok (PTE_W OR PTE_U)" by (simp add: perm_ok_def PTE_ADDR_def PTE_W_def PTE_U_def)
  have e: "V2P a OR PTE_P OR PTE_W OR PTE_U = V2P a OR (PTE_W OR PTE_U) OR PTE_P"
    by (simp add: or.commute or.left_commute)
  show "present (V2P a OR PTE_P OR PTE_W OR PTE_U)"
    unfolding e by (rule pte_parts(3) [OF V2P_aligned [OF assms] p])
  show "table_of (V2P a OR PTE_P OR PTE_W OR PTE_U) = a"
    unfolding e table_of_def pte_parts(1) [OF V2P_aligned [OF assms] p] by (simp add: V2P_def P2V_def)
qed

lemma not_present_0 [simp]: "\<not> present 0"
  by (simp add: present_def)

section \<open>Well-formed page directories\<close>

text \<open>
  The page tables of a directory are pages of their own: none is the directory, no two
  directory entries share one, and neither they nor the directory are on the free list.
\<close>

definition vm_ok :: "'a kmem_scheme \<Rightarrow> u32 \<Rightarrow> u32 list \<Rightarrow> bool" where
  "vm_ok s pgdir ps \<longleftrightarrow> kmem_ready s \<and> free_pages s ps \<and> 4096 dvd unat pgdir \<and> pgdir \<notin> set ps
     \<and> (\<forall>i. unat i < 1024 \<longrightarrow> present (pde_of (mem s) pgdir i) \<longrightarrow>
           table_of (pde_of (mem s) pgdir i) \<noteq> pgdir \<and> table_of (pde_of (mem s) pgdir i) \<noteq> 0
           \<and> table_of (pde_of (mem s) pgdir i) \<notin> set ps)
     \<and> (\<forall>i j. unat i < 1024 \<longrightarrow> unat j < 1024 \<longrightarrow> present (pde_of (mem s) pgdir i) \<longrightarrow>
           present (pde_of (mem s) pgdir j) \<longrightarrow>
           table_of (pde_of (mem s) pgdir i) = table_of (pde_of (mem s) pgdir j) \<longrightarrow> i = j)"

definition same_page :: "u32 \<Rightarrow> u32 \<Rightarrow> bool" where
  "same_page a b \<longleftrightarrow> PDX a = PDX b \<and> PTX a = PTX b"

lemma vm_okD:
  assumes "vm_ok s pgdir ps"
  shows "kmem_ready s" "free_pages s ps" "4096 dvd unat pgdir" "pgdir \<notin> set ps"
    "unat i < 1024 \<Longrightarrow> present (pde_of (mem s) pgdir i) \<Longrightarrow> table_of (pde_of (mem s) pgdir i) \<noteq> pgdir"
    "unat i < 1024 \<Longrightarrow> present (pde_of (mem s) pgdir i) \<Longrightarrow> table_of (pde_of (mem s) pgdir i) \<noteq> 0"
    "unat i < 1024 \<Longrightarrow> present (pde_of (mem s) pgdir i) \<Longrightarrow> table_of (pde_of (mem s) pgdir i) \<notin> set ps"
    "unat i < 1024 \<Longrightarrow> unat j < 1024 \<Longrightarrow> present (pde_of (mem s) pgdir i) \<Longrightarrow> present (pde_of (mem s) pgdir j) \<Longrightarrow>
       table_of (pde_of (mem s) pgdir i) = table_of (pde_of (mem s) pgdir j) \<Longrightarrow> i = j"
  using assms unfolding vm_ok_def by blast+

lemma free_page_aligned: "free_pages s ps \<Longrightarrow> a \<in> set ps \<Longrightarrow> 4096 dvd unat a"
  by (auto simp: free_pages_def intro: page_ok_aligned)

lemma free_pages_store:
  assumes "free_pages s ps" "4096 dvd unat p" "p \<notin> set ps" "unat i < 1024"
  shows "free_pages (s\<lparr>mem := store32 (mem s) (p + 4 * i) v\<rparr>) ps"
proof -
  have "load32 (store32 (mem s) (p + 4 * i) v) a = load32 (mem s) a" if "a \<in> set ps" for a
    using load32_store32_slot [OF assms(2) free_page_aligned [OF assms(1) that] assms(4), of 0]
      that assms(3) by auto
  then have "fl_chain (store32 (mem s) (p + 4 * i) v) (freelist s) ps = fl_chain (mem s) (freelist s) ps"
    by (rule fl_chain_cong)
  then show ?thesis using assms(1) by (simp add: free_pages_def)
qed

lemma free_pages_memset:
  assumes "free_pages s ps" "4096 dvd unat p" "p \<notin> set ps"
  shows "free_pages (s\<lparr>mem := memset (mem s) p 0 PGSIZE\<rparr>) ps"
proof -
  have "load32 (memset (mem s) p 0 PGSIZE) a = load32 (mem s) a" if "a \<in> set ps" for a
    using load32_memset_slot [OF assms(2) free_page_aligned [OF assms(1) that], of 0]
      that assms(3) by auto
  then have "fl_chain (memset (mem s) p 0 PGSIZE) (freelist s) ps = fl_chain (mem s) (freelist s) ps"
    by (rule fl_chain_cong)
  then show ?thesis using assms(1) by (simp add: free_pages_def)
qed

lemma kmem_ready_mem [simp]: "kmem_ready (s\<lparr>mem := m\<rparr>) = kmem_ready s"
  by (simp add: kmem_ready_def wf_cpu_def)

text \<open>Writing one entry of an existing page table.\<close>

lemma set_pte:
  fixes v :: u32
  assumes ok: "vm_ok s pgdir ps" and pr: "present (pde_of (mem s) pgdir (PDX va))"
  defines "m' \<equiv> store32 (mem s) (table_of (pde_of (mem s) pgdir (PDX va)) + 4 * PTX va) v"
  shows "vm_ok (s\<lparr>mem := m'\<rparr>) pgdir ps"
    and "translate m' pgdir va' = (if same_page va va'
       then if present v then Some (PTE_ADDR v, PTE_FLAGS v) else None
       else translate (mem s) pgdir va')"
proof -
  let ?t = "table_of (pde_of (mem s) pgdir (PDX va))"
  note d = vm_okD [OF ok]
  have pde: "pde_of m' pgdir i = pde_of (mem s) pgdir i" if "unat i < 1024" for i
    using load32_store32_slot [OF table_aligned d(3) PTX_bound that] d(5) [OF PDX_bound pr]
    by (simp add: m'_def pde_of_def)
  have f: "free_pages (s\<lparr>mem := m'\<rparr>) ps"
    unfolding m'_def using d(2,7) pr by (intro free_pages_store) (simp_all add: PDX_bound PTX_bound)
  show "vm_ok (s\<lparr>mem := m'\<rparr>) pgdir ps"
    using f ok unfolding vm_ok_def by (simp add: pde)
  have te: "load32 m' (table_of (pde_of (mem s) pgdir (PDX va')) + 4 * PTX va') =
      (if same_page va va' then v else load32 (mem s) (table_of (pde_of (mem s) pgdir (PDX va')) + 4 * PTX va'))"
    if "present (pde_of (mem s) pgdir (PDX va'))"
    using load32_store32_slot [OF table_aligned table_aligned PTX_bound PTX_bound, of "mem s"]
      d(8) [OF PDX_bound PDX_bound pr that] by (auto simp: m'_def same_page_def)
  show "translate m' pgdir va' = (if same_page va va'
       then if present v then Some (PTE_ADDR v, PTE_FLAGS v) else None
       else translate (mem s) pgdir va')"
    using te pr unfolding translate_def Let_def pde [OF PDX_bound] by (auto simp: same_page_def)
qed

text \<open>Giving a directory slot a fresh, zeroed page table.\<close>

lemma new_table:
  assumes ok: "vm_ok s pgdir (a # ps)" and np: "\<not> present (pde_of (mem s) pgdir (PDX va))"
    and s1: "free_pages s1 ps" "kmem_ready s1" "mem s1 = mem s" "page_ok s1 = page_ok s"
  defines "m' \<equiv> store32 (memset (mem s) a 0 PGSIZE) (pde_addr pgdir va) (V2P a OR PTE_P OR PTE_W OR PTE_U)"
  shows "vm_ok (s1\<lparr>mem := m'\<rparr>) pgdir ps" "translate m' pgdir = translate (mem s) pgdir"
    "present (pde_of m' pgdir (PDX va))" "table_of (pde_of m' pgdir (PDX va)) = a"
    "\<not> present (load32 m' (a + 4 * PTX va))"
proof -
  let ?e = "V2P a OR PTE_P OR PTE_W OR PTE_U"
  note d = vm_okD [OF ok]
  have al: "4096 dvd unat a" using free_page_aligned [OF d(2)] by simp
  have a: "a \<noteq> pgdir" "a \<noteq> 0" "a \<notin> set ps"
    using d(2,4) page_ok_nonzero d(1) by (auto simp: free_pages_def kmem_ready_def)
  note e = present_table [OF al]
  have pde: "pde_of m' pgdir i = (if i = PDX va then ?e else pde_of (mem s) pgdir i)" if "unat i < 1024" for i
    using load32_store32_slot [OF d(3,3) PDX_bound that] load32_memset_slot [OF al d(3) that, of "mem s"] a(1)
    by (auto simp: m'_def pde_of_def pde_addr_def)
  have tab: "load32 m' (t + 4 * j) = (if t = a then 0 else load32 (mem s) (t + 4 * j))"
    if "t \<noteq> pgdir" "4096 dvd unat t" "unat j < 1024" for t j
    using load32_store32_slot [OF d(3) that(2) PDX_bound that(3)] load32_memset_slot [OF al that(2,3), of "mem s"] that(1)
    by (auto simp: m'_def pde_addr_def)
  have old: "table_of (pde_of (mem s) pgdir i) \<noteq> a" if "unat i < 1024" "present (pde_of (mem s) pgdir i)" for i
    using d(7) [OF that] by auto
  have "free_pages (s1\<lparr>mem := memset (mem s) a 0 PGSIZE\<rparr>) ps"
    using free_pages_memset [OF s1(1) al a(3)] s1(3) by simp
  from free_pages_store [OF this d(3) _ PDX_bound] d(4) have f: "free_pages (s1\<lparr>mem := m'\<rparr>) ps"
    by (simp add: m'_def pde_addr_def)
  show p: "present (pde_of m' pgdir (PDX va))" "table_of (pde_of m' pgdir (PDX va)) = a"
    using e pde [OF PDX_bound, of va] by simp_all
  show "\<not> present (load32 m' (a + 4 * PTX va))"
    using tab [OF a(1) al PTX_bound] by simp
  have "table_of (pde_of m' pgdir i) \<noteq> pgdir \<and> table_of (pde_of m' pgdir i) \<noteq> 0
      \<and> table_of (pde_of m' pgdir i) \<notin> set ps"
    if "unat i < 1024" "present (pde_of m' pgdir i)" for i
    using that e a d(5,6,7) [of i] by (auto simp: pde split: if_splits)
  moreover have "i = j" if "unat i < 1024" "unat j < 1024" "present (pde_of m' pgdir i)"
      "present (pde_of m' pgdir j)" "table_of (pde_of m' pgdir i) = table_of (pde_of m' pgdir j)" for i j
    using that old [of i] old [of j] e d(8) [of i j] by (auto simp: pde split: if_splits)
  ultimately show "vm_ok (s1\<lparr>mem := m'\<rparr>) pgdir ps"
    using f s1(2) d(3,4) unfolding vm_ok_def by simp
  show "translate m' pgdir = translate (mem s) pgdir"
  proof
    fix va'
    show "translate m' pgdir va' = translate (mem s) pgdir va'"
      using np e tab [OF a(1) al PTX_bound] tab [OF d(5) table_aligned PTX_bound, OF PDX_bound, of va'] old [OF PDX_bound, of va']
      by (auto simp: translate_def Let_def pde [OF PDX_bound])
  qed
qed

lemma walkpgdir_alloc:
  assumes ok: "vm_ok s pgdir ps"
  obtains (full) s' where "walkpgdir pgdir va True s = Ok (0, s')" "ps = []" "vm_ok s' pgdir []" "mem s' = mem s"
    "translate (mem s) pgdir va = None"
  | (found) s' ps' where "walkpgdir pgdir va True s = Ok (table_of (pde_of (mem s') pgdir (PDX va)) + 4 * PTX va, s')"
    "present (pde_of (mem s') pgdir (PDX va))" "vm_ok s' pgdir ps'" "set ps' \<subseteq> set ps"
    "translate (mem s') pgdir = translate (mem s) pgdir"
proof (cases "present (pde_of (mem s) pgdir (PDX va))")
  case True
  then have "walkpgdir pgdir va True s = Ok (table_of (pde_of (mem s) pgdir (PDX va)) + 4 * PTX va, s)"
    by (simp add: walkpgdir_def present_def pde_of_def pde_addr_def table_of_def)
  then show thesis using found [of s ps] True ok by simp
next
  case False
  note d = vm_okD [OF ok]
  have w: "walkpgdir pgdir va True s = andThen (kalloc s) (\<lambda>(pgtab, s).
        if pgtab = 0 then Ok (0, s)
        else Ok (pgtab + 4 * PTX va, s\<lparr>mem := store32 (memset (mem s) pgtab 0 PGSIZE) (pde_addr pgdir va) (V2P pgtab OR PTE_P OR PTE_W OR PTE_U)\<rparr>))"
    using False by (simp add: walkpgdir_def present_def pde_of_def pde_addr_def Let_def cong: if_cong)
  obtain s1 where s1: "kalloc s = Ok (case ps of [] \<Rightarrow> 0 | a # _ \<Rightarrow> a, s1)" "free_pages s1 (tl ps)"
    "kmem_ready s1" "page_ok s1 = page_ok s" "mem s1 = mem s"
    using kalloc_pages [OF d(1,2)] by metis
  show thesis
  proof (cases ps)
    case Nil
    then have "vm_ok s1 pgdir []" using s1 ok by (simp add: vm_ok_def)
    then show thesis using full [of s1] Nil w s1 False by (simp add: translate_def)
  next
    case (Cons a ps')
    note n = new_table [OF ok [unfolded Cons] False _ s1(3,5,4), OF s1(2) [unfolded Cons list.sel]]
    have "a \<noteq> 0" using d(2) Cons d(1) page_ok_nonzero by (auto simp: free_pages_def kmem_ready_def)
    then have "walkpgdir pgdir va True s = Ok (a + 4 * PTX va, s1\<lparr>mem := store32 (memset (mem s) a 0 PGSIZE)
        (pde_addr pgdir va) (V2P a OR PTE_P OR PTE_W OR PTE_U)\<rparr>)" (is "_ = Ok (_, ?s')")
      using w s1(1,5) Cons by simp
    then show thesis using n Cons by (intro found [of ?s' ps']) auto
  qed
qed

section \<open>Mapping a range\<close>

lemma PDX_PGROUNDDOWN [simp]: "PDX (PGROUNDDOWN a) = PDX a" and PTX_PGROUNDDOWN [simp]: "PTX (PGROUNDDOWN a) = PTX a"
proof -
  have m: "(PGSIZE - 1) = mask 12" by (simp add: PGSIZE_def mask_FFF)
  show "PDX (PGROUNDDOWN a) = PDX a" "PTX (PGROUNDDOWN a) = PTX a"
    unfolding PDX_def PTX_def PGROUNDDOWN_def m mask_3FF
    by (rule bit_word_eqI; auto simp: bit_simps)+
qed

lemma PGROUNDDOWN_aligned [simp]: "4096 dvd unat (PGROUNDDOWN a)"
  by (simp add: unat_PGROUNDDOWN)

lemma PGROUNDDOWN_self: "4096 dvd unat a \<Longrightarrow> PGROUNDDOWN a = a"
  using PTE_ADDR_self by (simp add: PTE_ADDR_eq)

lemma same_page_iff: "same_page a b \<longleftrightarrow> PGROUNDDOWN a = PGROUNDDOWN b"
proof
  have z: "PGROUNDDOWN x AND 0xFFF = 0" for x
    using PTE_FLAGS_aligned [of "PGROUNDDOWN x"] by (simp add: PTE_FLAGS_def)
  assume "same_page a b"
  then show "PGROUNDDOWN a = PGROUNDDOWN b"
    using PGADDR_split [of "PGROUNDDOWN a"] PGADDR_split [of "PGROUNDDOWN b"] by (simp add: same_page_def z)
next
  assume "PGROUNDDOWN a = PGROUNDDOWN b"
  then show "same_page a b"
    unfolding same_page_def using PDX_PGROUNDDOWN PTX_PGROUNDDOWN by metis
qed

text \<open>The addresses in the \<open>n + 1\<close> pages from \<open>a\<close>.\<close>

definition in_pages :: "u32 \<Rightarrow> nat \<Rightarrow> u32 \<Rightarrow> bool" where
  "in_pages a n va \<longleftrightarrow> unat (PGROUNDDOWN va - a) \<le> n * 4096"

lemma diff_aligned:
  assumes "4096 dvd unat a" "4096 dvd unat b"
  shows "4096 dvd unat (a - b :: u32)"
  using assms unfolding unat_diff_u32 by (auto intro: dvd_diff_nat dvd_add)

lemma in_pages_Suc:
  assumes "4096 dvd unat a" "Suc n * 4096 < 2 ^ 32"
  shows "in_pages a (Suc n) va \<longleftrightarrow> same_page a va \<or> in_pages (a + PGSIZE) n va"
    and "in_pages (a + PGSIZE) n va \<Longrightarrow> \<not> same_page a va"
proof -
  let ?x = "PGROUNDDOWN va - a"
  have x: "4096 dvd unat ?x" using assms(1) by (intro diff_aligned) simp_all
  have e: "PGROUNDDOWN va - (a + PGSIZE) = ?x - 4096" by (simp add: PGSIZE_def diff_diff_eq)
  have s: "same_page a va \<longleftrightarrow> ?x = 0" using assms(1) by (auto simp: same_page_iff PGROUNDDOWN_self)
  have u: "unat (?x - 4096) = (if ?x = 0 then 2 ^ 32 - 4096 else unat ?x - 4096)"
  proof (cases "?x = 0")
    case True
    then show ?thesis unfolding True by (simp add: unat_diff_u32 [of 0])
  next
    case False
    then have "4096 \<le> unat ?x" using x by (metis dvd_imp_le gr0I unat_eq_zero)
    then show ?thesis using False by (subst unat_diff_u32) simp
  qed
  show "in_pages (a + PGSIZE) n va \<Longrightarrow> \<not> same_page a va"
    using assms(2) by (auto simp: in_pages_def e u s split: if_splits)
  show "in_pages a (Suc n) va \<longleftrightarrow> same_page a va \<or> in_pages (a + PGSIZE) n va"
    using assms(2) by (auto simp: in_pages_def e u s split: if_splits)
qed

lemma in_pages_0: "4096 dvd unat a \<Longrightarrow> in_pages a 0 va \<longleftrightarrow> same_page a va"
  by (auto simp: in_pages_def same_page_iff PGROUNDDOWN_self unat_eq_zero)

lemma in_pages_self: "4096 dvd unat a \<Longrightarrow> in_pages a n a"
  by (simp add: in_pages_def PGROUNDDOWN_self)

lemma mappages_step:
  assumes ok: "vm_ok s pgdir ps" and pa: "4096 dvd unat pa" "perm_ok perm"
    and um: "translate (mem s) pgdir a = None"
  obtains (full) s' where "mappages_from (Suc f) pgdir a l pa perm s = Ok (- 1, s')" "vm_ok s' pgdir []"
      "translate (mem s') pgdir = translate (mem s) pgdir"
  | (mapped) s' ps' where "mappages_from (Suc f) pgdir a l pa perm s =
        (if a = l then Ok (0, s') else mappages_from f pgdir (a + PGSIZE) l (pa + PGSIZE) perm s')"
      "vm_ok s' pgdir ps'" "set ps' \<subseteq> set ps"
      "\<And>va. translate (mem s') pgdir va =
         (if same_page a va then Some (pa, perm OR PTE_P) else translate (mem s) pgdir va)"
  using ok
proof (cases rule: walkpgdir_alloc [where va = a])
  case (full s')
  then show thesis using that(1) by simp
next
  case (found s1 ps1)
  let ?pte = "table_of (pde_of (mem s1) pgdir (PDX a)) + 4 * PTX a"
  let ?s2 = "s1\<lparr>mem := store32 (mem s1) ?pte (pa OR perm OR PTE_P)\<rparr>"
  have np: "\<not> present (load32 (mem s1) ?pte)"
    using um found(2) unfolding found(5) [symmetric] by (auto simp: translate_def Let_def split: if_splits)
  have nz: "?pte \<noteq> 0"
    using slot_inj [OF table_aligned, of 0 "PTX a" 0] vm_okD(6) [OF found(3) PDX_bound found(2)] PTX_bound by auto
  show thesis
  proof (rule that(2) [of ?s2 ps1])
    show "mappages_from (Suc f) pgdir a l pa perm s =
        (if a = l then Ok (0, ?s2) else mappages_from f pgdir (a + PGSIZE) l (pa + PGSIZE) perm ?s2)"
      using np nz found(1) by (simp add: present_def)
    show "vm_ok ?s2 pgdir ps1" by (rule set_pte(1) [OF found(3,2)])
    show "translate (mem ?s2) pgdir va =
         (if same_page a va then Some (pa, perm OR PTE_P) else translate (mem s) pgdir va)" for va
      using set_pte(2) [OF found(3,2), of "pa OR perm OR PTE_P" va] pte_parts [OF pa] found(5) by simp
  qed (rule found(4))
qed

lemma same_page_self: "4096 dvd unat a \<Longrightarrow> same_page a va \<Longrightarrow> PGROUNDDOWN va = a"
  by (simp add: same_page_iff PGROUNDDOWN_self)

lemma aligned_next: "4096 dvd unat a \<Longrightarrow> 4096 dvd unat (a + PGSIZE)"
proof -
  assume a: "4096 dvd unat a"
  have "unat (a + PGSIZE) = (unat a + 4096) mod 2 ^ 32" by (simp add: PGSIZE_def unat_word_ariths)
  moreover have "4096 dvd unat a + 4096" using a by (intro dvd_add) simp_all
  moreover have "4096 dvd (2::nat) ^ 32" by simp
  ultimately show ?thesis using dvd_mod by metis
qed

lemma mappages_from_ok:
  assumes "vm_ok s pgdir ps" "4096 dvd unat a" "4096 dvd unat pa" "perm_ok perm"
    "n * 4096 < 2 ^ 32" "n < fuel" "\<forall>va. in_pages a n va \<longrightarrow> translate (mem s) pgdir va = None"
  shows "\<exists>r s' ps'. mappages_from fuel pgdir a (a + of_nat n * PGSIZE) pa perm s = Ok (r, s')
     \<and> vm_ok s' pgdir ps' \<and> set ps' \<subseteq> set ps
     \<and> (\<forall>va. \<not> in_pages a n va \<longrightarrow> translate (mem s') pgdir va = translate (mem s) pgdir va)
     \<and> (r = 0 \<and> (\<forall>va. in_pages a n va \<longrightarrow>
             translate (mem s') pgdir va = Some (pa + (PGROUNDDOWN va - a), perm OR PTE_P))
        \<or> r = - 1 \<and> ps' = [])"
  using assms
proof (induction n arbitrary: s ps a pa fuel)
  case 0
  then obtain f where f: "fuel = Suc f" by (cases fuel) auto
  have um: "translate (mem s) pgdir a = None" using 0(7) in_pages_self [OF 0(2)] by blast
  from 0(1,3,4) um show ?case
    by (cases rule: mappages_step [where f = f and l = a])
      (fastforce simp: f in_pages_0 [OF 0(2)] dest: same_page_self [OF 0(2)])+
next
  case (Suc n)
  then obtain f where f: "fuel = Suc f" "n < f" by (cases fuel) auto
  have nl: "Suc n * 4096 < 2 ^ 32" "n * 4096 < 2 ^ 32" using Suc.prems(5) by simp_all
  note ip = in_pages_Suc [OF Suc.prems(2) nl(1)]
  let ?l = "a + of_nat (Suc n) * PGSIZE"
  have um: "translate (mem s) pgdir a = None" using Suc.prems(7) in_pages_self [OF Suc.prems(2)] by blast
  have "unat (of_nat (Suc n) * PGSIZE) = Suc n * 4096"
    using nl unat_range_page [of 0 "Suc n"] by simp
  then have "of_nat (Suc n) * PGSIZE \<noteq> 0" by (metis Zero_not_Suc mult_is_0 unat_0 zero_neq_numeral)
  then have ne: "a \<noteq> ?l" by (metis add_cancel_left_right)
  have l: "?l = (a + PGSIZE) + of_nat n * PGSIZE" by (simp add: algebra_simps)
  from Suc.prems(1,3,4) um show ?case
  proof (cases rule: mappages_step [where f = f and l = ?l])
    case (full s')
    then show ?thesis using f by auto
  next
    case (mapped s1 ps1)
    have "\<forall>va. in_pages (a + PGSIZE) n va \<longrightarrow> translate (mem s1) pgdir va = None"
      using Suc.prems(7) ip mapped(4) by auto
    from Suc.IH [OF mapped(2) aligned_next [OF Suc.prems(2)] aligned_next [OF Suc.prems(3)] Suc.prems(4) nl(2) f(2) this]
    obtain r s' ps' where r: "mappages_from f pgdir (a + PGSIZE) ?l (pa + PGSIZE) perm s1 = Ok (r, s')"
      "vm_ok s' pgdir ps'" "set ps' \<subseteq> set ps1"
      "\<forall>va. \<not> in_pages (a + PGSIZE) n va \<longrightarrow> translate (mem s') pgdir va = translate (mem s1) pgdir va"
      "r = 0 \<and> (\<forall>va. in_pages (a + PGSIZE) n va \<longrightarrow>
             translate (mem s') pgdir va = Some (pa + PGSIZE + (PGROUNDDOWN va - (a + PGSIZE)), perm OR PTE_P))
        \<or> r = - 1 \<and> ps' = []" unfolding l by blast
    have e: "pa + PGSIZE + (PGROUNDDOWN va - (a + PGSIZE)) = pa + (PGROUNDDOWN va - a)" for va by simp
    have "translate (mem s') pgdir va = translate (mem s) pgdir va" if "\<not> in_pages a (Suc n) va" for va
      using that r(4) mapped(4) ip by simp
    moreover have "translate (mem s') pgdir va = Some (pa + (PGROUNDDOWN va - a), perm OR PTE_P)"
      if "r = 0" "in_pages a (Suc n) va" for va
      using that r(4,5) mapped(4) ip same_page_self [OF Suc.prems(2)] unfolding e by auto
    moreover have "mappages_from fuel pgdir a ?l pa perm s = Ok (r, s')"
      using mapped(1) r(1) ne f(1) by simp
    ultimately show ?thesis using r(2,3,5) mapped(3) by blast
  qed
qed

section \<open>Properties\<close>

text \<open>The number of pages after the first that \<^verbatim>\<open>mappages\<close> covers.\<close>

definition range_len :: "u32 \<Rightarrow> u32 \<Rightarrow> nat" where
  "range_len va sz = unat (PGROUNDDOWN (va + sz - 1) - PGROUNDDOWN va) div 4096"

lemma range_last:
  "PGROUNDDOWN (va + sz - 1) = PGROUNDDOWN va + of_nat (range_len va sz) * PGSIZE"
  "range_len va sz * 4096 < 2 ^ 32" "range_len va sz < VM_FUEL"
proof -
  let ?x = "PGROUNDDOWN (va + sz - 1) - PGROUNDDOWN va"
  have d: "4096 dvd unat ?x" by (intro diff_aligned) simp_all
  have u: "range_len va sz * 4096 = unat ?x" using d by (simp add: range_len_def)
  then show lt: "range_len va sz * 4096 < 2 ^ 32" using unsigned_less [of ?x, where ?'a = nat] by simp
  then show "range_len va sz < VM_FUEL" by (simp add: VM_FUEL_def)
  have "unat (0 + of_nat (range_len va sz) * PGSIZE) = unat ?x"
    using unat_range_page [of 0 "range_len va sz"] lt u by simp
  then have "of_nat (range_len va sz) * PGSIZE = ?x" by (simp add: word_unat_eq_iff)
  then show "PGROUNDDOWN (va + sz - 1) = PGROUNDDOWN va + of_nat (range_len va sz) * PGSIZE" by simp
qed

text \<open>
  C8. \<^verbatim>\<open>mappages\<close> on an unmapped range never trips the remap check: it either maps every page of the
  range to the corresponding page frame with the given permissions, or fails with -1 when no
  page is left for a page table; the translation of every address outside the range is
  unchanged, and the directory stays well formed.
\<close>

theorem mappages_maps:
  assumes "vm_ok s pgdir ps" "4096 dvd unat pa" "perm_ok perm"
    "\<forall>x. in_pages (PGROUNDDOWN va) (range_len va sz) x \<longrightarrow> translate (mem s) pgdir x = None"
  shows "\<exists>r s' ps'. mappages pgdir va sz pa perm s = Ok (r, s') \<and> vm_ok s' pgdir ps' \<and> set ps' \<subseteq> set ps
     \<and> (\<forall>x. \<not> in_pages (PGROUNDDOWN va) (range_len va sz) x \<longrightarrow>
           translate (mem s') pgdir x = translate (mem s) pgdir x)
     \<and> (r = 0 \<and> (\<forall>x. in_pages (PGROUNDDOWN va) (range_len va sz) x \<longrightarrow>
             translate (mem s') pgdir x = Some (pa + (PGROUNDDOWN x - PGROUNDDOWN va), perm OR PTE_P))
        \<or> r = - 1 \<and> ps' = [])"
  using mappages_from_ok [OF assms(1) _ assms(2,3) range_last(2,3) assms(4)]
  unfolding mappages_def range_last(1) by simp

lemma vm_example_ok: "vm_ok (kmem_example\<lparr>mem := (\<lambda>_. 0)\<rparr>) 0x80402000 [0x80400000]"
proof -
  have "load32 (\<lambda>_. 0) a = 0" for a by (simp add: load32_def)
  then show ?thesis using kmem_example_ok
    by (simp add: vm_ok_def pde_of_def present_def free_pages_def)
qed

theorem mappages_maps_witness:
  "\<exists>r s'. mappages 0x80402000 0 4096 0x500000 PTE_W (kmem_example\<lparr>mem := (\<lambda>_. 0)\<rparr>) = Ok (r, s')
     \<and> (r = 0 \<and> translate (mem s') 0x80402000 0x123 = Some (0x500000, PTE_W OR PTE_P) \<or> r = - 1)"
proof -
  have z: "load32 (\<lambda>_. 0) a = 0" for a by (simp add: load32_def)
  have r: "range_len 0 4096 = 0" "PGROUNDDOWN 0x123 = 0" "PGROUNDDOWN 0 = 0"
    by (simp_all add: range_len_def PGROUNDDOWN_def PGSIZE_def)
  have t: "translate (\<lambda>_. 0) 0x80402000 x = None" for x by (simp add: translate_def pde_of_def z)
  have p: "perm_ok PTE_W" by (simp add: perm_ok_def PTE_ADDR_def PTE_W_def)
  show ?thesis
    using mappages_maps [OF vm_example_ok, of "0x500000" PTE_W 0 4096] p
    by (auto simp: t r in_pages_def)
qed

end
