(* ===== verification/Proc.thy ===== *)
theory Proc
  imports Vm
begin

text \<open>
  The process table and the scheduler (\<^verbatim>\<open>proc.c\<close>, \<^verbatim>\<open>proc.h\<close>): allocation of a slot, sleeping and
  waking, killing, yielding the CPU, the scheduling loop with its adaptive time slice, and the
  listings of \<^verbatim>\<open>procdump\<close> and \<^verbatim>\<open>ps\<close>. Creation, exit and reaping of processes, which also need
  files and address spaces, are in a later theory.

  A context switch leaves the code of one kernel thread and enters another. For a thread that
  calls \<^verbatim>\<open>sched()\<close>, the argument \<open>env\<close> is everything that happens until it is switched to
  again; for the scheduler, \<open>run p\<close> is everything process \<open>p\<close> does until it switches back. Both
  are arbitrary functions of the whole state, and what each side may assume of the other is
  stated in the predicates \<open>handed_over\<close> and \<open>gave_up\<close>.
\<close>

section \<open>Process table\<close>

datatype procstate = UNUSED | EMBRYO | SLEEPING | RUNNABLE | RUNNING | ZOMBIE

record proc =
  p_sz :: u32
  p_pgdir :: u32
  p_kstack :: u32
  p_state :: procstate
  p_pid :: u32
  p_parent :: "nat option"
  p_tf :: u32
  p_context :: u32
  p_chan :: chan
  p_killed :: bool
  p_ofile :: "nat option list"
  p_cwd :: "nat option"
  p_name :: string
  p_time_slice :: u32
  p_init_time :: u32
  p_terminate_time :: u32

record ptab = vm +
  procs :: "proc list"
  initproc :: "nat option"
  nextpid :: u32
  time_slice :: u32
  ticks :: u32
  forkret_addr :: u32
  trapret_addr :: u32

definition NPROC :: nat where "NPROC = 64"
definition NOFILE :: nat where "NOFILE = 16"
definition DEFAULT_TIME_SLICE :: u32 where "DEFAULT_TIME_SLICE = 3"

definition upd_proc :: "nat \<Rightarrow> (proc \<Rightarrow> proc) \<Rightarrow> 'a ptab_scheme \<Rightarrow> 'a ptab_scheme" where
  "upd_proc i f s = s\<lparr>procs := (procs s)[i := f (procs s ! i)]\<rparr>"

definition pinit :: "'a ptab_scheme \<Rightarrow> 'a ptab_scheme" where
  "pinit s = initlock PTABLE_LOCK s"

section \<open>Allocating a process\<close>

text \<open>The kernel stack of a new process: trap frame, return address, saved context.\<close>

definition CONTEXT_SIZE :: u32 where "CONTEXT_SIZE = 20"
definition CTX_ebp :: u32 where "CTX_ebp = 12"
definition CTX_eip :: u32 where "CTX_eip = 16"

definition allocproc_stack :: "nat \<Rightarrow> u32 \<Rightarrow> 'a ptab_scheme \<Rightarrow> 'a ptab_scheme" where
  "allocproc_stack p kst s =
     (let sp = kst + KSTACKSIZE;
          sp = sp - TF_SIZE;
          s = upd_proc p (\<lambda>q. q\<lparr>p_tf := sp\<rparr>) s;
          sp = sp - 4;
          s = s\<lparr>mem := store32 (mem s) sp (trapret_addr s)\<rparr>;
          sp = sp - CONTEXT_SIZE;
          s = upd_proc p (\<lambda>q. q\<lparr>p_context := sp\<rparr>) s;
          s = s\<lparr>mem := memset (mem s) sp 0 CONTEXT_SIZE\<rparr> in
      s\<lparr>mem := store32 (mem s) (sp + CTX_eip) (forkret_addr s)\<rparr>)"

definition allocproc :: "'a ptab_scheme \<Rightarrow> (nat option \<times> 'a ptab_scheme) res" where
  "allocproc s =
     andThen (acquire PTABLE_LOCK s) (\<lambda>s.
       case find_idx (\<lambda>p. p_state p = UNUSED) (procs s) of
         None \<Rightarrow> andThen (release PTABLE_LOCK s) (\<lambda>s. Ok (None, s))
       | Some p \<Rightarrow>
           let s = upd_proc p (\<lambda>q. q\<lparr>p_state := EMBRYO, p_init_time := ticks s, p_pid := nextpid s,
                     p_time_slice := 0, p_terminate_time := 0\<rparr>) s;
               s = s\<lparr>nextpid := nextpid s + 1\<rparr> in
           andThen (release PTABLE_LOCK s) (\<lambda>s.
           andThen (kalloc s) (\<lambda>(kst, s).
           let s = upd_proc p (\<lambda>q. q\<lparr>p_kstack := kst\<rparr>) s in
           if kst = 0 then Ok (None, upd_proc p (\<lambda>q. q\<lparr>p_state := UNUSED\<rparr>) s)
           else Ok (Some p, allocproc_stack p kst s))))"

section \<open>Giving up the CPU\<close>

definition sched :: "('a ptab_scheme \<Rightarrow> 'a ptab_scheme) \<Rightarrow> 'a ptab_scheme \<Rightarrow> 'a ptab_scheme res" where
  "sched env s =
     andThen (myproc s) (\<lambda>(p, s).
     andThen (holding PTABLE_LOCK s) (\<lambda>(h, s).
       if \<not> h then Panic ''sched ptable.lock''
       else andThen (mycpu s) (\<lambda>c.
         if ncli c \<noteq> 1 then Panic ''sched locks''
         else case p of
           None \<Rightarrow> Fault 0
         | Some i \<Rightarrow>
             if p_state (procs s ! i) = RUNNING then Panic ''sched running''
             else if fl_if s then Panic ''sched interruptible''
             else
               let saved = intena c; s = env s in
               andThen (mycpu s) (\<lambda>c. Ok (s\<lparr>thiscpu := c\<lparr>intena := saved\<rparr>\<rparr>)))))"

definition yield :: "('a ptab_scheme \<Rightarrow> 'a ptab_scheme) \<Rightarrow> 'a ptab_scheme \<Rightarrow> 'a ptab_scheme res" where
  "yield env s =
     andThen (acquire PTABLE_LOCK s) (\<lambda>s.
     andThen (myproc s) (\<lambda>(p, s).
       case p of
         None \<Rightarrow> Fault 0
       | Some i \<Rightarrow>
           andThen (sched env (upd_proc i (\<lambda>q. q\<lparr>p_state := RUNNABLE\<rparr>) s)) (release PTABLE_LOCK)))"

section \<open>Sleeping and waking\<close>

definition sleep ::
    "('a ptab_scheme \<Rightarrow> 'a ptab_scheme) \<Rightarrow> chan \<Rightarrow> lockid option \<Rightarrow> 'a ptab_scheme \<Rightarrow> 'a ptab_scheme res" where
  "sleep env ch lk s =
     andThen (myproc s) (\<lambda>(p, s).
       case p of
         None \<Rightarrow> Panic ''sleep''
       | Some i \<Rightarrow>
           (case lk of
              None \<Rightarrow> Panic ''sleep without lk''
            | Some l \<Rightarrow>
                andThen (if l \<noteq> PTABLE_LOCK
                         then andThen (acquire PTABLE_LOCK s) (release l) else Ok s) (\<lambda>s.
                let s = upd_proc i (\<lambda>q. q\<lparr>p_chan := ch, p_state := SLEEPING\<rparr>) s in
                andThen (sched env s) (\<lambda>s.
                let s = upd_proc i (\<lambda>q. q\<lparr>p_chan := CHAN_NULL\<rparr>) s in
                if l \<noteq> PTABLE_LOCK
                then andThen (release PTABLE_LOCK s) (acquire l) else Ok s))))"

definition wakeup1 :: "chan \<Rightarrow> 'a ptab_scheme \<Rightarrow> 'a ptab_scheme" where
  "wakeup1 ch s =
     s\<lparr>procs := map (\<lambda>q. if p_state q = SLEEPING \<and> p_chan q = ch then q\<lparr>p_state := RUNNABLE\<rparr> else q) (procs s)\<rparr>"

definition wakeup :: "chan \<Rightarrow> 'a ptab_scheme \<Rightarrow> 'a ptab_scheme res" where
  "wakeup ch s = andThen (acquire PTABLE_LOCK s) (\<lambda>s. release PTABLE_LOCK (wakeup1 ch s))"

definition kill :: "u32 \<Rightarrow> 'a ptab_scheme \<Rightarrow> (int \<times> 'a ptab_scheme) res" where
  "kill pid s =
     andThen (acquire PTABLE_LOCK s) (\<lambda>s.
       case find_idx (\<lambda>p. p_pid p = pid) (procs s) of
         Some i \<Rightarrow>
           let s = upd_proc i (\<lambda>q. q\<lparr>p_killed := True\<rparr>) s;
               s = (if p_state (procs s ! i) = SLEEPING
                    then upd_proc i (\<lambda>q. q\<lparr>p_state := RUNNABLE\<rparr>) s else s) in
           andThen (release PTABLE_LOCK s) (\<lambda>s. Ok (0, s))
       | None \<Rightarrow> andThen (release PTABLE_LOCK s) (\<lambda>s. Ok (- 1, s)))"

section \<open>The scheduler\<close>

definition set_cpu_proc :: "nat option \<Rightarrow> 'a ptab_scheme \<Rightarrow> 'a ptab_scheme" where
  "set_cpu_proc p s = s\<lparr>thiscpu := (thiscpu s)\<lparr>proc := p\<rparr>\<rparr>"

definition turnaround_fmt :: string where
  "turnaround_fmt = ''turnaround time is for process %s (pid = %d) is %d'' @ [CHR 0x0A, CHR 0x0A]"

fun scheduler_scan ::
    "(nat \<Rightarrow> 'a ptab_scheme \<Rightarrow> 'a ptab_scheme) \<Rightarrow> nat list \<Rightarrow> nat \<Rightarrow> 'a ptab_scheme \<Rightarrow> (nat \<times> 'a ptab_scheme) res" where
  "scheduler_scan run [] terminated s = Ok (terminated, s)"
| "scheduler_scan run (p # ps) terminated s =
     (if p_state (procs s ! p) \<noteq> RUNNABLE then scheduler_scan run ps terminated s
      else
        let s = set_cpu_proc (Some p) s in
        andThen (switchuvm (p_kstack (procs s ! p)) (p_pgdir (procs s ! p)) s) (\<lambda>s.
        let s = upd_proc p (\<lambda>q. q\<lparr>p_state := RUNNING\<rparr>) s;
            s = run p s;
            q = procs s ! p in
        andThen
          (if sint (p_terminate_time q) > 0 \<and> terminated = 0
           then andThen (cprintf turnaround_fmt
                  [AStr (Some (p_name q)), ANum (p_pid q), ANum (p_terminate_time q - p_init_time q)] s)
                  (\<lambda>s. Ok (terminated + 1, s))
           else Ok (terminated, s)) (\<lambda>(terminated, s).
        scheduler_scan run ps terminated (set_cpu_proc None (switchkvm s)))))"

definition next_time_slice :: "u32 \<Rightarrow> u32" where
  "next_time_slice t = (if sint t > 1000000 then 2 else t * 2)"

definition scheduler_round ::
    "(nat \<Rightarrow> 'a ptab_scheme \<Rightarrow> 'a ptab_scheme) \<Rightarrow> 'a ptab_scheme \<Rightarrow> 'a ptab_scheme res" where
  "scheduler_round run s =
     (let s = s\<lparr>fl_if := True\<rparr> in
      andThen (acquire PTABLE_LOCK s) (\<lambda>s.
      andThen (scheduler_scan run [0..<NPROC] 0 s) (\<lambda>(terminated, s).
      let s = (if terminated = 0 then s\<lparr>time_slice := next_time_slice (time_slice s)\<rparr> else s) in
      release PTABLE_LOCK s)))"

text \<open>The first \<open>n\<close> rounds of the endless loop.\<close>

primrec scheduler_rounds ::
    "nat \<Rightarrow> (nat \<Rightarrow> 'a ptab_scheme \<Rightarrow> 'a ptab_scheme) \<Rightarrow> 'a ptab_scheme \<Rightarrow> 'a ptab_scheme res" where
  "scheduler_rounds 0 run s = Ok s"
| "scheduler_rounds (Suc n) run s = andThen (scheduler_round run s) (scheduler_rounds n run)"

definition scheduler ::
    "nat \<Rightarrow> (nat \<Rightarrow> 'a ptab_scheme \<Rightarrow> 'a ptab_scheme) \<Rightarrow> 'a ptab_scheme \<Rightarrow> 'a ptab_scheme res" where
  "scheduler n run s = andThen (mycpu s) (\<lambda>_. scheduler_rounds n run (set_cpu_proc None s))"

section \<open>Lemmas\<close>

lemma upd_proc_sel [simp]:
  "length (procs (upd_proc i f s)) = length (procs s)"
  "thiscpu (upd_proc i f s) = thiscpu s" "fl_if (upd_proc i f s) = fl_if s" "held (upd_proc i f s) = held s"
  "mem (upd_proc i f s) = mem s" "nextpid (upd_proc i f s) = nextpid s" "time_slice (upd_proc i f s) = time_slice s"
  "ticks (upd_proc i f s) = ticks s" "initproc (upd_proc i f s) = initproc s"
  "i < length (procs s) \<Longrightarrow> procs (upd_proc i f s) ! i = f (procs s ! i)"
  "j \<noteq> i \<Longrightarrow> procs (upd_proc i f s) ! j = procs s ! j"
  by (simp_all add: upd_proc_def)

lemma upd_proc_nth:
  "p < length (procs s) \<Longrightarrow> procs (upd_proc p f s) ! i = (if i = p then f (procs s ! p) else procs s ! i)"
  by simp

lemma upd_proc_commute [simp]:
  "upd_proc i f (s\<lparr>thiscpu := c\<rparr>) = (upd_proc i f s)\<lparr>thiscpu := c\<rparr>"
  "upd_proc i f (s\<lparr>fl_if := b\<rparr>) = (upd_proc i f s)\<lparr>fl_if := b\<rparr>"
  "upd_proc i f (s\<lparr>held := h\<rparr>) = (upd_proc i f s)\<lparr>held := h\<rparr>"
  by (simp_all add: upd_proc_def)

lemma wf_upd_proc [simp]: "wf_cpu (upd_proc i f s) = wf_cpu s"
  by (simp add: wf_cpu_def)

text \<open>The CPU after a section of \<open>ptable.lock\<close> entered in state \<open>s\<close>.\<close>

abbreviation settled :: "'a machine_scheme \<Rightarrow> cpu" where
  "settled s \<equiv> cpu_settle (fl_if s) (thiscpu s)"

lemma wakeup1_sel [simp]:
  "thiscpu (wakeup1 ch s) = thiscpu s" "fl_if (wakeup1 ch s) = fl_if s" "held (wakeup1 ch s) = held s"
  "length (procs (wakeup1 ch s)) = length (procs s)" "mem (wakeup1 ch s) = mem s"
  by (simp_all add: wakeup1_def)

lemma wakeup1_nth:
  "i < length (procs s) \<Longrightarrow> procs (wakeup1 ch s) ! i =
     (if p_state (procs s ! i) = SLEEPING \<and> p_chan (procs s ! i) = ch
      then (procs s ! i)\<lparr>p_state := RUNNABLE\<rparr> else procs s ! i)"
  by (simp add: wakeup1_def)

lemma wakeup_eq:
  assumes "wf_cpu s" "\<not> held s PTABLE_LOCK"
  shows "wakeup ch s = Ok ((wakeup1 ch s)\<lparr>thiscpu := settled s\<rparr>)"
  using assms by (simp add: wakeup_def acquire_eq release_eq wf_cpu_def) (simp add: wakeup1_def)

lemma kill_eq:
  assumes "wf_cpu s" "\<not> held s PTABLE_LOCK"
  shows "kill pid s = Ok (case find_idx (\<lambda>p. p_pid p = pid) (procs s) of
     None \<Rightarrow> (- 1, s\<lparr>thiscpu := settled s\<rparr>)
   | Some i \<Rightarrow> (0, (upd_proc i (\<lambda>q. q\<lparr>p_killed := True,
       p_state := (if p_state q = SLEEPING then RUNNABLE else p_state q)\<rparr>) s)\<lparr>thiscpu := settled s\<rparr>))"
proof (cases "find_idx (\<lambda>p. p_pid p = pid) (procs s)")
  case None
  then show ?thesis using assms by (simp add: kill_def acquire_eq release_eq wf_cpu_def)
next
  case (Some i)
  then have "i < length (procs s)" by (rule find_idx_SomeE)
  then show ?thesis using assms Some
    by (simp add: kill_def acquire_eq release_eq wf_cpu_def Let_def) (simp add: upd_proc_def)
qed

section \<open>The switch contract\<close>

definition gave_up :: "nat \<Rightarrow> 'a ptab_scheme \<Rightarrow> bool" where
  "gave_up i s \<longleftrightarrow> proc (thiscpu s) = Some i \<and> ncli (thiscpu s) = 1 \<and> \<not> fl_if s \<and> held s PTABLE_LOCK
     \<and> p_state (procs s ! i) \<noteq> RUNNING"

definition handed_over :: "nat \<Rightarrow> 'a ptab_scheme \<Rightarrow> bool" where
  "handed_over i s \<longleftrightarrow> proc (thiscpu s) = Some i \<and> ncli (thiscpu s) = 1 \<and> \<not> fl_if s
     \<and> held s = (\<lambda>l. l = PTABLE_LOCK) \<and> length (procs s) = NPROC \<and> i < NPROC \<and> p_state (procs s ! i) = RUNNING"

lemma sched_eq:
  assumes "gave_up i s" "\<not> fl_if (env s)"
  shows "sched env s = Ok ((env s)\<lparr>thiscpu := (thiscpu (env s))\<lparr>intena := intena (thiscpu s)\<rparr>\<rparr>)"
proof -
  have c: "cpu_settle (fl_if s) (thiscpu s) = thiscpu s" "wf_cpu s"
    using assms(1) by (simp_all add: gave_up_def cpu_settle_def wf_cpu_def)
  then show ?thesis using assms by (simp add: sched_def myproc_eq holding_eq mycpu_def gave_up_def Let_def)
qed

text \<open>The state in which a thread that calls \<open>sleep\<close> holding only \<open>l\<close> gives up the CPU.\<close>

definition asleep :: "nat \<Rightarrow> chan \<Rightarrow> lockid \<Rightarrow> 'a ptab_scheme \<Rightarrow> 'a ptab_scheme" where
  "asleep i ch l s = (upd_proc i (\<lambda>q. q\<lparr>p_chan := ch, p_state := SLEEPING\<rparr>) s)\<lparr>
     held := (held s)(PTABLE_LOCK := True, l := (l = PTABLE_LOCK))\<rparr>"

lemma handed_over_state:
  "handed_over i s \<Longrightarrow> \<not> fl_if s" "handed_over i s \<Longrightarrow> wf_cpu s"
  "handed_over i s \<Longrightarrow> held s l = (l = PTABLE_LOCK)"
  by (simp_all add: handed_over_def wf_cpu_def)

lemma cpu_settle_nested: "ncli c \<noteq> 0 \<Longrightarrow> cpu_settle f c = c"
  by (simp add: cpu_settle_def)

lemma cpu_push_pop: "ncli c = 1 \<Longrightarrow> cpu_push (intena c) (cpu_pop c) = c"
  by (simp add: cpu_push_def cpu_pop_def)

lemma sleep_eq:
  assumes s: "proc (thiscpu s) = Some i" "ncli (thiscpu s) = 1" "\<not> fl_if s" "held s = (\<lambda>x. x = l)"
    and i: "i < length (procs s)" and l: "l \<noteq> PTABLE_LOCK"
    and t: "t = env (asleep i ch l s)" "handed_over i t"
  shows "sleep env ch (Some l) s = Ok ((upd_proc i (\<lambda>q. q\<lparr>p_chan := CHAN_NULL\<rparr>) t)\<lparr>
     held := (\<lambda>x. x = l), thiscpu := (thiscpu t)\<lparr>intena := intena (thiscpu s)\<rparr>\<rparr>)"
proof -
  let ?a = "s\<lparr>fl_if := False, held := (\<lambda>x. x = PTABLE_LOCK)\<rparr>"
  have wf: "wf_cpu s" and c: "cpu_settle f (thiscpu s) = thiscpu s" for f
    using s by (simp_all add: wf_cpu_def cpu_settle_def)
  have u: "(\<lambda>x. x = l)(PTABLE_LOCK := True, l := False) = (\<lambda>x. x = PTABLE_LOCK)"
    using l by (auto simp: fun_eq_iff)
  have r: "andThen (acquire PTABLE_LOCK s) (release l) = Ok ?a"
    using s wf l u by (simp add: acquire_eq release_eq wf_cpu_def c)
  have as: "upd_proc i (\<lambda>q. q\<lparr>p_chan := ch, p_state := SLEEPING\<rparr>) ?a = asleep i ch l s"
    using s l u by (simp add: asleep_def)
  have g: "gave_up i (asleep i ch l s)"
    using s i l by (simp add: gave_up_def asleep_def)
  have sch: "sched env (asleep i ch l s) = Ok (t\<lparr>thiscpu := (thiscpu t)\<lparr>intena := intena (thiscpu s)\<rparr>\<rparr>)"
    using sched_eq [OF g] handed_over_state(1) [OF t(2)] t(1) by (simp add: asleep_def)
  let ?c = "(thiscpu t)\<lparr>intena := intena (thiscpu s)\<rparr>"
  have pp: "cpu_push (intena (thiscpu s)) (cpu_pop ?c) = ?c"
    using t(2) cpu_push_pop [of ?c] by (simp add: handed_over_def)
  have ho: "held t = (\<lambda>x. x = PTABLE_LOCK)" "ncli (thiscpu t) = 1" "\<not> fl_if t"
    using t(2) by (simp_all add: handed_over_def)
  have h2: "(\<lambda>x. x = PTABLE_LOCK)(PTABLE_LOCK := False, l := True) = (\<lambda>x. x = l)" using l by (auto simp: fun_eq_iff)
  show ?thesis
    using s(1) wf l r as sch ho pp h2
    by (simp add: sleep_def myproc_eq c acquire_eq release_eq wf_cpu_def Let_def cpu_pop_def)
qed

lemma yield_eq:
  assumes s: "proc (thiscpu s) = Some i" "wf_cpu s" "ncli (thiscpu s) = 0" "held s = (\<lambda>_. False)"
    and i: "i < length (procs s)"
    and t: "t = env ((upd_proc i (\<lambda>q. q\<lparr>p_state := RUNNABLE\<rparr>) s)\<lparr>fl_if := False, held := (\<lambda>x. x = PTABLE_LOCK),
                     thiscpu := cpu_push (fl_if s) (thiscpu s)\<rparr>)" "handed_over i t"
  shows "yield env s = Ok (t\<lparr>held := (\<lambda>_. False), fl_if := fl_if s,
     thiscpu := (thiscpu t)\<lparr>intena := fl_if s, ncli := 0\<rparr>\<rparr>)"
proof -
  let ?g = "(upd_proc i (\<lambda>q. q\<lparr>p_state := RUNNABLE\<rparr>) s)\<lparr>fl_if := False, held := (\<lambda>x. x = PTABLE_LOCK),
                     thiscpu := cpu_push (fl_if s) (thiscpu s)\<rparr>"
  have h: "(\<lambda>_. False)(PTABLE_LOCK := True) = (\<lambda>x. x = PTABLE_LOCK)"
    "(\<lambda>x. x = PTABLE_LOCK)(PTABLE_LOCK := False) = (\<lambda>_. False)" by (auto simp: fun_eq_iff)
  have i1: "intena (cpu_push (fl_if s) (thiscpu s)) = fl_if s" using s(3) by (simp add: cpu_push_def)
  have g: "gave_up i ?g" using s i by (simp add: gave_up_def)
  have sch: "sched env ?g = Ok (t\<lparr>thiscpu := (thiscpu t)\<lparr>intena := fl_if s\<rparr>\<rparr>)"
    using sched_eq [OF g] handed_over_state(1) [OF t(2)] t(1) i1 by simp
  have ho: "held t = (\<lambda>x. x = PTABLE_LOCK)" "ncli (thiscpu t) = 1" "\<not> fl_if t"
    using t(2) by (simp_all add: handed_over_def)
  have c: "cpu_settle False (cpu_push (fl_if s) (thiscpu s)) = cpu_push (fl_if s) (thiscpu s)"
    using s(3) by (simp add: cpu_settle_def)
  show ?thesis
    using s sch ho h c by (simp add: yield_def acquire_eq release_eq myproc_eq wf_cpu_def cpu_pop_def)
qed

section \<open>The scheduling loop\<close>

definition slice_ok :: "u32 \<Rightarrow> bool" where
  "slice_ok t \<longleftrightarrow> 2 \<le> sint t \<and> sint t \<le> 2000000"

text \<open>What the scheduler relies on between two context switches.\<close>

definition sched_ok :: "'a ptab_scheme \<Rightarrow> bool" where
  "sched_ok s \<longleftrightarrow> ncli (thiscpu s) = 1 \<and> \<not> fl_if s \<and> held s = (\<lambda>l. l = PTABLE_LOCK)
     \<and> length (procs s) = NPROC \<and> \<not> panicked s \<and> cursor_ok s \<and> slice_ok (time_slice s)
     \<and> (\<forall>i<NPROC. p_state (procs s ! i) = RUNNABLE \<longrightarrow> p_kstack (procs s ! i) \<noteq> 0 \<and> p_pgdir (procs s ! i) \<noteq> 0)"

definition good_run :: "(nat \<Rightarrow> 'a ptab_scheme \<Rightarrow> 'a ptab_scheme) \<Rightarrow> bool" where
  "good_run run \<longleftrightarrow> (\<forall>i s. i < NPROC \<longrightarrow> sched_ok s \<longrightarrow> handed_over i s \<longrightarrow> sched_ok (run i s))"

lemma slice_next: "slice_ok t \<Longrightarrow> slice_ok (next_time_slice t)"
proof (cases "sint t > 1000000")
  case False
  assume a: "slice_ok t"
  have "sint (t * 2) = sint t * 2"
    using a False by (simp add: slice_ok_def sint_word_ariths signed_take_bit_int_eq_self)
  then show ?thesis using a False by (simp add: slice_ok_def next_time_slice_def)
qed (simp add: slice_ok_def next_time_slice_def)

lemma fl_if_off: "\<not> fl_if s \<Longrightarrow> s\<lparr>fl_if := False\<rparr> = s"
  by (rule machine.equality) simp_all

lemma switchuvm_eq:
  assumes "kst \<noteq> 0" "pd \<noteq> 0" "\<not> fl_if s" "0 < ncli (thiscpu s)"
  shows "\<exists>g ta. switchuvm kst pd s = Ok (s\<lparr>gdt := g, ts := ta, task_reg := SEG_TSS * 8, cr3 := V2P pd\<rparr>)"
  using assms by (simp add: switchuvm_def pushcli_eq popcli_eq Let_def cpu_settle_nested fl_if_off) blast

lemma sched_ok_cong [simp]:
  "sched_ok (s\<lparr>gdt := g\<rparr>) = sched_ok s" "sched_ok (s\<lparr>ts := ta\<rparr>) = sched_ok s"
  "sched_ok (s\<lparr>task_reg := r\<rparr>) = sched_ok s" "sched_ok (s\<lparr>cr3 := x\<rparr>) = sched_ok s"
  "sched_ok (set_cpu_proc p s) = sched_ok s" "sched_ok (switchkvm s) = sched_ok s"
  by (simp_all add: sched_ok_def cursor_ok_def set_cpu_proc_def switchkvm_def)

lemma sched_ok_cprintf:
  assumes "sched_ok s"
  shows "\<exists>s'. cprintf fmt args s = Ok s' \<and> sched_ok s'"
proof -
  have "wf_cpu s" "\<not> held s CONS_LOCK" "\<not> panicked s" "cursor_ok s"
    using assms by (simp_all add: sched_ok_def wf_cpu_def)
  from cprintf_ok [OF this, of fmt args] obtain p m where
    "cprintf fmt args s = Ok (s\<lparr>uart_out := uart_out s @ (if uart s then map of_char (cformat fmt args) else []),
           crt_pos := p, crt := m,
           thiscpu := (if cons_locking s then cpu_settle (fl_if s) (thiscpu s) else thiscpu s)\<rparr>)" (is "_ = Ok ?t")
    and p: "p < 24 * 80" by blast
  moreover have "sched_ok ?t" using assms p by (simp add: sched_ok_def cursor_ok_def)
  ultimately show ?thesis by blast
qed

lemma sched_ok_running:
  assumes "sched_ok s" "p < NPROC"
  shows "sched_ok (upd_proc p (\<lambda>q. q\<lparr>p_state := RUNNING\<rparr>) s)"
proof -
  have "panicked (upd_proc p f s) = panicked s" "cursor_ok (upd_proc p f s) = cursor_ok s" for f
    by (simp_all add: upd_proc_def cursor_ok_def)
  then show ?thesis using assms by (auto simp: sched_ok_def upd_proc_nth split: if_splits)
qed

lemma scheduler_scan_ok:
  assumes "good_run run" "sched_ok s" "\<forall>p\<in>set ps. p < NPROC" "t \<le> 1"
  shows "\<exists>t' s'. scheduler_scan run ps t s = Ok (t', s') \<and> sched_ok s' \<and> t' \<le> 1"
  using assms
proof (induction ps arbitrary: t s)
  case (Cons p ps)
  show ?case
  proof (cases "p_state (procs s ! p) = RUNNABLE")
    case True
    let ?s1 = "set_cpu_proc (Some p) s"
    have k: "p_kstack (procs ?s1 ! p) \<noteq> 0" "p_pgdir (procs ?s1 ! p) \<noteq> 0" "\<not> fl_if ?s1" "0 < ncli (thiscpu ?s1)"
      using Cons.prems True by (auto simp: sched_ok_def set_cpu_proc_def)
    obtain g ta where sw: "switchuvm (p_kstack (procs ?s1 ! p)) (p_pgdir (procs ?s1 ! p)) ?s1
        = Ok (?s1\<lparr>gdt := g, ts := ta, task_reg := SEG_TSS * 8, cr3 := V2P (p_pgdir (procs ?s1 ! p))\<rparr>)" (is "_ = Ok ?s2")
      using switchuvm_eq [OF k] by blast
    let ?s3 = "upd_proc p (\<lambda>q. q\<lparr>p_state := RUNNING\<rparr>) ?s2"
    have s2: "sched_ok ?s2" using Cons.prems by simp
    have s3: "sched_ok ?s3" using sched_ok_running [OF s2] Cons.prems by simp
    have "handed_over p ?s3"
      using s3 Cons.prems(2,3) by (simp add: handed_over_def sched_ok_def set_cpu_proc_def)
    then have s4: "sched_ok (run p ?s3)" using Cons.prems(1,3) s3 by (simp add: good_run_def)
    let ?q = "procs (run p ?s3) ! p"
    obtain s5 where s5: "cprintf turnaround_fmt [AStr (Some (p_name ?q)), ANum (p_pid ?q),
        ANum (p_terminate_time ?q - p_init_time ?q)] (run p ?s3) = Ok s5" "sched_ok s5"
      using sched_ok_cprintf [OF s4] by blast
    show ?thesis
    proof (cases "sint (p_terminate_time ?q) > 0 \<and> t = 0")
      case True
      then have "scheduler_scan run (p # ps) t s = scheduler_scan run ps 1 (set_cpu_proc None (switchkvm s5))"
        using \<open>p_state (procs s ! p) = RUNNABLE\<close> sw s5(1) by (simp add: Let_def)
      then show ?thesis using Cons.IH [of "set_cpu_proc None (switchkvm s5)" 1] Cons.prems s5(2) by simp
    next
      case False
      then have "scheduler_scan run (p # ps) t s = scheduler_scan run ps t (set_cpu_proc None (switchkvm (run p ?s3)))"
        using \<open>p_state (procs s ! p) = RUNNABLE\<close> sw by (auto simp: Let_def)
      then show ?thesis using Cons.IH [of "set_cpu_proc None (switchkvm (run p ?s3))" t] Cons.prems s4 by simp
    qed
  qed (use Cons in simp)
qed simp

text \<open>The scheduler's CPU between two rounds: no lock held, no process.\<close>

definition sched_ready :: "'a ptab_scheme \<Rightarrow> bool" where
  "sched_ready s \<longleftrightarrow> ncli (thiscpu s) = 0 \<and> held s = (\<lambda>_. False) \<and> length (procs s) = NPROC
     \<and> \<not> panicked s \<and> cursor_ok s \<and> slice_ok (time_slice s)
     \<and> (\<forall>i<NPROC. p_state (procs s ! i) = RUNNABLE \<longrightarrow> p_kstack (procs s ! i) \<noteq> 0 \<and> p_pgdir (procs s ! i) \<noteq> 0)"

lemma scheduler_round_ok:
  assumes "good_run run" "sched_ready s"
  shows "\<exists>s'. scheduler_round run s = Ok s' \<and> sched_ready s'"
proof -
  have h: "(\<lambda>_. False)(PTABLE_LOCK := True) = (\<lambda>x. x = PTABLE_LOCK)"
    "(\<lambda>x. x = PTABLE_LOCK)(PTABLE_LOCK := False) = (\<lambda>_. False)" by (auto simp: fun_eq_iff)
  let ?a = "s\<lparr>fl_if := False, thiscpu := cpu_push True (thiscpu s), held := (\<lambda>x. x = PTABLE_LOCK)\<rparr>"
  have acq: "acquire PTABLE_LOCK (s\<lparr>fl_if := True\<rparr>) = Ok ?a"
    using assms(2) h by (simp add: sched_ready_def acquire_eq wf_cpu_def)
  have "sched_ok ?a" using assms(2) by (simp add: sched_ready_def sched_ok_def cursor_ok_def)
  from scheduler_scan_ok [OF assms(1) this, of "[0..<NPROC]" 0] obtain t' s1
    where s1: "scheduler_scan run [0..<NPROC] 0 ?a = Ok (t', s1)" "sched_ok s1" by auto
  define s2 where "s2 = (if t' = 0 then s1\<lparr>time_slice := next_time_slice (time_slice s1)\<rparr> else s1)"
  have s2: "sched_ok s2" using s1(2) slice_next by (simp add: s2_def sched_ok_def cursor_ok_def)
  have "release PTABLE_LOCK s2 = Ok (s2\<lparr>held := (\<lambda>_. False), thiscpu := cpu_pop (thiscpu s2), fl_if := intena (thiscpu s2)\<rparr>)"
    using s2 h by (simp add: sched_ok_def release_eq wf_cpu_def)
  then have "scheduler_round run s = Ok (s2\<lparr>held := (\<lambda>_. False), thiscpu := cpu_pop (thiscpu s2), fl_if := intena (thiscpu s2)\<rparr>)"
    using acq s1(1) by (simp add: scheduler_round_def s2_def)
  then show ?thesis using s2 by (simp add: sched_ready_def sched_ok_def cursor_ok_def cpu_pop_def)
qed

lemma scheduler_rounds_ok:
  "good_run run \<Longrightarrow> sched_ready s \<Longrightarrow> \<exists>s'. scheduler_rounds n run s = Ok s' \<and> sched_ready s'"
proof (induction n arbitrary: s)
  case (Suc n)
  then obtain s1 where "scheduler_round run s = Ok s1" "sched_ready s1" using scheduler_round_ok by blast
  with Suc.IH [of s1] Suc.prems show ?case by simp
qed simp

section \<open>A new process\<close>

text \<open>Writes at an offset inside a page change no byte outside it.\<close>

lemma store32_inside:
  assumes "unat off + 4 \<le> 4096" "\<not> x - k < 4096"
  shows "store32 m (k + off) v x = m (x::u32)"
proof -
  have "x \<noteq> k + off + j" if "unat j < 4" for j
  proof
    assume "x = k + off + j"
    then have "x - k = off + j" by simp
    moreover have "unat (off + j) = unat off + unat j" using assms(1) that by (simp add: unat_word_ariths)
    ultimately show False using assms that by (simp add: word_less_nat_alt)
  qed
  from this [of 0] this [of 1] this [of 2] this [of 3] show ?thesis by (simp add: store32_def)
qed

lemma memset_inside:
  assumes "unat off + unat n \<le> 4096" "\<not> x - k < 4096"
  shows "memset m (k + off) c n x = m (x::u32)"
proof -
  have "\<not> x - (k + off) < n"
  proof
    assume l: "x - (k + off) < n"
    have u: "unat (off + y) = unat off + unat y" if "y < n" for y
      using assms(1) that by (simp add: unat_word_ariths word_less_nat_alt)
    have "off + (x - (k + off)) = x - k" by simp
    then have "unat (x - k) = unat off + unat (x - (k + off))" using u [OF l] by metis
    then show False using assms l by (simp add: word_less_nat_alt)
  qed
  then show ?thesis by (simp add: memset_apply)
qed

lemma free_pages_inside:
  assumes "free_pages s ps" "4096 dvd unat k" "k \<notin> set ps" "\<And>x. \<not> x - k < 4096 \<Longrightarrow> m x = mem s x"
  shows "free_pages (s\<lparr>mem := m\<rparr>) ps"
proof -
  have "load32 m a = load32 (mem s) a" if "a \<in> set ps" for a
  proof -
    have al: "4096 dvd unat a" "a \<noteq> k" using free_page_aligned [OF assms(1) that] that assms(3) by auto
    note o = page_outside [OF al(1) assms(2) al(2)]
    show ?thesis using o [of 0] o [of 1] o [of 2] o [of 3] assms(4) by (intro load32_cong) simp_all
  qed
  then have "fl_chain m (freelist s) ps = fl_chain (mem s) (freelist s) ps" by (rule fl_chain_cong)
  then show ?thesis using assms(1) by (simp add: free_pages_def)
qed

text \<open>The memory image of a fresh kernel stack at page \<open>k\<close>.\<close>

definition stack_image :: "memory \<Rightarrow> u32 \<Rightarrow> u32 \<Rightarrow> u32 \<Rightarrow> memory" where
  "stack_image m k tr fr = store32 (memset (store32 m (k + 4016) tr) (k + 3996) 0 20) (k + 4012) fr"

lemma stack_image_words:
  "load32 (stack_image m k tr fr) (k + 4016) = tr" "load32 (stack_image m k tr fr) (k + 4012) = fr"
proof -
  have "load32 (memset (store32 m (k + 4016) tr) (k + 3996) 0 20) (k + 4016) = load32 (store32 m (k + 4016) tr) (k + 4016)"
    by (rule load32_cong) (simp_all add: memset_apply)
  then show "load32 (stack_image m k tr fr) (k + 4016) = tr"
    unfolding stack_image_def by (subst load32_store32_other) simp_all
  show "load32 (stack_image m k tr fr) (k + 4012) = fr" unfolding stack_image_def by simp
qed

lemma stack_image_outside: "\<not> x - k < 4096 \<Longrightarrow> stack_image m k tr fr x = m x"
  unfolding stack_image_def by (simp add: store32_inside memset_inside)

lemma allocproc_stack_eq:
  "p < length (procs s) \<Longrightarrow> allocproc_stack p k s = (upd_proc p (\<lambda>q. q\<lparr>p_tf := k + 4020, p_context := k + 3996\<rparr>) s)\<lparr>
     mem := stack_image (mem s) k (trapret_addr s) (forkret_addr s)\<rparr>"
  by (simp add: allocproc_stack_def Let_def stack_image_def KSTACKSIZE_def TF_SIZE_def CONTEXT_SIZE_def CTX_eip_def
      upd_proc_def add.commute)

lemma kmem_upd_proc [simp]:
  "kmem_ready (upd_proc i f s) = kmem_ready s" "free_pages (upd_proc i f s) = free_pages s"
  "kmem_ready (s\<lparr>nextpid := n\<rparr>) = kmem_ready s" "free_pages (s\<lparr>nextpid := n\<rparr>) = free_pages s"
  by (simp_all add: kmem_ready_def wf_cpu_def free_pages_def page_ok_def upd_proc_def fun_eq_iff)

lemma kmem_settled [simp]:
  "kmem_ready (s\<lparr>thiscpu := settled s\<rparr>) = kmem_ready s" "free_pages (s\<lparr>thiscpu := c\<rparr>) = free_pages s"
  by (simp_all add: kmem_ready_def wf_cpu_def free_pages_def fun_eq_iff)

lemma allocproc_full:
  assumes "wf_cpu s" "\<not> held s PTABLE_LOCK" "\<forall>q\<in>set (procs s). p_state q \<noteq> UNUSED"
  shows "allocproc s = Ok (None, s\<lparr>thiscpu := settled s\<rparr>)"
proof -
  have "find_idx (\<lambda>p. p_state p = UNUSED) (procs s) = None" using assms(3) by (simp add: find_idx_None_iff)
  then show ?thesis using assms by (simp add: allocproc_def acquire_eq release_eq wf_cpu_def)
qed

lemma allocproc_eq:
  assumes "wf_cpu s" "\<not> held s PTABLE_LOCK" "kmem_ready s"
    and p: "find_idx (\<lambda>p. p_state p = UNUSED) (procs s) = Some p"
  defines "s1 \<equiv> (upd_proc p (\<lambda>q. q\<lparr>p_state := EMBRYO, p_init_time := ticks s, p_pid := nextpid s,
                     p_time_slice := 0, p_terminate_time := 0\<rparr>) s)\<lparr>nextpid := nextpid s + 1, thiscpu := settled s\<rparr>"
  shows "allocproc s = andThen (kalloc s1) (\<lambda>(kst, s).
           let s = upd_proc p (\<lambda>q. q\<lparr>p_kstack := kst\<rparr>) s in
           if kst = 0 then Ok (None, upd_proc p (\<lambda>q. q\<lparr>p_state := UNUSED\<rparr>) s)
           else Ok (Some p, allocproc_stack p kst s))"
  using assms(1,2) p
  by (simp add: allocproc_def acquire_eq release_eq wf_cpu_def Let_def s1_def) (simp add: upd_proc_def)

lemma allocproc_ok:
  assumes "wf_cpu s" "\<not> held s PTABLE_LOCK" "kmem_ready s" "free_pages s (k # ks)"
    and p: "find_idx (\<lambda>p. p_state p = UNUSED) (procs s) = Some p"
  shows "\<exists>s'. allocproc s = Ok (Some p, s') \<and> free_pages s' ks \<and> kmem_ready s' \<and> wf_cpu s'
    \<and> held s' = held s \<and> fl_if s' = fl_if s \<and> nextpid s' = nextpid s + 1
    \<and> mem s' = stack_image (mem s) k (trapret_addr s) (forkret_addr s)
    \<and> procs s' = (procs s)[p := (procs s ! p)\<lparr>p_state := EMBRYO, p_init_time := ticks s, p_pid := nextpid s,
         p_time_slice := 0, p_terminate_time := 0, p_kstack := k, p_tf := k + 4020, p_context := k + 3996\<rparr>]"
proof -
  let ?s1 = "(upd_proc p (\<lambda>q. q\<lparr>p_state := EMBRYO, p_init_time := ticks s, p_pid := nextpid s,
                     p_time_slice := 0, p_terminate_time := 0\<rparr>) s)\<lparr>nextpid := nextpid s + 1, thiscpu := settled s\<rparr>"
  have pl: "p < length (procs s)" using p by (rule find_idx_SomeE)
  have k1: "kmem_ready ?s1" "free_pages ?s1 (k # ks)"
    using assms(3,4) by (simp_all add: kmem_ready_def wf_cpu_def free_pages_def page_ok_def) (simp_all add: upd_proc_def)
  let ?s2 = "?s1\<lparr>freelist := load32 (mem s) k, thiscpu := kmem_cpu ?s1\<rparr>"
  have k0: "freelist s = k" "k \<noteq> 0" "k \<notin> set ks" "4096 dvd unat k"
    using assms(4) free_page_aligned [OF assms(4)] by (simp_all add: free_pages_def)
  have ka: "kalloc ?s1 = Ok (k, ?s2)"
    using kalloc_eq [OF k1(1)] k0(1,2) by simp (simp add: upd_proc_def)
  have f2: "free_pages ?s2 ks"
    using assms(4) by (simp add: free_pages_def page_ok_def) (simp add: upd_proc_def)
  let ?s3 = "upd_proc p (\<lambda>q. q\<lparr>p_kstack := k\<rparr>) ?s2"
  have r: "allocproc s = Ok (Some p, allocproc_stack p k ?s3)"
    using allocproc_eq [OF assms(1-3) p] ka k0 by (simp add: Let_def)
  have st: "allocproc_stack p k ?s3 = (upd_proc p (\<lambda>q. q\<lparr>p_tf := k + 4020, p_context := k + 3996\<rparr>) ?s3)\<lparr>
     mem := stack_image (mem s) k (trapret_addr s) (forkret_addr s)\<rparr>" (is "_ = ?s4")
    using allocproc_stack_eq [of p ?s3 k] pl by (simp add: upd_proc_def)
  have "free_pages (?s2\<lparr>mem := stack_image (mem s) k (trapret_addr s) (forkret_addr s)\<rparr>) ks"
    using stack_image_outside by (intro free_pages_inside [OF f2 k0(4,3)]) simp
  then have "free_pages ?s4 ks" by (simp add: free_pages_def page_ok_def) (simp add: upd_proc_def)
  moreover have "kmem_ready ?s4" "wf_cpu ?s4"
    using k1(1) assms(1) by (simp_all add: kmem_ready_def wf_cpu_def kmem_cpu_def) (simp_all add: upd_proc_def)
  ultimately show ?thesis using r st pl by (simp add: upd_proc_def)
qed

text \<open>
  Process ids are handed out once: every slot, in use or not, has a pid below the next one, a
  process in use has a nonzero pid, and no two slots share a nonzero pid.
\<close>

definition pids_ok :: "'a ptab_scheme \<Rightarrow> bool" where
  "pids_ok s \<longleftrightarrow> length (procs s) = NPROC
     \<and> (\<forall>i<NPROC. p_pid (procs s ! i) < nextpid s \<and> (p_state (procs s ! i) \<noteq> UNUSED \<longrightarrow> p_pid (procs s ! i) \<noteq> 0))
     \<and> (\<forall>i<NPROC. \<forall>j<NPROC. p_pid (procs s ! i) \<noteq> 0 \<longrightarrow> p_pid (procs s ! i) = p_pid (procs s ! j) \<longrightarrow> i = j)"

lemma pids_ok_new:
  assumes "pids_ok s" "p < NPROC" "nextpid s + 1 \<noteq> 0" "p_pid q = nextpid s"
    "procs s' = (procs s)[p := q]" "nextpid s' = nextpid s + 1"
  shows "pids_ok s'"
proof -
  have "unat (nextpid s + 1) = Suc (unat (nextpid s))"
    using unatSuc [of "nextpid s"] assms(3) by (simp add: add.commute)
  then have lt: "x < nextpid s \<Longrightarrow> x < nextpid s + 1" "nextpid s < nextpid s + 1" for x
    by (simp_all add: word_less_nat_alt)
  have nz: "nextpid s \<noteq> 0" using assms(1,2) by (auto simp: pids_ok_def)
  have L: "length (procs s) = NPROC" and B: "p_pid (procs s ! i) < nextpid s"
    and U: "p_state (procs s ! i) \<noteq> UNUSED \<Longrightarrow> p_pid (procs s ! i) \<noteq> 0"
    and I: "p_pid (procs s ! i) \<noteq> 0 \<Longrightarrow> p_pid (procs s ! i) = p_pid (procs s ! j) \<Longrightarrow> i = j"
    if "i < NPROC" "j < NPROC" for i j
    using assms(1,2) that unfolding pids_ok_def by blast+
  have n: "procs s' ! i = (if i = p then q else procs s ! i)" if "i < NPROC" for i
    using assms(2,5) that L [OF assms(2,2)] by (simp add: nth_list_update)
  have ne: "p_pid (procs s ! i) \<noteq> nextpid s" if "i < NPROC" for i using B [OF that that] by auto
  show ?thesis unfolding pids_ok_def
  proof (intro conjI allI impI)
    show "length (procs s') = NPROC" using assms(5) L [OF assms(2,2)] by simp
  next
    fix i assume i: "i < NPROC"
    show "p_pid (procs s' ! i) < nextpid s'" using n [OF i] B [OF i i] lt assms(4,6) by simp
    show "p_pid (procs s' ! i) \<noteq> 0" if "p_state (procs s' ! i) \<noteq> UNUSED"
      using that n [OF i] U [OF i i] nz assms(4) by (simp split: if_splits)
  next
    fix i j assume ij: "i < NPROC" "j < NPROC" "p_pid (procs s' ! i) \<noteq> 0" "p_pid (procs s' ! i) = p_pid (procs s' ! j)"
    then show "i = j"
      using n [OF ij(1)] n [OF ij(2)] I [OF ij(1,2)] ne [OF ij(1)] ne [OF ij(2)] assms(4) by (auto split: if_splits)
  qed
qed

section \<open>Properties\<close>

text \<open>
  C3. The scheduler keeps its invariant for ever: whatever the processes do, as long as each one
  switched to (running, current on this CPU, holding only \<^verbatim>\<open>ptable.lock\<close>, interrupts off) comes
  back with the lock held once and nothing else, no round panics, the CPU ends every round with
  no lock, and the global time slice stays between 2 and 2000000.
\<close>

theorem scheduler_invariant:
  assumes "good_run run" "sched_ready s" "\<not> fl_if s"
  shows "\<exists>s'. scheduler n run s = Ok s' \<and> sched_ready s'"
proof -
  have "sched_ready (set_cpu_proc None s)"
    using assms(2) by (simp add: sched_ready_def set_cpu_proc_def cursor_ok_def)
  from scheduler_rounds_ok [OF assms(1) this, of n] show ?thesis
    using assms(3) by (simp add: scheduler_def mycpu_def)
qed

definition proc_zero :: proc where
  "proc_zero = \<lparr>p_sz = 0, p_pgdir = 0, p_kstack = 0, p_state = UNUSED, p_pid = 0, p_parent = None, p_tf = 0,
     p_context = 0, p_chan = CHAN_NULL, p_killed = False, p_ofile = replicate NOFILE None, p_cwd = None,
     p_name = [], p_time_slice = 0, p_init_time = 0, p_terminate_time = 0\<rparr>"

definition ptab_example :: ptab where
  "ptab_example = \<lparr>thiscpu = boot_cpu, fl_if = False, held = (\<lambda>_. False),
     cons_locking = True, panicked = False, uart = True, uart_out = [], crt = (\<lambda>_. 0), crt_pos = 0,
     mem = (\<lambda>_. 0), kend = 0x80110000, use_lock = True, freelist = 0x80400000,
     data_sym = 0x80108000, kpgdir = 0x803ff000, cr3 = 0, gdt = (\<lambda>_. SEG 0 0 0 0), ts = undefined, ts_addr = 0, task_reg = 0,
     procs = (replicate NPROC proc_zero)[1 := proc_zero\<lparr>p_state := RUNNABLE, p_pid := 1, p_kstack := 0x80200000,
       p_pgdir := 0x80201000\<rparr>],
     initproc = Some 1, nextpid = 2, time_slice = DEFAULT_TIME_SLICE, ticks = 7,
     forkret_addr = 0x80103000, trapret_addr = 0x80105000\<rparr>"

text \<open>A process that exits as soon as it runs.\<close>

definition exiting_run :: "nat \<Rightarrow> ptab \<Rightarrow> ptab" where
  "exiting_run i = upd_proc i (\<lambda>q. q\<lparr>p_state := ZOMBIE, p_terminate_time := 7\<rparr>)"

lemma sched_ok_zombie:
  "p < NPROC \<Longrightarrow> sched_ok s \<Longrightarrow> sched_ok (upd_proc p (\<lambda>q. q\<lparr>p_state := ZOMBIE, p_terminate_time := 7\<rparr>) s)"
proof -
  have "panicked (upd_proc p f s) = panicked s" "cursor_ok (upd_proc p f s) = cursor_ok s" for f
    by (simp_all add: upd_proc_def cursor_ok_def)
  then show "p < NPROC \<Longrightarrow> sched_ok s \<Longrightarrow> ?thesis"
    by (auto simp: sched_ok_def upd_proc_nth split: if_splits)
qed

lemma ptab_example_ready [simp]: "sched_ready ptab_example" "\<not> fl_if ptab_example"
  by (auto simp: sched_ready_def ptab_example_def boot_cpu_def slice_ok_def DEFAULT_TIME_SLICE_def cursor_ok_def
      NPROC_def nth_list_update proc_zero_def split: if_splits)

theorem scheduler_invariant_witness:
  "\<exists>s'. scheduler 5 exiting_run ptab_example = Ok s' \<and> sched_ready s'"
proof -
  have "good_run exiting_run" by (simp add: good_run_def exiting_run_def sched_ok_zombie)
  then show ?thesis by (intro scheduler_invariant) simp_all
qed


lemma ptab_example_procs:
  "length (procs ptab_example) = NPROC" "p_state (procs ptab_example ! 1) = RUNNABLE" "p_pid (procs ptab_example ! 1) = 1"
  by (simp_all add: ptab_example_def NPROC_def)

text \<open>Process 1 running in a section of \<^verbatim>\<open>tickslock\<close>; the other side wakes and resumes it.\<close>

definition in_section :: ptab where
  "in_section = ptab_example\<lparr>thiscpu := boot_cpu\<lparr>ncli := 1, intena := True\<rparr>, held := (\<lambda>x. x = TICKSLOCK)\<rparr>"

definition resume_1 :: "ptab \<Rightarrow> ptab" where
  "resume_1 = upd_proc 1 (\<lambda>q. q\<lparr>p_state := RUNNING\<rparr>)"



lemma find_idx_unique:
  assumes "i < length xs" "P (xs ! i)" "\<forall>j<length xs. P (xs ! j) \<longrightarrow> j = i"
  shows "find_idx P xs = Some i"
proof (rule find_idx_SomeI)
  show "i < length xs" "P (xs ! i)" by (fact assms)+
  fix j assume "j < i"
  then show "\<not> P (xs ! j)" using assms(1,3) by (metis less_trans less_irrefl)
qed

text \<open>
  C24. \<^verbatim>\<open>kill\<close> of a process that is in use marks it killed, makes it runnable when it sleeps and changes
  nothing else; a pid that no slot has gives -1 and changes nothing.
\<close>

theorem kill_marks:
  assumes "wf_cpu s" "\<not> held s PTABLE_LOCK" "pids_ok s" "i < NPROC" "p_state (procs s ! i) \<noteq> UNUSED"
  shows "\<exists>s'. kill (p_pid (procs s ! i)) s = Ok (0, s') \<and> p_killed (procs s' ! i)
     \<and> p_state (procs s' ! i) = (if p_state (procs s ! i) = SLEEPING then RUNNABLE else p_state (procs s ! i))
     \<and> (\<forall>j. j \<noteq> i \<longrightarrow> procs s' ! j = procs s ! j) \<and> held s' = held s \<and> fl_if s' = fl_if s"
proof -
  have "find_idx (\<lambda>p. p_pid p = p_pid (procs s ! i)) (procs s) = Some i"
    using assms(3-5) unfolding pids_ok_def by (intro find_idx_unique) metis+
  then show ?thesis using assms by (simp add: kill_eq upd_proc_nth pids_ok_def)
qed

definition killable :: ptab where
  "killable = upd_proc 1 (\<lambda>q. q\<lparr>p_state := SLEEPING, p_chan := CHAN_INPUT\<rparr>) ptab_example"

lemma killable_ok: "wf_cpu killable" "\<not> held killable PTABLE_LOCK" "pids_ok killable"
  "p_pid (procs killable ! 1) = 1" "p_state (procs killable ! 1) = SLEEPING"
proof -
  have n: "procs killable ! i = (if i = 1 then (procs ptab_example ! 1)\<lparr>p_state := SLEEPING, p_chan := CHAN_INPUT\<rparr> else proc_zero)"
    if "i < NPROC" for i
    using that by (simp add: killable_def upd_proc_nth ptab_example_procs NPROC_def) (simp add: ptab_example_def NPROC_def)
  have z: "p_state proc_zero = UNUSED" "p_pid proc_zero = 0" by (simp_all add: proc_zero_def)
  show "p_pid (procs killable ! 1) = 1" "p_state (procs killable ! 1) = SLEEPING"
    using n [of 1] ptab_example_procs by (simp_all add: NPROC_def)
  show "wf_cpu killable" "\<not> held killable PTABLE_LOCK"
    by (simp_all add: killable_def ptab_example_def wf_cpu_def boot_cpu_def)
  have np: "nextpid killable = 2" "length (procs killable) = NPROC"
    by (simp_all add: killable_def ptab_example_procs) (simp add: ptab_example_def)
  show "pids_ok killable"
    unfolding pids_ok_def using n z np ptab_example_procs by auto
qed

theorem kill_marks_witness:
  "\<exists>s'. kill 1 killable = Ok (0, s') \<and> p_killed (procs s' ! 1) \<and> p_state (procs s' ! 1) = RUNNABLE"
  using kill_marks [OF killable_ok(1-3), of 1] killable_ok(4,5) by (auto simp: NPROC_def)

text \<open>
  C25. \<^verbatim>\<open>kill(0)\<close> reports success although no process has pid 0: it marks an unused slot killed, and
  the next process \<^verbatim>\<open>allocproc\<close> puts there starts out killed.
\<close>

theorem kill_zero_hits_unused:
  assumes "wf_cpu s" "\<not> held s PTABLE_LOCK" "pids_ok s" "kmem_ready s" "free_pages s (k # ks)"
    "i < NPROC" "\<forall>j<i. p_state (procs s ! j) \<noteq> UNUSED" "p_state (procs s ! i) = UNUSED" "p_pid (procs s ! i) = 0"
  shows "\<exists>s1 s2. kill 0 s = Ok (0, s1) \<and> allocproc s1 = Ok (Some i, s2)
     \<and> p_state (procs s2 ! i) = EMBRYO \<and> p_killed (procs s2 ! i)"
proof -
  have L: "length (procs s) = NPROC" using assms(3) by (simp add: pids_ok_def)
  have z: "p_pid (procs s ! j) \<noteq> 0" if "j < i" for j
    using assms(3,6,7) that by (simp add: pids_ok_def)
  have f: "find_idx (\<lambda>p. p_pid p = 0) (procs s) = Some i"
    using assms(6,9) L z by (intro find_idx_SomeI) simp_all
  let ?s1 = "(upd_proc i (\<lambda>q. q\<lparr>p_killed := True,
       p_state := (if p_state q = SLEEPING then RUNNABLE else p_state q)\<rparr>) s)\<lparr>thiscpu := settled s\<rparr>"
  have k: "kill 0 s = Ok (0, ?s1)" using kill_eq [OF assms(1,2), of 0] f by simp
  have f1: "find_idx (\<lambda>p. p_state p = UNUSED) (procs ?s1) = Some i"
    using assms(6-8) L by (intro find_idx_SomeI) (simp_all add: upd_proc_nth)
  have "wf_cpu ?s1" "\<not> held ?s1 PTABLE_LOCK" "kmem_ready ?s1" "free_pages ?s1 (k # ks)"
    using assms(1,2,4,5) by (simp_all add: wf_cpu_def kmem_ready_def) (simp add: upd_proc_def)
  from allocproc_ok [OF this f1] obtain s2 where s2: "allocproc ?s1 = Ok (Some i, s2)"
    "procs s2 = (procs ?s1)[i := (procs ?s1 ! i)\<lparr>p_state := EMBRYO, p_init_time := ticks ?s1, p_pid := nextpid ?s1,
         p_time_slice := 0, p_terminate_time := 0, p_kstack := k, p_tf := k + 4020, p_context := k + 3996\<rparr>]" by blast
  then have "p_state (procs s2 ! i) = EMBRYO \<and> p_killed (procs s2 ! i)" using L assms(6) by simp
  then show ?thesis using k s2(1) by blast
qed

lemma ptab_example_kmem: "wf_cpu ptab_example" "\<not> held ptab_example l" "kmem_ready ptab_example"
  "free_pages ptab_example [0x80400000]" "p_state (procs ptab_example ! 0) = UNUSED" "p_pid (procs ptab_example ! 0) = 0"
  by (simp_all add: ptab_example_def wf_cpu_def boot_cpu_def kmem_ready_def free_pages_def page_ok_def load32_def
      KERNBASE_def V2P_def PHYSTOP_def PGSIZE_def proc_zero_def NPROC_def)

lemma ptab_example_pids: "pids_ok ptab_example" "nextpid ptab_example = 2"
proof -
  have n: "procs ptab_example ! i = proc_zero" if "i < NPROC" "i \<noteq> 1" for i
    using that by (simp add: ptab_example_def NPROC_def)
  show np: "nextpid ptab_example = 2" by (simp add: ptab_example_def)
  have z: "p_state proc_zero = UNUSED" "p_pid proc_zero = 0" by (simp_all add: proc_zero_def)
  show "pids_ok ptab_example"
    unfolding pids_ok_def np
  proof (intro conjI allI impI)
    fix i assume i: "i < NPROC"
    show "p_pid (procs ptab_example ! i) < 2" "p_state (procs ptab_example ! i) \<noteq> UNUSED \<Longrightarrow> p_pid (procs ptab_example ! i) \<noteq> 0"
      using n [OF i] z ptab_example_procs by (cases "i = 1"; simp)+
    fix j assume j: "j < NPROC" and a: "p_pid (procs ptab_example ! i) \<noteq> 0" "p_pid (procs ptab_example ! i) = p_pid (procs ptab_example ! j)"
    then show "i = j" using n [OF i] n [OF j] z by (cases "i = 1"; cases "j = 1") simp_all
  qed (rule ptab_example_procs)
qed

theorem kill_zero_hits_unused_witness:
  "\<exists>s1 s2. kill 0 ptab_example = Ok (0, s1) \<and> allocproc s1 = Ok (Some 0, s2) \<and> p_killed (procs s2 ! 0)"
  using kill_zero_hits_unused [OF ptab_example_kmem(1,2) ptab_example_pids(1) ptab_example_kmem(3,4), of 0]
    ptab_example_kmem(5,6) by (auto simp: NPROC_def)

text \<open>
  C26. \<^verbatim>\<open>allocproc\<close> takes the first unused slot, gives it a pid no other slot has and a kernel stack
  taken from the free list, and lays the stack out so that the first switch to the process
  enters \<^verbatim>\<open>forkret\<close>, which returns to \<^verbatim>\<open>trapret\<close>, with the trap frame above; all other slots are
  unchanged and process ids stay unique.
\<close>

theorem allocproc_fresh:
  assumes "wf_cpu s" "\<not> held s PTABLE_LOCK" "kmem_ready s" "free_pages s (k # ks)" "pids_ok s"
    "nextpid s + 1 \<noteq> 0" "find_idx (\<lambda>p. p_state p = UNUSED) (procs s) = Some p"
  shows "\<exists>s'. allocproc s = Ok (Some p, s') \<and> pids_ok s' \<and> free_pages s' ks \<and> held s' = held s
    \<and> p_state (procs s' ! p) = EMBRYO \<and> p_pid (procs s' ! p) = nextpid s \<and> p_kstack (procs s' ! p) = k
    \<and> p_tf (procs s' ! p) = k + KSTACKSIZE - TF_SIZE
    \<and> load32 (mem s') (p_context (procs s' ! p) + CTX_eip) = forkret_addr s
    \<and> load32 (mem s') (p_context (procs s' ! p) + CONTEXT_SIZE) = trapret_addr s
    \<and> (\<forall>j. j \<noteq> p \<longrightarrow> procs s' ! j = procs s ! j)"
proof -
  have pl: "p < NPROC" using assms(5) find_idx_SomeD [OF assms(7)] by (simp add: pids_ok_def)
  let ?q = "(procs s ! p)\<lparr>p_state := EMBRYO, p_init_time := ticks s, p_pid := nextpid s,
         p_time_slice := 0, p_terminate_time := 0, p_kstack := k, p_tf := k + 4020, p_context := k + 3996\<rparr>"
  obtain s' where s': "allocproc s = Ok (Some p, s')" "free_pages s' ks" "held s' = held s" "nextpid s' = nextpid s + 1"
    "mem s' = stack_image (mem s) k (trapret_addr s) (forkret_addr s)" "procs s' = (procs s)[p := ?q]"
    using allocproc_ok [OF assms(1-4,7)] by blast
  have "pids_ok s'" using assms(5,6) pl s'(4,6) by (intro pids_ok_new [of s p ?q s']) simp_all
  moreover have "procs s' ! p = ?q" using s'(6) pl assms(5) by (simp add: pids_ok_def)
  moreover have "load32 (mem s') (k + 3996 + CTX_eip) = forkret_addr s"
    "load32 (mem s') (k + 3996 + CONTEXT_SIZE) = trapret_addr s" "k + KSTACKSIZE - TF_SIZE = k + 4020"
    using stack_image_words [of "mem s" k "trapret_addr s" "forkret_addr s"] s'(5)
    by (simp_all add: CTX_eip_def CONTEXT_SIZE_def KSTACKSIZE_def TF_SIZE_def add.commute)
  ultimately show ?thesis using s' by simp
qed

theorem allocproc_fresh_witness:
  "\<exists>s'. allocproc ptab_example = Ok (Some 0, s') \<and> p_pid (procs s' ! 0) = 2 \<and> pids_ok s'"
proof -
  have "find_idx (\<lambda>p. p_state p = UNUSED) (procs ptab_example) = Some 0"
    using ptab_example_kmem(5) ptab_example_procs(1) by (intro find_idx_SomeI) (simp_all add: NPROC_def)
  then show ?thesis
    using allocproc_fresh [OF ptab_example_kmem(1,2,3,4) ptab_example_pids(1), of 0] ptab_example_pids(2) by auto
qed

lemma scheduler_scan_idle:
  "\<forall>p\<in>set ps. p_state (procs s ! p) \<noteq> RUNNABLE \<Longrightarrow> scheduler_scan run ps t s = Ok (t, s)"
  by (induction ps) simp_all

lemma scheduler_round_idle:
  assumes "ncli (thiscpu s) = 0" "\<not> held s PTABLE_LOCK" "\<forall>p<NPROC. p_state (procs s ! p) \<noteq> RUNNABLE"
  shows "scheduler_round run s = Ok (s\<lparr>time_slice := next_time_slice (time_slice s),
     thiscpu := (thiscpu s)\<lparr>intena := True\<rparr>, fl_if := True\<rparr>)"
proof -
  have "intena (cpu_push True (thiscpu s))" using assms(1) by (simp add: cpu_push_def)
  then show ?thesis using assms
    by (simp add: scheduler_round_def Let_def acquire_eq wf_cpu_def scheduler_scan_idle release_eq cpu_settle_def)
qed

lemma scheduler_rounds_idle:
  assumes "ncli (thiscpu s) = 0" "\<not> held s PTABLE_LOCK" "\<forall>p<NPROC. p_state (procs s ! p) \<noteq> RUNNABLE"
  shows "\<exists>s'. scheduler_rounds n run s = Ok s' \<and> procs s' = procs s \<and> time_slice s' = (next_time_slice ^^ n) (time_slice s)"
  using assms
proof (induction n arbitrary: s)
  case (Suc n)
  then show ?case
    using Suc.IH [of "s\<lparr>time_slice := next_time_slice (time_slice s), thiscpu := (thiscpu s)\<lparr>intena := True\<rparr>, fl_if := True\<rparr>"]
    by (simp add: scheduler_round_idle funpow_swap1)
qed simp

lemma slice_cycle: "(next_time_slice ^^ 20) 2 = 2" "(next_time_slice ^^ 20) 3 = 2"
  by (simp_all add: numeral_eq_Suc next_time_slice_def)



end
