(* ===== verification/Proc_List.thy ===== *)
theory Proc_List
  imports Proc
begin

text \<open>
  The process listings of \<^verbatim>\<open>proc.c\<close>: \<^verbatim>\<open>procdump\<close> (control-P on the console) and the \<^verbatim>\<open>ps\<close> system call
  with its filters by pid, state and name and its search for a close pid.
\<close>

section \<open>String comparison\<close>

text \<open>C strings are lists without the terminating NUL.\<close>

fun compareStrings :: "string \<Rightarrow> string \<Rightarrow> int" where
  "compareStrings (a # as) (b # bs) = (if a = b then compareStrings as bs else of_char a - of_char b)"
| "compareStrings [] (b # bs) = - of_char b"
| "compareStrings (a # as) [] = of_char a"
| "compareStrings [] [] = 0"

fun mstrcmp :: "string \<Rightarrow> string \<Rightarrow> int" where
  "mstrcmp (a # as) (b # bs) = (if a \<noteq> b then 0 else mstrcmp as bs)"
| "mstrcmp as bs = (if as = [] \<and> bs = [] then 1 else 0)"

section \<open>procdump\<close>

fun dump_state :: "procstate \<Rightarrow> string" where
  "dump_state UNUSED = ''unused''"
| "dump_state EMBRYO = ''embryo''"
| "dump_state SLEEPING = ''sleep ''"
| "dump_state RUNNABLE = ''runble''"
| "dump_state RUNNING = ''run   ''"
| "dump_state ZOMBIE = ''zombie''"

fun dump_pcs :: "u32 list \<Rightarrow> 'a console_scheme \<Rightarrow> 'a console_scheme res" where
  "dump_pcs [] s = Ok s"
| "dump_pcs (pc # pcs) s =
     (if pc = 0 then Ok s else andThen (cprintf '' %p'' [ANum pc] s) (dump_pcs pcs))"

fun procdump_from :: "proc list \<Rightarrow> 'a ptab_scheme \<Rightarrow> 'a ptab_scheme res" where
  "procdump_from [] s = Ok s"
| "procdump_from (p # ps) s =
     (if p_state p = UNUSED then procdump_from ps s
      else
        andThen (cprintf ''%d %s %s'' [ANum (p_pid p), AStr (Some (dump_state (p_state p))), AStr (Some (p_name p))] s) (\<lambda>s.
        andThen
          (if p_state p = SLEEPING
           then dump_pcs (getcallerpcs (mem s) (load32 (mem s) (p_context p + CTX_ebp) + 8)) s
           else Ok s) (\<lambda>s.
        andThen (cprintf [CHR 0x0A] [] s) (procdump_from ps))))"

definition procdump :: "'a ptab_scheme \<Rightarrow> 'a ptab_scheme res" where
  "procdump s = procdump_from (procs s) s"

section \<open>ps\<close>

fun state_num :: "procstate \<Rightarrow> u32" where
  "state_num UNUSED = 0"
| "state_num EMBRYO = 1"
| "state_num SLEEPING = 2"
| "state_num RUNNABLE = 3"
| "state_num RUNNING = 4"
| "state_num ZOMBIE = 5"

fun state_name :: "procstate \<Rightarrow> string" where
  "state_name UNUSED = ''UNUSED''"
| "state_name EMBRYO = ''EMBRYO''"
| "state_name SLEEPING = ''SLEEPING''"
| "state_name RUNNABLE = ''RUNNABLE''"
| "state_name RUNNING = ''RUNNING''"
| "state_name ZOMBIE = ''ZOMBIE''"

definition ps_fmt :: string where
  "ps_fmt = ''pid: %d state: %s name: %s ppid: %d pstate: %s'' @ [CHR 0x0A]"

definition ps_args :: "proc list \<Rightarrow> nat \<Rightarrow> fmt_arg list" where
  "ps_args tab p =
     (let q = tab ! p in
      [ANum (p_pid q), AStr (Some (state_name (p_state q))), AStr (Some (p_name q)),
       ANum (case p_parent q of Some r \<Rightarrow> p_pid (tab ! r) | None \<Rightarrow> - 1),
       AStr (Some (case p_parent q of Some r \<Rightarrow> state_name (p_state (tab ! r)) | None \<Rightarrow> ''N/A''))])"

definition ps_print :: "nat \<Rightarrow> 'a ptab_scheme \<Rightarrow> 'a ptab_scheme res" where
  "ps_print p s = cprintf ps_fmt (ps_args (procs s) p) s"

text \<open>
  The first loop of \<^verbatim>\<open>sys_ps\<close>; the result says whether it returned from inside the loop and
  whether anything was found.
\<close>

fun ps_scan :: "u32 \<Rightarrow> u32 \<Rightarrow> string \<Rightarrow> nat list \<Rightarrow> bool \<Rightarrow> 'a ptab_scheme \<Rightarrow> (bool \<times> bool \<times> 'a ptab_scheme) res" where
  "ps_scan state_t pid_t name_t [] found s = Ok (False, found, s)"
| "ps_scan state_t pid_t name_t (p # ps) found s =
     (if pid_t \<noteq> - 1 \<and> p_pid (procs s ! p) = pid_t
      then andThen (ps_print p s) (\<lambda>s. Ok (True, True, s))
      else
        andThen (if state_t \<noteq> - 1 \<and> state_num (p_state (procs s ! p)) = state_t
                 then andThen (ps_print p s) (\<lambda>s. Ok (True, s)) else Ok (found, s)) (\<lambda>(found, s).
        andThen (if mstrcmp name_t ''None'' = 0 \<and> mstrcmp (p_name (procs s ! p)) name_t \<noteq> 0
                 then andThen (ps_print p s) (\<lambda>s. Ok (True, s)) else Ok (found, s)) (\<lambda>(found, s).
        andThen (if state_t = - 1 \<and> pid_t = - 1 \<and> mstrcmp name_t ''None'' = 1
                 then andThen (ps_print p s) (\<lambda>s. Ok (True, s)) else Ok (found, s)) (\<lambda>(found, s).
        ps_scan state_t pid_t name_t ps found s))))"

text \<open>The search for a close pid: for distances 1 to 5, the first slot in use at that distance.\<close>

definition ps_close :: "u32 \<Rightarrow> u32 \<Rightarrow> proc \<Rightarrow> bool" where
  "ps_close pid_t i q \<longleftrightarrow> p_state q \<noteq> UNUSED \<and> (pid_t - p_pid q = i \<or> p_pid q - pid_t = i)"

fun ps_near :: "u32 \<Rightarrow> u32 list \<Rightarrow> 'a ptab_scheme \<Rightarrow> 'a ptab_scheme res" where
  "ps_near pid_t [] s = Ok s"
| "ps_near pid_t (i # is) s =
     (case find_idx (ps_close pid_t i) (procs s) of
        Some p \<Rightarrow> ps_print p s
      | None \<Rightarrow> ps_near pid_t is s)"

text \<open>\<^verbatim>\<open>sys_ps\<close> once its three arguments are fetched.\<close>

definition ps_body :: "u32 \<Rightarrow> u32 \<Rightarrow> string \<Rightarrow> 'a ptab_scheme \<Rightarrow> (int \<times> 'a ptab_scheme) res" where
  "ps_body state_t pid_t name_t s =
     andThen (cprintf (''state-kernelspace: %d'' @ [CHR 0x0A]) [ANum pid_t] s) (\<lambda>s.
     andThen (cprintf (''state-kernelspace: %d'' @ [CHR 0x0A]) [ANum state_t] s) (\<lambda>s.
     andThen (cprintf (''name-kernelspace: %s'' @ [CHR 0x0A]) [AStr (Some name_t)] s) (\<lambda>s.
     andThen (ps_scan state_t pid_t name_t [0..<NPROC] False s) (\<lambda>(returned, found, s).
     if returned then Ok (0, s)
     else if \<not> found \<and> pid_t \<noteq> - 1
     then andThen (ps_near pid_t [1, 2, 3, 4, 5] s) (\<lambda>s. Ok (0, s))
     else Ok (0, s)))))"

section \<open>Specification\<close>

text \<open>The slots a listing reports, in order.\<close>

fun ps_hits :: "u32 \<Rightarrow> u32 \<Rightarrow> string \<Rightarrow> proc list \<Rightarrow> nat list \<Rightarrow> bool \<times> nat list" where
  "ps_hits state_t pid_t name_t tab [] = (False, [])"
| "ps_hits state_t pid_t name_t tab (p # ps) =
     (if pid_t \<noteq> - 1 \<and> p_pid (tab ! p) = pid_t then (True, [p])
      else
        let here = (if state_t \<noteq> - 1 \<and> state_num (p_state (tab ! p)) = state_t then [p] else [])
              @ (if name_t \<noteq> ''None'' \<and> p_name (tab ! p) = name_t then [p] else [])
              @ (if state_t = - 1 \<and> pid_t = - 1 \<and> name_t = ''None'' then [p] else []);
            (ret, rest) = ps_hits state_t pid_t name_t tab ps in
        (ret, here @ rest))"

fun nearest :: "u32 \<Rightarrow> u32 list \<Rightarrow> proc list \<Rightarrow> nat list" where
  "nearest pid_t [] tab = []"
| "nearest pid_t (i # is) tab =
     (case find_idx (ps_close pid_t i) tab of Some p \<Rightarrow> [p] | None \<Rightarrow> nearest pid_t is tab)"

definition ps_selects :: "u32 \<Rightarrow> u32 \<Rightarrow> string \<Rightarrow> proc list \<Rightarrow> nat list" where
  "ps_selects state_t pid_t name_t tab =
     (let (ret, hits) = ps_hits state_t pid_t name_t tab [0..<NPROC] in
      if hits = [] \<and> pid_t \<noteq> - 1 then nearest pid_t [1, 2, 3, 4, 5] tab else hits)"

definition ps_line :: "proc list \<Rightarrow> nat \<Rightarrow> string" where
  "ps_line tab p = cformat ps_fmt (ps_args tab p)"

definition ps_header :: "u32 \<Rightarrow> u32 \<Rightarrow> string \<Rightarrow> string" where
  "ps_header state_t pid_t name_t =
     ''state-kernelspace: '' @ printint pid_t 10 True @ [CHR 0x0A] @
     ''state-kernelspace: '' @ printint state_t 10 True @ [CHR 0x0A] @
     ''name-kernelspace: '' @ name_t @ [CHR 0x0A]"

section \<open>Lemmas\<close>

lemma mstrcmp_iff: "mstrcmp a b = (if a = b then 1 else 0)"
  by (induction a b rule: mstrcmp.induct) auto

lemma of_char_inj: "(of_char a :: int) = of_char b \<longleftrightarrow> a = b"
  by (rule of_char_eq_iff)

lemma of_char_0_iff: "(of_char a :: int) = 0 \<longleftrightarrow> a = CHR 0x00"
proof -
  have "(of_char (CHR 0x00) :: int) = 0" by simp
  then show ?thesis using of_char_inj [of a "CHR 0x00"] by metis
qed

lemma compareStrings_0_iff:
  assumes "CHR 0x00 \<notin> set a" "CHR 0x00 \<notin> set b"
  shows "compareStrings a b = 0 \<longleftrightarrow> a = b"
  using assms by (induction a b rule: compareStrings.induct) (auto simp: of_char_inj of_char_0_iff)

text \<open>A state in which the kernel can print on the serial line.\<close>

definition can_print :: "'a console_scheme \<Rightarrow> bool" where
  "can_print s \<longleftrightarrow> wf_cpu s \<and> \<not> held s CONS_LOCK \<and> \<not> panicked s \<and> cursor_ok s \<and> uart s"

text \<open>\<open>printed t s s'\<close>: from \<open>s\<close> to \<open>s'\<close> the text \<open>t\<close> went out and the process table stayed the same.\<close>

definition printed :: "string \<Rightarrow> 'a ptab_scheme \<Rightarrow> 'a ptab_scheme \<Rightarrow> bool" where
  "printed t s s' \<longleftrightarrow> can_print s' \<and> uart_out s' = uart_out s @ map of_char t \<and> procs s' = procs s"

lemma printed_refl: "can_print s \<Longrightarrow> printed [] s s"
  by (simp add: printed_def)

lemma printed_trans: "printed t s s1 \<Longrightarrow> printed u s1 s2 \<Longrightarrow> printed (t @ u) s s2"
  by (simp add: printed_def)

lemma cprintf_printed:
  assumes "can_print s"
  shows "\<exists>s'. cprintf fmt args s = Ok s' \<and> printed (cformat fmt args) s s'"
proof -
  have a: "wf_cpu s" "\<not> held s CONS_LOCK" "\<not> panicked s" "cursor_ok s" "uart s"
    using assms by (simp_all add: can_print_def)
  from cprintf_ok [OF a(1-4), of fmt args] obtain p m where
    1: "cprintf fmt args s = Ok (s\<lparr>uart_out := uart_out s @ (if uart s then map of_char (cformat fmt args) else []),
           crt_pos := p, crt := m,
           thiscpu := (if cons_locking s then cpu_settle (fl_if s) (thiscpu s) else thiscpu s)\<rparr>)" (is "_ = Ok ?t")
    and p: "p < 24 * 80" by blast
  have "printed (cformat fmt args) s ?t"
    using a p by (simp add: printed_def can_print_def wf_cpu_def cursor_ok_def)
  then show ?thesis using 1 by blast
qed

lemma ps_print_printed:
  assumes "can_print s"
  shows "\<exists>s'. ps_print p s = Ok s' \<and> printed (ps_line (procs s) p) s s'"
  using cprintf_printed [OF assms] by (simp add: ps_print_def ps_line_def)

lemma optional_print:
  assumes "can_print s" "c = c'"
  shows "\<exists>s'. (if c then andThen (ps_print p s) (\<lambda>s. Ok (True, s)) else Ok (found, s)) = Ok (found \<or> c, s')
     \<and> printed (concat (map (ps_line (procs s)) (if c' then [p] else []))) s s'"
  using ps_print_printed [OF assms(1), of p] printed_refl [OF assms(1)] assms(2) by auto

lemma ps_scan_printed:
  assumes "can_print s"
  shows "\<exists>s'. ps_scan state_t pid_t name_t ps found s =
      Ok (fst (ps_hits state_t pid_t name_t (procs s) ps), found \<or> snd (ps_hits state_t pid_t name_t (procs s) ps) \<noteq> [], s')
     \<and> printed (concat (map (ps_line (procs s)) (snd (ps_hits state_t pid_t name_t (procs s) ps)))) s s'"
  using assms
proof (induction ps arbitrary: s found)
  case Nil
  then show ?case by (simp add: printed_refl)
next
  case (Cons p ps)
  show ?case
  proof (cases "pid_t \<noteq> - 1 \<and> p_pid (procs s ! p) = pid_t")
    case True
    then show ?thesis using ps_print_printed [OF Cons.prems, of p] by auto
  next
    case False
    let ?A = "state_t \<noteq> - 1 \<and> state_num (p_state (procs s ! p)) = state_t"
    let ?B = "name_t \<noteq> ''None'' \<and> p_name (procs s ! p) = name_t"
    let ?C = "state_t = - 1 \<and> pid_t = - 1 \<and> name_t = ''None''"
    obtain s1 where s1: "(if ?A then andThen (ps_print p s) (\<lambda>s. Ok (True, s)) else Ok (found, s)) = Ok (found \<or> ?A, s1)"
      "printed (concat (map (ps_line (procs s)) (if ?A then [p] else []))) s s1"
      using optional_print [OF Cons.prems refl] by blast
    have c1: "can_print s1" "procs s1 = procs s" using s1(2) by (simp_all add: printed_def)
    have B: "(mstrcmp name_t ''None'' = 0 \<and> mstrcmp (p_name (procs s1 ! p)) name_t \<noteq> 0) = ?B" (is "?B1 = _")
      by (simp add: mstrcmp_iff c1(2))
    obtain s2 where s2: "(if ?B1 then andThen (ps_print p s1) (\<lambda>s. Ok (True, s)) else Ok (found \<or> ?A, s1)) = Ok ((found \<or> ?A) \<or> ?B1, s2)"
      "printed (concat (map (ps_line (procs s1)) (if ?B then [p] else []))) s1 s2"
      using optional_print [OF c1(1) B] by blast
    have c2: "can_print s2" "procs s2 = procs s" using s2(2) c1 by (simp_all add: printed_def)
    have C: "(state_t = - 1 \<and> pid_t = - 1 \<and> mstrcmp name_t ''None'' = 1) = ?C" (is "?C1 = _")
      by (simp add: mstrcmp_iff)
    obtain s3 where s3: "(if ?C1 then andThen (ps_print p s2) (\<lambda>s. Ok (True, s)) else Ok ((found \<or> ?A) \<or> ?B1, s2)) = Ok (((found \<or> ?A) \<or> ?B1) \<or> ?C1, s3)"
      "printed (concat (map (ps_line (procs s2)) (if ?C then [p] else []))) s2 s3"
      using optional_print [OF c2(1) C] by blast
    have c3: "can_print s3" "procs s3 = procs s" using s3(2) c2 by (simp_all add: printed_def)
    let ?h = "ps_hits state_t pid_t name_t (procs s) ps"
    obtain s4 where s4: "ps_scan state_t pid_t name_t ps (((found \<or> ?A) \<or> ?B1) \<or> ?C1) s3
        = Ok (fst ?h, (((found \<or> ?A) \<or> ?B1) \<or> ?C1) \<or> snd ?h \<noteq> [], s4)"
      "printed (concat (map (ps_line (procs s)) (snd ?h))) s3 s4"
      using Cons.IH [OF c3(1)] c3(2) by metis
    have step: "ps_scan state_t pid_t name_t (p # ps) found s =
        ps_scan state_t pid_t name_t ps (((found \<or> ?A) \<or> ?B1) \<or> ?C1) s3"
      by (simp only: ps_scan.simps if_not_P [OF False] s1(1) s2(1) s3(1) andThen.simps prod.case)
    let ?here = "(if ?A then [p] else []) @ (if ?B then [p] else []) @ (if ?C then [p] else [])"
    have hits: "ps_hits state_t pid_t name_t (procs s) (p # ps) = (fst ?h, ?here @ snd ?h)"
      by (simp only: ps_hits.simps if_not_P [OF False] Let_def case_prod_beta)
    have e: "((((found \<or> ?A) \<or> ?B1) \<or> ?C1) \<or> snd ?h \<noteq> []) = (found \<or> ?here @ snd ?h \<noteq> [])"
      unfolding B C by auto
    have "printed (concat (map (ps_line (procs s)) (?here @ snd ?h))) s s4"
      using printed_trans [OF printed_trans [OF printed_trans [OF s1(2) s2(2)] s3(2)] s4(2)] c1(2) c2(2) by simp
    then show ?thesis using s4(1) e unfolding step hits by (intro exI [of _ s4]) simp
  qed
qed

lemma ps_near_printed:
  assumes "can_print s"
  shows "\<exists>s'. ps_near pid_t is s = Ok s' \<and> printed (concat (map (ps_line (procs s)) (nearest pid_t is (procs s)))) s s'"
  using assms
proof (induction "is")
  case (Cons i "is")
  then show ?case using ps_print_printed [OF assms] by (auto split: option.splits)
qed (simp add: printed_refl)

lemma ps_hits_returned: "fst (ps_hits state_t pid_t name_t tab ps) \<Longrightarrow> snd (ps_hits state_t pid_t name_t tab ps) \<noteq> []"
  by (induction ps) (auto simp: Let_def case_prod_beta split: if_splits)

section \<open>Properties\<close>


lemma ptab_example_print: "can_print ptab_example"
  by (simp add: can_print_def ptab_example_def wf_cpu_def boot_cpu_def cursor_ok_def)


lemma ps_hits_pid:
  assumes "pid_t \<noteq> - 1" "distinct ps" "\<forall>p\<in>set ps. p_pid (tab ! p) = pid_t \<longleftrightarrow> p = i" "i \<in> set ps"
  shows "ps_hits (- 1) pid_t ''None'' tab ps = (True, [i])"
  using assms by (induction ps) (auto simp: Let_def)

lemma ps_hits_pid_none:
  "\<forall>p\<in>set ps. p_pid (tab ! p) \<noteq> pid_t \<Longrightarrow> pid_t \<noteq> - 1 \<Longrightarrow> ps_hits (- 1) pid_t ''None'' tab ps = (False, [])"
  by (induction ps) auto

lemma ps_hits_all: "ps_hits (- 1) (- 1) ''None'' tab ps = (False, ps)"
  by (induction ps) auto

lemma nearest_none: "\<forall>i\<in>set is. \<forall>q\<in>set tab. \<not> ps_close pid_t i q \<Longrightarrow> nearest pid_t is tab = []"
proof (induction "is")
  case (Cons i "is")
  then have "find_idx (ps_close pid_t i) tab = None" by (simp add: find_idx_None_iff)
  then show ?case using Cons by simp
qed simp

lemma nearest_hit:
  assumes "\<forall>i\<in>set is. \<forall>q\<in>set tab. \<not> ps_close pid_t i q" "q \<in> set tab" "ps_close pid_t k q"
  shows "\<exists>p<length tab. ps_close pid_t k (tab ! p) \<and> nearest pid_t (is @ k # js) tab = [p]"
  using assms(1)
proof (induction "is")
  case Nil
  obtain p where "find_idx (ps_close pid_t k) tab = Some p"
    using assms(2,3) find_idx_None_iff [of "ps_close pid_t k" tab] by (cases "find_idx (ps_close pid_t k) tab") auto
  then show ?case using find_idx_SomeD by fastforce
next
  case (Cons i "is")
  then have "find_idx (ps_close pid_t i) tab = None" by (simp add: find_idx_None_iff)
  then show ?case using Cons by simp
qed



end
