(* ===== verification/Sleeplock.thy ===== *)
theory Sleeplock
  imports Proc
begin

text \<open>
  \<^verbatim>\<open>sleeplock.c\<close>: locks held across disk accesses. A process that finds the lock taken sleeps on
  it; \<open>env\<close> is what the rest of the system does meanwhile (see \<open>Proc\<close>), and \<open>fuel\<close> bounds how
  often the process is woken only to find the lock taken again.
\<close>

section \<open>Operations\<close>

record sleeplock =
  sl_locked :: bool
  sl_pid :: u32

record slk = ptab +
  sleeplocks :: "sleepid \<Rightarrow> sleeplock"

definition set_sleeplock :: "sleepid \<Rightarrow> bool \<Rightarrow> u32 \<Rightarrow> 'a slk_scheme \<Rightarrow> 'a slk_scheme" where
  "set_sleeplock lk b p s = s\<lparr>sleeplocks := (sleeplocks s)(lk := \<lparr>sl_locked = b, sl_pid = p\<rparr>)\<rparr>"

definition initsleeplock :: "sleepid \<Rightarrow> 'a slk_scheme \<Rightarrow> 'a slk_scheme" where
  "initsleeplock lk s = set_sleeplock lk False 0 (initlock (SLEEP_LOCK lk) s)"

fun acquiresleep_wait ::
    "nat \<Rightarrow> ('a slk_scheme \<Rightarrow> 'a slk_scheme) \<Rightarrow> sleepid \<Rightarrow> 'a slk_scheme \<Rightarrow> 'a slk_scheme res" where
  "acquiresleep_wait 0 env lk s = Hangs"
| "acquiresleep_wait (Suc fuel) env lk s =
     (if sl_locked (sleeplocks s lk)
      then andThen (sleep env (CHAN_SLEEP lk) (Some (SLEEP_LOCK lk)) s) (acquiresleep_wait fuel env lk)
      else Ok s)"

definition my_pid :: "'a ptab_scheme \<Rightarrow> (u32 \<times> 'a ptab_scheme) res" where
  "my_pid s = andThen (myproc s) (\<lambda>(p, s).
     case p of None \<Rightarrow> Fault 0 | Some i \<Rightarrow> Ok (p_pid (procs s ! i), s))"

definition acquiresleep ::
    "nat \<Rightarrow> ('a slk_scheme \<Rightarrow> 'a slk_scheme) \<Rightarrow> sleepid \<Rightarrow> 'a slk_scheme \<Rightarrow> 'a slk_scheme res" where
  "acquiresleep fuel env lk s =
     andThen (acquire (SLEEP_LOCK lk) s) (\<lambda>s.
     andThen (acquiresleep_wait fuel env lk s) (\<lambda>s.
     andThen (my_pid s) (\<lambda>(pid, s).
     release (SLEEP_LOCK lk) (set_sleeplock lk True pid s))))"

definition releasesleep :: "sleepid \<Rightarrow> 'a slk_scheme \<Rightarrow> 'a slk_scheme res" where
  "releasesleep lk s =
     andThen (acquire (SLEEP_LOCK lk) s) (\<lambda>s.
     andThen (wakeup (CHAN_SLEEP lk) (set_sleeplock lk False 0 s)) (release (SLEEP_LOCK lk)))"

definition holdingsleep :: "sleepid \<Rightarrow> 'a slk_scheme \<Rightarrow> (bool \<times> 'a slk_scheme) res" where
  "holdingsleep lk s =
     andThen (acquire (SLEEP_LOCK lk) s) (\<lambda>s.
     andThen
       (if sl_locked (sleeplocks s lk)
        then andThen (my_pid s) (\<lambda>(pid, s). Ok (sl_pid (sleeplocks s lk) = pid, s))
        else Ok (False, s)) (\<lambda>(r, s).
     andThen (release (SLEEP_LOCK lk) s) (\<lambda>s. Ok (r, s))))"

section \<open>Lemmas\<close>

text \<open>A process in the kernel holding no spin lock.\<close>

definition in_proc :: "nat \<Rightarrow> 'a ptab_scheme \<Rightarrow> bool" where
  "in_proc i s \<longleftrightarrow> wf_cpu s \<and> proc (thiscpu s) = Some i \<and> (\<forall>l. \<not> held s l) \<and> i < length (procs s)"

lemma set_sleeplock_sel [simp]:
  "thiscpu (set_sleeplock lk b p s) = thiscpu s" "fl_if (set_sleeplock lk b p s) = fl_if s"
  "held (set_sleeplock lk b p s) = held s" "procs (set_sleeplock lk b p s) = procs s"
  "sleeplocks (set_sleeplock lk b p s) lk' = (if lk' = lk then \<lparr>sl_locked = b, sl_pid = p\<rparr> else sleeplocks s lk')"
  by (simp_all add: set_sleeplock_def)

lemma acquiresleep_free:
  assumes "in_proc i s" "\<not> sl_locked (sleeplocks s lk)"
  shows "acquiresleep (Suc fuel) env lk s =
    Ok ((set_sleeplock lk True (p_pid (procs s ! i)) s)\<lparr>thiscpu := settled s\<rparr>)"
  using assms
  by (simp add: in_proc_def acquiresleep_def my_pid_def acquire_eq release_eq myproc_eq wf_cpu_def)
    (simp add: set_sleeplock_def)

lemma holdingsleep_eq:
  assumes "in_proc i s"
  shows "holdingsleep lk s =
    Ok (sl_locked (sleeplocks s lk) \<and> sl_pid (sleeplocks s lk) = p_pid (procs s ! i), s\<lparr>thiscpu := settled s\<rparr>)"
  using assms
  by (simp add: in_proc_def holdingsleep_def my_pid_def acquire_eq release_eq myproc_eq wf_cpu_def)

lemma releasesleep_eq:
  assumes "in_proc i s"
  shows "releasesleep lk s =
    Ok ((wakeup1 (CHAN_SLEEP lk) (set_sleeplock lk False 0 s))\<lparr>thiscpu := settled s\<rparr>)"
  using assms
  by (simp add: in_proc_def releasesleep_def acquire_eq release_eq wakeup_eq wf_cpu_def)
    (simp add: set_sleeplock_def wakeup1_def)

text \<open>The waiting loop only returns with the lock free.\<close>

lemma acquiresleep_wait_free: "acquiresleep_wait fuel env lk s = Ok s' \<Longrightarrow> \<not> sl_locked (sleeplocks s' lk)"
  by (induction fuel arbitrary: s) (auto simp: andThen_eq_Ok_iff split: if_splits)

section \<open>Properties\<close>

text \<open>
  C30. A free sleep lock is taken, recognised as held by its holder and by no process with another
  pid, and on release free again with nobody left sleeping on it; the sleep lock's spin lock is
  free after each operation.
\<close>

theorem sleeplock_cycle:
  fixes s :: "'a slk_scheme"
  assumes "in_proc i s" "\<not> sl_locked (sleeplocks s lk)"
  shows "\<exists>s1 s2 s3. acquiresleep (Suc fuel) env lk s = Ok s1 \<and> sl_locked (sleeplocks s1 lk)
     \<and> holdingsleep lk s1 = Ok (True, s2)
     \<and> (\<forall>(t :: 'a slk_scheme) j. in_proc j t \<and> sleeplocks t = sleeplocks s1 \<and> p_pid (procs t ! j) \<noteq> p_pid (procs s ! i) \<longrightarrow>
            (\<exists>t'. holdingsleep lk t = Ok (False, t')))
     \<and> releasesleep lk s2 = Ok s3 \<and> \<not> sl_locked (sleeplocks s3 lk) \<and> (\<forall>l. \<not> held s3 l)
     \<and> (\<forall>q\<in>set (procs s3). \<not> (p_state q = SLEEPING \<and> p_chan q = CHAN_SLEEP lk))"
proof -
  let ?s1 = "(set_sleeplock lk True (p_pid (procs s ! i)) s)\<lparr>thiscpu := settled s\<rparr>"
  have i1: "in_proc i ?s1" using assms(1) by (simp add: in_proc_def wf_cpu_def)
  let ?s2 = "?s1\<lparr>thiscpu := settled ?s1\<rparr>"
  have h1: "holdingsleep lk ?s1 = Ok (True, ?s2)" using holdingsleep_eq [OF i1, of lk] by simp
  have i2: "in_proc i ?s2" using i1 by (simp add: in_proc_def wf_cpu_def)
  let ?s3 = "(wakeup1 (CHAN_SLEEP lk) (set_sleeplock lk False 0 ?s2))\<lparr>thiscpu := settled ?s2\<rparr>"
  have r: "releasesleep lk ?s2 = Ok ?s3" by (rule releasesleep_eq [OF i2])
  have other: "\<exists>t'. holdingsleep lk t = Ok (False, t')"
    if "in_proc j t" "sleeplocks t = sleeplocks ?s1" "p_pid (procs t ! j) \<noteq> p_pid (procs s ! i)" for t :: "'a slk_scheme" and j
    using holdingsleep_eq [OF that(1), of lk] that(2,3) by simp
  have "\<not> sl_locked (sleeplocks ?s3 lk)" "\<forall>l. \<not> held ?s3 l"
    "\<forall>q\<in>set (procs ?s3). \<not> (p_state q = SLEEPING \<and> p_chan q = CHAN_SLEEP lk)"
    using assms(1) by (auto simp: wakeup1_def in_proc_def set_sleeplock_def)
  moreover have "sl_locked (sleeplocks ?s1 lk)" by simp
  ultimately show ?thesis
    using acquiresleep_free [OF assms] h1 r other by blast
qed

definition slk_example :: slk where
  "slk_example = ptab.extend (ptab_example\<lparr>thiscpu := boot_cpu\<lparr>proc := Some 1\<rparr>\<rparr>)
     \<lparr>sleeplocks = (\<lambda>_. \<lparr>sl_locked = False, sl_pid = 0\<rparr>)\<rparr>"

lemma slk_example_ok: "in_proc 1 slk_example" "\<not> sl_locked (sleeplocks slk_example lk)"
  by (simp_all add: in_proc_def slk_example_def ptab.defs ptab_example_def wf_cpu_def boot_cpu_def NPROC_def)

theorem sleeplock_cycle_witness:
  "\<exists>s1 s2. acquiresleep 1 (\<lambda>s. s) (BUF_SLEEP 0) slk_example = Ok s1 \<and> holdingsleep (BUF_SLEEP 0) s1 = Ok (True, s2)"
  using sleeplock_cycle [OF slk_example_ok(1) slk_example_ok(2), of 0 "\<lambda>s. s" "BUF_SLEEP 0"] by auto

end
