(* ===== verification/Bio.thy ===== *)
theory Bio
  imports Sleeplock
begin

text \<open>
  The block cache (\<^verbatim>\<open>bio.c\<close>, \<^verbatim>\<open>buf.h\<close>) over a disk driver, and the driver for a disk image in
  memory (\<^verbatim>\<open>memide.c\<close>). Buffers are numbered by their index in \<^verbatim>\<open>bcache.buf\<close>; the doubly linked
  list through \<^verbatim>\<open>prev\<close>/\<^verbatim>\<open>next\<close> is the list \<open>lru\<close>, most recently used first. The disk is a table of
  512-byte blocks per device together with the sequence of block writes it has received.

  A kernel is linked with one driver, so the driver is a component of the parameter \<open>w\<close> of every
  operation that may reach the disk; the other components are the fuel and the environment of
  \<open>sleep\<close>.
\<close>

section \<open>State\<close>

type_synonym block = "u8 list"

record buf =
  b_flags :: u32
  b_dev :: u32
  b_blockno :: u32
  b_refcnt :: u32
  b_data :: block

record bio = slk +
  bufs :: "buf list"
  lru :: "nat list"
  disk :: "u32 \<Rightarrow> u32 \<Rightarrow> block"
  disksize :: u32
  dwrites :: "(u32 \<times> u32 \<times> block) list"

record 's world =
  w_fuel :: nat
  w_env :: "'s \<Rightarrow> 's"
  w_iderw :: "nat \<Rightarrow> 's \<Rightarrow> 's res"

definition NBUF :: nat where "NBUF = 30"
definition BSIZE :: nat where "BSIZE = 512"
definition B_VALID :: u32 where "B_VALID = 2"
definition B_DIRTY :: u32 where "B_DIRTY = 4"

definition upd_buf :: "nat \<Rightarrow> (buf \<Rightarrow> buf) \<Rightarrow> 'a bio_scheme \<Rightarrow> 'a bio_scheme" where
  "upd_buf i f s = s\<lparr>bufs := (bufs s)[i := f (bufs s ! i)]\<rparr>"

section \<open>The cache\<close>

primrec binit_locks :: "nat \<Rightarrow> 'a slk_scheme \<Rightarrow> 'a slk_scheme" where
  "binit_locks 0 s = s"
| "binit_locks (Suc n) s = initsleeplock (BUF_SLEEP n) (binit_locks n s)"

definition binit :: "'a bio_scheme \<Rightarrow> 'a bio_scheme" where
  "binit s = (binit_locks NBUF (initlock BCACHE_LOCK s))\<lparr>lru := rev [0..<NBUF]\<rparr>"

definition bget :: "('a bio_scheme, 'w) world_scheme \<Rightarrow> u32 \<Rightarrow> u32 \<Rightarrow> 'a bio_scheme \<Rightarrow> (nat \<times> 'a bio_scheme) res" where
  "bget w dev blockno s =
     andThen (acquire BCACHE_LOCK s) (\<lambda>s.
       case find (\<lambda>i. b_dev (bufs s ! i) = dev \<and> b_blockno (bufs s ! i) = blockno) (lru s) of
         Some i \<Rightarrow>
           let s = upd_buf i (\<lambda>b. b\<lparr>b_refcnt := b_refcnt b + 1\<rparr>) s in
           andThen (release BCACHE_LOCK s) (\<lambda>s.
           andThen (acquiresleep (w_fuel w) (w_env w) (BUF_SLEEP i) s) (\<lambda>s. Ok (i, s)))
       | None \<Rightarrow>
           (case find (\<lambda>i. b_refcnt (bufs s ! i) = 0 \<and> b_flags (bufs s ! i) AND B_DIRTY = 0) (rev (lru s)) of
              Some i \<Rightarrow>
                let s = upd_buf i (\<lambda>b. b\<lparr>b_dev := dev, b_blockno := blockno, b_flags := 0, b_refcnt := 1\<rparr>) s in
                andThen (release BCACHE_LOCK s) (\<lambda>s.
                andThen (acquiresleep (w_fuel w) (w_env w) (BUF_SLEEP i) s) (\<lambda>s. Ok (i, s)))
            | None \<Rightarrow> Panic ''bget: no buffers''))"

definition bread :: "('a bio_scheme, 'w) world_scheme \<Rightarrow> u32 \<Rightarrow> u32 \<Rightarrow> 'a bio_scheme \<Rightarrow> (nat \<times> 'a bio_scheme) res" where
  "bread w dev blockno s =
     andThen (bget w dev blockno s) (\<lambda>(i, s).
       if b_flags (bufs s ! i) AND B_VALID = 0
       then andThen (w_iderw w i s) (\<lambda>s. Ok (i, s)) else Ok (i, s))"

definition bwrite :: "('a bio_scheme, 'w) world_scheme \<Rightarrow> nat \<Rightarrow> 'a bio_scheme \<Rightarrow> 'a bio_scheme res" where
  "bwrite w i s =
     andThen (holdingsleep (BUF_SLEEP i) s) (\<lambda>(h, s).
       if \<not> h then Panic ''bwrite''
       else w_iderw w i (upd_buf i (\<lambda>b. b\<lparr>b_flags := b_flags b OR B_DIRTY\<rparr>) s))"

definition brelse :: "nat \<Rightarrow> 'a bio_scheme \<Rightarrow> 'a bio_scheme res" where
  "brelse i s =
     andThen (holdingsleep (BUF_SLEEP i) s) (\<lambda>(h, s).
       if \<not> h then Panic ''brelse''
       else
         andThen (releasesleep (BUF_SLEEP i) s) (\<lambda>s.
         andThen (acquire BCACHE_LOCK s) (\<lambda>s.
         let s = upd_buf i (\<lambda>b. b\<lparr>b_refcnt := b_refcnt b - 1\<rparr>) s;
             s = (if b_refcnt (bufs s ! i) = 0 then s\<lparr>lru := i # remove1 i (lru s)\<rparr> else s) in
         release BCACHE_LOCK s)))"

section \<open>The memory disk\<close>

definition memide_ideinit :: "u32 \<Rightarrow> 'a bio_scheme \<Rightarrow> 'a bio_scheme" where
  "memide_ideinit img_size s = s\<lparr>disksize := img_size div of_nat BSIZE\<rparr>"

definition memide_ideintr :: "'a bio_scheme \<Rightarrow> 'a bio_scheme" where
  "memide_ideintr s = s"

definition disk_write :: "u32 \<Rightarrow> u32 \<Rightarrow> block \<Rightarrow> 'a bio_scheme \<Rightarrow> 'a bio_scheme" where
  "disk_write dev blk d s =
     s\<lparr>disk := (disk s)(dev := (disk s dev)(blk := d)), dwrites := dwrites s @ [(dev, blk, d)]\<rparr>"

definition memide_iderw :: "nat \<Rightarrow> 'a bio_scheme \<Rightarrow> 'a bio_scheme res" where
  "memide_iderw i s =
     andThen (holdingsleep (BUF_SLEEP i) s) (\<lambda>(h, s).
       let b = bufs s ! i in
       if \<not> h then Panic ''iderw: buf not locked''
       else if b_flags b AND (B_VALID OR B_DIRTY) = B_VALID then Panic ''iderw: nothing to do''
       else if b_dev b \<noteq> 1 then Panic ''iderw: request not for disk 1''
       else if b_blockno b \<ge> disksize s then Panic ''iderw: block out of range''
       else if b_flags b AND B_DIRTY \<noteq> 0 then
         let s = upd_buf i (\<lambda>b. b\<lparr>b_flags := b_flags b AND NOT B_DIRTY\<rparr>) s;
             s = disk_write 1 (b_blockno b) (b_data b) s in
         Ok (upd_buf i (\<lambda>b. b\<lparr>b_flags := b_flags b OR B_VALID\<rparr>) s)
       else
         let s = upd_buf i (\<lambda>c. c\<lparr>b_data := disk s 1 (b_blockno b)\<rparr>) s in
         Ok (upd_buf i (\<lambda>b. b\<lparr>b_flags := b_flags b OR B_VALID\<rparr>) s))"

section \<open>The state of the cache\<close>

definition buf_is :: "'a bio_scheme \<Rightarrow> nat \<Rightarrow> u32 \<Rightarrow> bool" where
  "buf_is s i blk \<longleftrightarrow> i < NBUF \<and> b_dev (bufs s ! i) = 1 \<and> b_blockno (bufs s ! i) = blk"

text \<open>
  \<open>H\<close> are the buffers process \<open>p\<close> has locked; no other buffer is in use. Every other buffer that
  is valid and clean holds what the disk holds.
\<close>

definition cache_ok :: "nat \<Rightarrow> nat set \<Rightarrow> 'a bio_scheme \<Rightarrow> bool" where
  "cache_ok p H s \<longleftrightarrow> in_proc p s \<and> length (bufs s) = NBUF \<and> distinct (lru s) \<and> set (lru s) = {..<NBUF} \<and> H \<subseteq> {..<NBUF}
     \<and> (\<forall>i<NBUF. if i \<in> H then b_refcnt (bufs s ! i) = 1 \<and> b_flags (bufs s ! i) \<noteq> 0
            \<and> sleeplocks s (BUF_SLEEP i) = \<lparr>sl_locked = True, sl_pid = p_pid (procs s ! p)\<rparr>
          else b_refcnt (bufs s ! i) = 0 \<and> \<not> sl_locked (sleeplocks s (BUF_SLEEP i))
            \<and> (b_flags (bufs s ! i) = B_VALID \<longrightarrow> b_data (bufs s ! i) = disk s 1 (b_blockno (bufs s ! i))))
     \<and> (\<forall>i<NBUF. length (b_data (bufs s ! i)) = BSIZE \<and> b_flags (bufs s ! i) \<in> {0, B_VALID, B_VALID OR B_DIRTY}
          \<and> (if b_flags (bufs s ! i) = 0 then b_dev (bufs s ! i) = 0
             else b_dev (bufs s ! i) = 1 \<and> b_blockno (bufs s ! i) < disksize s))
     \<and> (\<forall>i j blk. buf_is s i blk \<longrightarrow> buf_is s j blk \<longrightarrow> i = j)
     \<and> (\<forall>blk<disksize s. length (disk s 1 blk) = BSIZE)"

definition bview :: "'a bio_scheme \<Rightarrow> u32 \<Rightarrow> block" where
  "bview s blk =
     (case find (\<lambda>i. b_dev (bufs s ! i) = 1 \<and> b_blockno (bufs s ! i) = blk) (lru s) of
        Some i \<Rightarrow> b_data (bufs s ! i) | None \<Rightarrow> disk s 1 blk)"

definition dirty_bufs :: "'a bio_scheme \<Rightarrow> nat set" where
  "dirty_bufs s = {i. i < NBUF \<and> b_flags (bufs s ! i) = (B_VALID OR B_DIRTY)}"

text \<open>Processes woken up between two process tables.\<close>

definition woken :: "proc list \<Rightarrow> proc list \<Rightarrow> bool" where
  "woken = list_all2 (\<lambda>q q'. q' = q \<or> p_state q = SLEEPING \<and> q' = q\<lparr>p_state := RUNNABLE\<rparr>)"

definition dirty_blks :: "'a bio_scheme \<Rightarrow> u32 set" where
  "dirty_blks s = (\<lambda>i. b_blockno (bufs s ! i)) ` dirty_bufs s"

definition held_blks :: "nat set \<Rightarrow> 'a bio_scheme \<Rightarrow> u32 set" where
  "held_blks H s = (\<lambda>i. b_blockno (bufs s ! i)) ` H"

text \<open>Block-cache operations touch nothing above the cache, no memory and no other table.\<close>

definition bio_step :: "'a bio_scheme \<Rightarrow> 'a bio_scheme \<Rightarrow> bool" where
  "bio_step s s' \<longleftrightarrow> (\<exists>c P L B R D W. s' = s\<lparr>thiscpu := c, procs := P, sleeplocks := L, bufs := B, lru := R, disk := D, dwrites := W\<rparr>
      \<and> woken (procs s) P)"

lemma woken_refl [simp]: "woken P P"
  by (simp add: woken_def list_all2_refl)

lemma woken_trans: "woken P Q \<Longrightarrow> woken Q R \<Longrightarrow> woken P R"
  by (simp add: woken_def list_all2_conv_all_nth) fastforce

lemma woken_pid: "woken P Q \<Longrightarrow> i < length P \<Longrightarrow> p_pid (Q ! i) = p_pid (P ! i)" "woken P Q \<Longrightarrow> length Q = length P"
  by (auto simp: woken_def list_all2_conv_all_nth)

lemma woken_wakeup1: "woken (procs s) (procs (wakeup1 ch s))"
  by (auto simp: woken_def wakeup1_def list_all2_conv_all_nth)

lemma bio_step_refl [simp]: "bio_step s s"
proof -
  have "s = s\<lparr>thiscpu := thiscpu s, procs := procs s, sleeplocks := sleeplocks s, bufs := bufs s, lru := lru s, disk := disk s, dwrites := dwrites s\<rparr>"
    by simp
  then show ?thesis unfolding bio_step_def using woken_refl by blast
qed

lemma bio_step_trans:
  assumes "bio_step s t" "bio_step t u"
  shows "bio_step s u"
proof -
  obtain c P L B R D W where 1: "t = s\<lparr>thiscpu := c, procs := P, sleeplocks := L, bufs := B, lru := R, disk := D, dwrites := W\<rparr>" "woken (procs s) P"
    using assms(1) unfolding bio_step_def by blast
  obtain c' P' L' B' R' D' W' where 2: "u = t\<lparr>thiscpu := c', procs := P', sleeplocks := L', bufs := B', lru := R', disk := D', dwrites := W'\<rparr>" "woken (procs t) P'"
    using assms(2) unfolding bio_step_def by blast
  have "u = s\<lparr>thiscpu := c', procs := P', sleeplocks := L', bufs := B', lru := R', disk := D', dwrites := W'\<rparr>"
    using 1(1) 2(1) by simp
  moreover have "woken (procs s) P'" using 1 2 woken_trans by auto
  ultimately show ?thesis unfolding bio_step_def by blast
qed

lemma bio_stepI:
  "s' = s\<lparr>thiscpu := c, procs := P, sleeplocks := L, bufs := B, lru := R, disk := D, dwrites := W\<rparr> \<Longrightarrow> woken (procs s) P \<Longrightarrow> bio_step s s'"
  unfolding bio_step_def by blast

lemma bio_step_frame:
  assumes "bio_step s s'"
  shows "held s' = held s" "fl_if s' = fl_if s" "mem s' = mem s" "disksize s' = disksize s" "bio.more s' = bio.more s"
    "length (procs s') = length (procs s)" "i < length (procs s) \<Longrightarrow> p_pid (procs s' ! i) = p_pid (procs s ! i)"
  using assms woken_pid by (auto simp: bio_step_def)

lemma nth_update_notin: "i \<notin> H \<Longrightarrow> k \<in> H \<Longrightarrow> xs[i := x] ! k = xs ! k"
  by (metis nth_list_update_neq)

lemma find_SomeD:
  assumes "find P xs = Some x"
  shows "P x" "x \<in> set xs"
  using assms by (auto simp: find_Some_iff)

lemma find_unique:
  assumes "i \<in> set xs" "P i" "\<And>j. j \<in> set xs \<Longrightarrow> P j \<Longrightarrow> j = i"
  shows "find P xs = Some i"
proof (cases "find P xs")
  case None
  then show ?thesis using assms(1,2) by (simp add: find_None_iff)
next
  case (Some j)
  then have "P j" "j \<in> set xs" by (auto simp: find_Some_iff)
  then show ?thesis using Some assms(3) by blast
qed

lemma cache_okD:
  assumes "cache_ok p H s"
  shows "in_proc p s" "length (bufs s) = NBUF" "distinct (lru s)" "set (lru s) = {..<NBUF}" "H \<subseteq> {..<NBUF}"
    "i \<in> H \<Longrightarrow> i < NBUF \<and> b_refcnt (bufs s ! i) = 1 \<and> b_flags (bufs s ! i) \<noteq> 0
            \<and> sleeplocks s (BUF_SLEEP i) = \<lparr>sl_locked = True, sl_pid = p_pid (procs s ! p)\<rparr>"
    "i < NBUF \<Longrightarrow> i \<notin> H \<Longrightarrow> b_refcnt (bufs s ! i) = 0 \<and> \<not> sl_locked (sleeplocks s (BUF_SLEEP i))
            \<and> (b_flags (bufs s ! i) = B_VALID \<longrightarrow> b_data (bufs s ! i) = disk s 1 (b_blockno (bufs s ! i)))"
    "i < NBUF \<Longrightarrow> length (b_data (bufs s ! i)) = BSIZE" "i < NBUF \<Longrightarrow> b_flags (bufs s ! i) \<in> {0, B_VALID, B_VALID OR B_DIRTY}"
    "i < NBUF \<Longrightarrow> b_flags (bufs s ! i) = 0 \<Longrightarrow> b_dev (bufs s ! i) = 0"
    "i < NBUF \<Longrightarrow> b_flags (bufs s ! i) \<noteq> 0 \<Longrightarrow> b_dev (bufs s ! i) = 1 \<and> b_blockno (bufs s ! i) < disksize s"
    "buf_is s i blk \<Longrightarrow> buf_is s j blk \<Longrightarrow> i = j" "blk < disksize s \<Longrightarrow> length (disk s 1 blk) = BSIZE"
  using assms unfolding cache_ok_def by (blast, blast, blast, blast, blast, auto)

lemma cache_okI:
  assumes "in_proc p s" "length (bufs s) = NBUF" "distinct (lru s)" "set (lru s) = {..<NBUF}" "H \<subseteq> {..<NBUF}"
    "\<And>i. i < NBUF \<Longrightarrow> i \<in> H \<Longrightarrow> b_refcnt (bufs s ! i) = 1 \<and> b_flags (bufs s ! i) \<noteq> 0
        \<and> sleeplocks s (BUF_SLEEP i) = \<lparr>sl_locked = True, sl_pid = p_pid (procs s ! p)\<rparr>"
    "\<And>i. i < NBUF \<Longrightarrow> i \<notin> H \<Longrightarrow> b_refcnt (bufs s ! i) = 0 \<and> \<not> sl_locked (sleeplocks s (BUF_SLEEP i))
        \<and> (b_flags (bufs s ! i) = B_VALID \<longrightarrow> b_data (bufs s ! i) = disk s 1 (b_blockno (bufs s ! i)))"
    "\<And>i. i < NBUF \<Longrightarrow> length (b_data (bufs s ! i)) = BSIZE \<and> b_flags (bufs s ! i) \<in> {0, B_VALID, B_VALID OR B_DIRTY}
        \<and> (if b_flags (bufs s ! i) = 0 then b_dev (bufs s ! i) = 0
           else b_dev (bufs s ! i) = 1 \<and> b_blockno (bufs s ! i) < disksize s)"
    "\<And>i j blk. buf_is s i blk \<Longrightarrow> buf_is s j blk \<Longrightarrow> i = j"
    "\<And>blk. blk < disksize s \<Longrightarrow> length (disk s 1 blk) = BSIZE"
  shows "cache_ok p H s"
  unfolding cache_ok_def using assms by (intro conjI allI impI) simp_all

lemma bview_buf:
  assumes "cache_ok p H s" "buf_is s i blk"
  shows "bview s blk = b_data (bufs s ! i)"
proof -
  have "find (\<lambda>i. b_dev (bufs s ! i) = 1 \<and> b_blockno (bufs s ! i) = blk) (lru s) = Some i"
    using assms(2) cache_okD(4) [OF assms(1)] cache_okD(12) [OF assms(1)]
    by (intro find_unique) (auto simp: buf_is_def)
  then show ?thesis by (simp add: bview_def)
qed

lemma bview_disk:
  assumes "cache_ok p H s" "\<And>i. \<not> buf_is s i blk"
  shows "bview s blk = disk s 1 blk"
proof -
  have "find (\<lambda>i. b_dev (bufs s ! i) = 1 \<and> b_blockno (bufs s ! i) = blk) (lru s) = None"
    using assms(2) cache_okD(4) [OF assms(1)] by (auto simp: buf_is_def find_None_iff)
  then show ?thesis by (simp add: bview_def)
qed

section \<open>Cache operations\<close>

lemma flag_simps [simp]:
  "(0::u32) AND B_VALID = 0" "B_VALID AND B_VALID = B_VALID" "(B_VALID OR B_DIRTY) AND B_VALID = B_VALID"
  "B_VALID AND B_DIRTY = 0" "(0::u32) AND B_DIRTY = 0" "(B_VALID OR B_DIRTY) AND B_DIRTY = B_DIRTY"
  "B_VALID \<noteq> 0" "B_DIRTY \<noteq> 0" "B_VALID OR B_DIRTY \<noteq> 0" "B_VALID OR B_DIRTY \<noteq> B_VALID" "B_VALID \<noteq> B_VALID OR B_DIRTY"
  "B_DIRTY \<noteq> B_VALID" "(B_VALID OR B_DIRTY) AND (B_VALID OR B_DIRTY) = (B_VALID OR B_DIRTY)"
  "B_VALID AND (B_VALID OR B_DIRTY) = B_VALID" "(0::u32) AND (B_VALID OR B_DIRTY) = 0"
  "(B_VALID OR B_DIRTY) AND NOT B_DIRTY = B_VALID" "(B_VALID OR B_DIRTY) OR B_DIRTY = (B_VALID OR B_DIRTY)"
  "B_VALID OR B_VALID = B_VALID"
  by (simp_all add: B_VALID_def B_DIRTY_def)

lemma upd_buf_sel [simp]:
  "thiscpu (upd_buf i f s) = thiscpu s" "fl_if (upd_buf i f s) = fl_if s" "held (upd_buf i f s) = held s"
  "procs (upd_buf i f s) = procs s" "sleeplocks (upd_buf i f s) = sleeplocks s" "lru (upd_buf i f s) = lru s"
  "disk (upd_buf i f s) = disk s" "disksize (upd_buf i f s) = disksize s" "dwrites (upd_buf i f s) = dwrites s"
  "bufs (upd_buf i f s) = (bufs s)[i := f (bufs s ! i)]"
  by (simp_all add: upd_buf_def)

lemma set_sleeplock_bio [simp]:
  "bufs (set_sleeplock lk b x s) = bufs s" "lru (set_sleeplock lk b x s) = lru s" "disk (set_sleeplock lk b x s) = disk s"
  "disksize (set_sleeplock lk b x s) = disksize s" "dwrites (set_sleeplock lk b x s) = dwrites s"
  by (simp_all add: set_sleeplock_def)

lemma in_proc_upd [simp]:
  "in_proc p (upd_buf i f s) = in_proc p s" "in_proc p (set_sleeplock lk b x s) = in_proc p s"
  "in_proc p (s\<lparr>thiscpu := settled s\<rparr>) = in_proc p s" "in_proc p (disk_write d k y s) = in_proc p s"
  "in_proc p (s\<lparr>lru := r\<rparr>) = in_proc p s"
  by (simp_all add: in_proc_def wf_cpu_def disk_write_def)

definition lock_buf :: "nat \<Rightarrow> nat \<Rightarrow> (buf \<Rightarrow> buf) \<Rightarrow> 'a bio_scheme \<Rightarrow> 'a bio_scheme" where
  "lock_buf p i f s = (set_sleeplock (BUF_SLEEP i) True (p_pid (procs s ! p)) (upd_buf i f s))\<lparr>thiscpu := settled s\<rparr>"

lemma bget_cached:
  assumes ok: "cache_ok p H s" and i: "buf_is s i blk" "i \<notin> H" and w: "w_fuel w = Suc f"
  shows "bget w 1 blk s = Ok (i, lock_buf p i (\<lambda>b. b\<lparr>b_refcnt := 1\<rparr>) s)"
proof -
  have "find (\<lambda>i. b_dev (bufs s ! i) = 1 \<and> b_blockno (bufs s ! i) = blk) (lru s) = Some i"
    using i cache_okD(4,12) [OF ok] by (intro find_unique) (auto simp: buf_is_def)
  moreover have "in_proc p s" "b_refcnt (bufs s ! i) = 0" "\<not> sl_locked (sleeplocks s (BUF_SLEEP i))"
    using cache_okD(1,7) [OF ok] i by (auto simp: buf_is_def)
  moreover from this have
    "acquiresleep (Suc f) (w_env w) (BUF_SLEEP i) ((upd_buf i (\<lambda>b. b\<lparr>b_refcnt := b_refcnt b + 1\<rparr>) s)\<lparr>thiscpu := settled s\<rparr>)
      = Ok (lock_buf p i (\<lambda>b. b\<lparr>b_refcnt := 1\<rparr>) s)"
    by (subst acquiresleep_free [of p])
      (simp_all add: in_proc_def wf_cpu_def lock_buf_def, simp add: set_sleeplock_def upd_buf_def)
  ultimately show ?thesis using w
    by (simp add: bget_def in_proc_def acquire_eq release_eq wf_cpu_def Let_def) (simp add: upd_buf_def)
qed

lemma filled_buf:
  "b\<lparr>b_dev := dv, b_blockno := k, b_refcnt := r, b_data := d, b_flags := fl\<rparr>
     = \<lparr>b_flags = fl, b_dev = dv, b_blockno = k, b_refcnt = r, b_data = d\<rparr>"
  by (cases b) simp

lemma bget_recycle:
  assumes ok: "cache_ok p H s" and none: "\<And>i. \<not> buf_is s i blk" and w: "w_fuel w = Suc f"
    and free: "j < NBUF" "j \<notin> H" "j \<notin> dirty_bufs s"
  shows "\<exists>i. i < NBUF \<and> i \<notin> H \<and> i \<notin> dirty_bufs s
    \<and> bget w 1 blk s = Ok (i, lock_buf p i (\<lambda>b. b\<lparr>b_dev := 1, b_blockno := blk, b_flags := 0, b_refcnt := 1\<rparr>) s)"
proof -
  have n1: "find (\<lambda>i. b_dev (bufs s ! i) = 1 \<and> b_blockno (bufs s ! i) = blk) (lru s) = None"
    using none cache_okD(4) [OF ok] by (auto simp: buf_is_def find_None_iff)
  have cl: "b_refcnt (bufs s ! i) = 0 \<and> b_flags (bufs s ! i) AND B_DIRTY = 0 \<longleftrightarrow> i \<notin> H \<and> i \<notin> dirty_bufs s"
    if "i < NBUF" for i
    using cache_okD(6,7,9) [OF ok, of i] that by (auto simp: dirty_bufs_def)
  have "find (\<lambda>i. b_refcnt (bufs s ! i) = 0 \<and> b_flags (bufs s ! i) AND B_DIRTY = 0) (rev (lru s)) \<noteq> None"
    using free cl [OF free(1)] cache_okD(4) [OF ok] by (auto simp: find_None_iff)
  then obtain i where i: "find (\<lambda>i. b_refcnt (bufs s ! i) = 0 \<and> b_flags (bufs s ! i) AND B_DIRTY = 0) (rev (lru s)) = Some i"
    by blast
  have "b_refcnt (bufs s ! i) = 0 \<and> b_flags (bufs s ! i) AND B_DIRTY = 0" "i \<in> set (lru s)"
    using find_SomeD [OF i] by simp_all
  then have i2: "i < NBUF" "i \<notin> H" "i \<notin> dirty_bufs s" using cl cache_okD(4) [OF ok] by auto
  have "in_proc p s" "\<not> sl_locked (sleeplocks s (BUF_SLEEP i))"
    using cache_okD(1,7) [OF ok] i2 by auto
  moreover from this have
    "acquiresleep (Suc f) (w_env w) (BUF_SLEEP i) ((upd_buf i (\<lambda>b. b\<lparr>b_dev := 1, b_blockno := blk, b_flags := 0, b_refcnt := 1\<rparr>) s)\<lparr>thiscpu := settled s\<rparr>)
      = Ok (lock_buf p i (\<lambda>b. b\<lparr>b_dev := 1, b_blockno := blk, b_flags := 0, b_refcnt := 1\<rparr>) s)"
    by (subst acquiresleep_free [of p])
      (simp_all add: in_proc_def wf_cpu_def lock_buf_def, simp add: set_sleeplock_def upd_buf_def)
  ultimately have "bget w 1 blk s = Ok (i, lock_buf p i (\<lambda>b. b\<lparr>b_dev := 1, b_blockno := blk, b_flags := 0, b_refcnt := 1\<rparr>) s)"
    using w n1 i by (simp add: bget_def in_proc_def acquire_eq release_eq wf_cpu_def Let_def) (simp add: upd_buf_def)
  then show ?thesis using i2 by blast
qed

lemma lock_buf_sel [simp]:
  "bufs (lock_buf p i f s) = (bufs s)[i := f (bufs s ! i)]" "lru (lock_buf p i f s) = lru s"
  "disk (lock_buf p i f s) = disk s" "disksize (lock_buf p i f s) = disksize s" "dwrites (lock_buf p i f s) = dwrites s"
  "procs (lock_buf p i f s) = procs s" "in_proc p (lock_buf p i f s) = in_proc p s"
  "sleeplocks (lock_buf p i f s) = (sleeplocks s)(BUF_SLEEP i := \<lparr>sl_locked = True, sl_pid = p_pid (procs s ! p)\<rparr>)"
  by (simp_all add: lock_buf_def in_proc_def wf_cpu_def) (simp_all add: set_sleeplock_def)

lemma bio_step_lock_buf: "bio_step s (lock_buf p i f s)"
proof -
  have "lock_buf p i f s = s\<lparr>thiscpu := settled s, procs := procs s,
      sleeplocks := (sleeplocks s)(BUF_SLEEP i := \<lparr>sl_locked = True, sl_pid = p_pid (procs s ! p)\<rparr>),
      bufs := (bufs s)[i := f (bufs s ! i)], lru := lru s, disk := disk s, dwrites := dwrites s\<rparr>"
    by (simp add: lock_buf_def set_sleeplock_def upd_buf_def)
  then show ?thesis by (rule bio_stepI) simp
qed

lemma cache_ok_lock:
  assumes "cache_ok p H s" "buf_is s i blk" "i \<notin> H"
  shows "cache_ok p (insert i H) (lock_buf p i (\<lambda>b. b\<lparr>b_refcnt := 1\<rparr>) s)"
proof -
  have i: "i < NBUF" "length (bufs s) = NBUF" "b_flags (bufs s ! i) \<noteq> 0"
    using assms cache_okD(2,10) [OF assms(1)] by (auto simp: buf_is_def)
  have bi: "buf_is (lock_buf p i (\<lambda>b. b\<lparr>b_refcnt := 1\<rparr>) s) k b = buf_is s k b" for k b
    using i by (auto simp: buf_is_def nth_list_update)
  show ?thesis
    using assms(1) i unfolding cache_ok_def bi by (auto simp: nth_list_update)
qed

lemma buf_is_fill:
  assumes "length (bufs s) = NBUF" "bufs t = (bufs s)[i := b]" "i < NBUF" "b_dev b = 1" "b_blockno b = blk"
  shows "buf_is t k x \<longleftrightarrow> (if k = i then x = blk else buf_is s k x)"
  using assms by (auto simp: buf_is_def nth_list_update)

lemma cache_ok_fill:
  assumes ok: "cache_ok p H s" and none: "\<And>i. \<not> buf_is s i blk" and i: "i < NBUF" "i \<notin> H"
    and blk: "blk < disksize s"
    and P: "woken (procs s) P" "in_proc p (s\<lparr>thiscpu := c, procs := P\<rparr>)"
  shows "cache_ok p (insert i H) (s\<lparr>thiscpu := c, procs := P,
         sleeplocks := (sleeplocks s)(BUF_SLEEP i := \<lparr>sl_locked = True, sl_pid = p_pid (procs s ! p)\<rparr>),
         bufs := (bufs s)[i := \<lparr>b_flags = B_VALID, b_dev = 1, b_blockno = blk, b_refcnt = 1, b_data = disk s 1 blk\<rparr>]\<rparr>)"
    (is "cache_ok p _ ?t")
proof -
  have len: "length (bufs s) = NBUF" "p < length (procs s)" using cache_okD(1,2) [OF ok] by (auto simp: in_proc_def)
  have bi: "buf_is ?t k x \<longleftrightarrow> (if k = i then x = blk else buf_is s k x)" for k x
    using len(1) i(1) by - (rule buf_is_fill, simp, simp, simp_all)
  have pid: "p_pid (P ! p) = p_pid (procs s ! p)" using woken_pid(1) [OF P(1) len(2)] .
  have ip: "in_proc p ?t" using P(2) by (simp add: in_proc_def wf_cpu_def)
  show ?thesis
  proof (rule cache_okI)
    fix k assume k: "k < NBUF"
    show "k \<in> insert i H \<Longrightarrow> b_refcnt (bufs ?t ! k) = 1 \<and> b_flags (bufs ?t ! k) \<noteq> 0
        \<and> sleeplocks ?t (BUF_SLEEP k) = \<lparr>sl_locked = True, sl_pid = p_pid (procs ?t ! p)\<rparr>"
      using cache_okD(6) [OF ok, of k] len i by (auto simp: nth_list_update pid)
    show "k \<notin> insert i H \<Longrightarrow> b_refcnt (bufs ?t ! k) = 0 \<and> \<not> sl_locked (sleeplocks ?t (BUF_SLEEP k))
        \<and> (b_flags (bufs ?t ! k) = B_VALID \<longrightarrow> b_data (bufs ?t ! k) = disk ?t 1 (b_blockno (bufs ?t ! k)))"
      using cache_okD(7) [OF ok, of k] len k by simp
    show "length (b_data (bufs ?t ! k)) = BSIZE \<and> b_flags (bufs ?t ! k) \<in> {0, B_VALID, B_VALID OR B_DIRTY}
        \<and> (if b_flags (bufs ?t ! k) = 0 then b_dev (bufs ?t ! k) = 0
           else b_dev (bufs ?t ! k) = 1 \<and> b_blockno (bufs ?t ! k) < disksize ?t)"
      using cache_okD(8-11) [OF ok, of k] cache_okD(13) [OF ok, of blk] len k blk i
      by (cases "k = i") auto
  next
    show "buf_is ?t k x \<Longrightarrow> buf_is ?t j x \<Longrightarrow> k = j" for k j x
      using none cache_okD(12) [OF ok, of k x j] by (auto simp: bi split: if_splits)
  qed (use ip len i cache_okD(3-5,13) [OF ok] in simp_all)
qed

text \<open>The cache as its clients see it: the blocks' contents, the disk and the pinned blocks.\<close>

definition bio_same :: "nat set \<Rightarrow> 'a bio_scheme \<Rightarrow> 'a bio_scheme \<Rightarrow> bool" where
  "bio_same H s s' \<longleftrightarrow> bio_step s s' \<and> bview s' = bview s \<and> disk s' = disk s \<and> dwrites s' = dwrites s
     \<and> dirty_blks s' = dirty_blks s \<and> (\<forall>k\<in>H. bufs s' ! k = bufs s ! k)"

lemma dirty_dev: "cache_ok p H s \<Longrightarrow> i \<in> dirty_bufs s \<Longrightarrow> i < NBUF \<and> buf_is s i (b_blockno (bufs s ! i))"
  using cache_okD(11) [of p H s i] by (auto simp: dirty_bufs_def buf_is_def)

lemma card_dirty: "cache_ok p H s \<Longrightarrow> card (dirty_blks s) = card (dirty_bufs s)"
  unfolding dirty_blks_def using dirty_dev [of p H s] cache_okD(12) [of p H s]
  by (intro card_image inj_onI) metis

lemma dirty_blk_iff:
  assumes "cache_ok p H s" "buf_is s i blk"
  shows "blk \<in> dirty_blks s \<longleftrightarrow> i \<in> dirty_bufs s"
proof
  assume "blk \<in> dirty_blks s"
  then obtain k where "k \<in> dirty_bufs s" "b_blockno (bufs s ! k) = blk" by (auto simp: dirty_blks_def)
  then show "i \<in> dirty_bufs s" using dirty_dev [OF assms(1), of k] cache_okD(12) [OF assms, of k] by blast
next
  assume "i \<in> dirty_bufs s"
  then show "blk \<in> dirty_blks s" using assms(2) by (auto simp: dirty_blks_def buf_is_def)
qed

text \<open>Fewer pinned and locked blocks than buffers leave a buffer to recycle.\<close>

lemma free_buffer:
  assumes ok: "cache_ok p H s" and room: "card H + card (dirty_blks s) < NBUF"
  obtains j where "j < NBUF" "j \<notin> H" "j \<notin> dirty_bufs s"
proof -
  have "card (H \<union> dirty_bufs s) < card {..<NBUF}"
    using card_Un_le [of H "dirty_bufs s"] card_dirty [OF ok] room by simp
  moreover have "finite (H \<union> dirty_bufs s)"
    using finite_subset [OF cache_okD(5) [OF ok]] by (auto simp: dirty_bufs_def)
  ultimately have "\<not> {..<NBUF} \<subseteq> H \<union> dirty_bufs s" by (meson card_mono not_le)
  then show thesis using that by auto
qed

lemma not_held: "cache_ok p H s \<Longrightarrow> buf_is s i blk \<Longrightarrow> blk \<notin> held_blks H s \<Longrightarrow> i \<notin> H"
  by (auto simp: held_blks_def buf_is_def)

lemma bview_unchanged:
  assumes ok: "cache_ok p H s" "cache_ok p' H' s'" and d: "disk s' 1 blk = disk s 1 blk"
    and b: "\<And>i. buf_is s' i blk = buf_is s i blk" "\<And>i. buf_is s i blk \<Longrightarrow> b_data (bufs s' ! i) = b_data (bufs s ! i)"
  shows "bview s' blk = bview s blk"
proof (cases "\<exists>i. buf_is s i blk")
  case True
  then obtain i where "buf_is s i blk" ..
  then show ?thesis using bview_buf [OF ok(1), of i] bview_buf [OF ok(2), of i] b by simp
next
  case False
  then show ?thesis using bview_disk [OF ok(1)] bview_disk [OF ok(2)] b(1) d by simp
qed

lemma bio_same_hit:
  assumes ok: "cache_ok p H s" and i: "buf_is s i blk" "i \<notin> H"
  shows "bio_same H s (lock_buf p i (\<lambda>b. b\<lparr>b_refcnt := 1\<rparr>) s)" (is "bio_same H s ?t")
proof -
  have len: "i < NBUF" "length (bufs s) = NBUF" using i cache_okD(2) [OF ok] by (auto simp: buf_is_def)
  have "bview ?t x = bview s x" for x
    by (rule bview_unchanged [OF ok cache_ok_lock [OF ok i]]) (auto simp: buf_is_def nth_list_update len)
  moreover have "dirty_blks ?t = dirty_blks s"
    by (auto simp: dirty_blks_def dirty_bufs_def nth_list_update len image_def)
  ultimately show ?thesis
    using bio_step_lock_buf i(2) by (auto simp: bio_same_def nth_update_notin)
qed

lemma bio_same_fill:
  assumes ok: "cache_ok p H s" and none: "\<And>i. \<not> buf_is s i blk" and i: "i < NBUF" "i \<notin> H" "i \<notin> dirty_bufs s"
    and ok': "cache_ok p (insert i H) t" and t: "t = s\<lparr>thiscpu := c, procs := P, sleeplocks := L,
       bufs := (bufs s)[i := \<lparr>b_flags = B_VALID, b_dev = 1, b_blockno = blk, b_refcnt = 1, b_data = disk s 1 blk\<rparr>]\<rparr>"
    and P: "woken (procs s) P"
  shows "bio_same H s t"
proof -
  have len: "length (bufs s) = NBUF" using cache_okD(2) [OF ok] .
  have bt: "bufs t = (bufs s)[i := \<lparr>b_flags = B_VALID, b_dev = 1, b_blockno = blk, b_refcnt = 1, b_data = disk s 1 blk\<rparr>]"
    and dt: "disk t = disk s" "dwrites t = dwrites s" using t by simp_all
  have bi: "buf_is t k x \<longleftrightarrow> (if k = i then x = blk else buf_is s k x)" for k x
    using len i(1) bt by (auto simp: buf_is_def nth_list_update)
  have "bview t x = bview s x" for x
  proof (cases "x = blk \<or> buf_is s i x")
    case True
    have "bview s x = disk s 1 x"
    proof (cases "x = blk")
      case False
      then have b: "buf_is s i x" using True by simp
      then have "b_flags (bufs s ! i) = B_VALID"
        using i cache_okD(9,10) [OF ok i(1)] by (auto simp: buf_is_def dirty_bufs_def)
      then show ?thesis using cache_okD(7) [OF ok i(1,2)] bview_buf [OF ok b] b by (simp add: buf_is_def)
    qed (use bview_disk [OF ok] none in simp)
    moreover have "bview t x = disk s 1 x"
    proof (cases "x = blk")
      case True
      then show ?thesis using bview_buf [OF ok', of i x] len i(1) by (simp add: bi bt)
    next
      case False
      then have "buf_is s i x" using True by simp
      then have "\<not> buf_is t k x" for k using False cache_okD(12) [OF ok, of i x k] by (auto simp: bi)
      then show ?thesis using bview_disk [OF ok'] dt by simp
    qed
    ultimately show ?thesis by simp
  next
    case False
    then show ?thesis by (intro bview_unchanged [OF ok ok']) (auto simp: bi bt dt, metis nth_list_update_neq)
  qed
  moreover have "dirty_bufs t = dirty_bufs s"
    using i(3) by (auto simp: dirty_bufs_def bt nth_list_update len i(1))
  then have "dirty_blks t = dirty_blks s"
    using i(3) unfolding dirty_blks_def by (intro image_cong) (auto simp: bt nth_update_notin)
  moreover have "bio_step s t" using t P by (intro bio_stepI [where R = "lru s" and D = "disk s" and W = "dwrites s"]) simp_all
  ultimately show ?thesis using i(2) by (auto simp: bio_same_def dt bt nth_update_notin)
qed

lemma bview_clean:
  assumes ok: "cache_ok p H s" and blk: "blk \<notin> dirty_blks s" "blk \<notin> held_blks H s"
  shows "bview s blk = disk s 1 blk"
proof (cases "\<exists>i. buf_is s i blk")
  case True
  then obtain i where i: "buf_is s i blk" by blast
  then have i': "i < NBUF" "i \<notin> H" "b_blockno (bufs s ! i) = blk" using not_held [OF ok i blk(2)] by (auto simp: buf_is_def)
  moreover have "b_flags (bufs s ! i) = B_VALID"
    using cache_okD(9,10) [OF ok i'(1)] dirty_blk_iff [OF ok i] blk(1) i by (auto simp: buf_is_def dirty_bufs_def)
  ultimately show ?thesis using cache_okD(7) [OF ok i'(1,2)] bview_buf [OF ok i] by simp
next
  case False
  then show ?thesis by (intro bview_disk [OF ok]) blast
qed

lemma held_blks_simps [simp]: "held_blks {} s = {}" "held_blks (insert i H) s = insert (b_blockno (bufs s ! i)) (held_blks H s)"
  by (simp_all add: held_blks_def)

lemma bio_same_buf_is: "bio_same H s s' \<Longrightarrow> i \<in> H \<Longrightarrow> buf_is s i blk \<Longrightarrow> buf_is s' i blk"
  by (simp add: bio_same_def buf_is_def)

text \<open>Changing the contents of a locked buffer, and pinning it.\<close>

lemma cache_ok_upd:
  assumes ok: "cache_ok p H s" and i: "i \<in> H"
    and f: "\<And>b. b_dev (f b) = b_dev b" "\<And>b. b_blockno (f b) = b_blockno b" "\<And>b. b_refcnt (f b) = b_refcnt b"
      "length (b_data (f (bufs s ! i))) = BSIZE" "b_flags (f (bufs s ! i)) \<in> {B_VALID, B_VALID OR B_DIRTY}"
  shows "cache_ok p H (upd_buf i f s)" "buf_is (upd_buf i f s) k x = buf_is s k x"
proof -
  let ?t = "upd_buf i f s"
  have len: "length (bufs s) = NBUF" "i < NBUF" using cache_okD(2) [OF ok] cache_okD(6) [OF ok i] by simp_all
  have bi: "buf_is ?t k x = buf_is s k x" for k x
    using len f by (auto simp: buf_is_def nth_list_update)
  then show "buf_is ?t k x = buf_is s k x" .
  show "cache_ok p H ?t"
  proof (rule cache_okI)
    fix k assume k: "k < NBUF"
    show "k \<in> H \<Longrightarrow> b_refcnt (bufs ?t ! k) = 1 \<and> b_flags (bufs ?t ! k) \<noteq> 0
        \<and> sleeplocks ?t (BUF_SLEEP k) = \<lparr>sl_locked = True, sl_pid = p_pid (procs ?t ! p)\<rparr>"
      using cache_okD(6) [OF ok, of k] len k f by (cases "k = i") auto
    show "k \<notin> H \<Longrightarrow> b_refcnt (bufs ?t ! k) = 0 \<and> \<not> sl_locked (sleeplocks ?t (BUF_SLEEP k))
        \<and> (b_flags (bufs ?t ! k) = B_VALID \<longrightarrow> b_data (bufs ?t ! k) = disk ?t 1 (b_blockno (bufs ?t ! k)))"
      using cache_okD(7) [OF ok k] i by (cases "k = i") auto
    show "length (b_data (bufs ?t ! k)) = BSIZE \<and> b_flags (bufs ?t ! k) \<in> {0, B_VALID, B_VALID OR B_DIRTY}
        \<and> (if b_flags (bufs ?t ! k) = 0 then b_dev (bufs ?t ! k) = 0
           else b_dev (bufs ?t ! k) = 1 \<and> b_blockno (bufs ?t ! k) < disksize ?t)"
      using cache_okD(8-11) [OF ok k] cache_okD(6) [OF ok i] len f by (cases "k = i") auto
  next
    show "buf_is ?t k x \<Longrightarrow> buf_is ?t j x \<Longrightarrow> k = j" for k j x
      using cache_okD(12) [OF ok, of k x j] by (simp add: bi)
  qed (use len cache_okD(1,3-5,13) [OF ok] in simp_all)
qed

lemma bio_step_upd: "bio_step s (upd_buf i f s)"
  by (rule bio_stepI [where c = "thiscpu s" and P = "procs s" and L = "sleeplocks s" and R = "lru s" and D = "disk s" and W = "dwrites s"])
    (simp_all add: upd_buf_def)

lemma set_data_spec:
  assumes ok: "cache_ok p H s" and i: "i \<in> H" "buf_is s i blk" and d: "length d = BSIZE"
  defines "t \<equiv> upd_buf i (\<lambda>b. b\<lparr>b_data := d\<rparr>) s"
  shows "cache_ok p H t" "bview t = (bview s)(blk := d)" "dirty_blks t = dirty_blks s" "buf_is t k x = buf_is s k x"
proof -
  have len: "length (bufs s) = NBUF" "i < NBUF" using cache_okD(2) [OF ok] cache_okD(6) [OF ok i(1)] by simp_all
  have fl: "b_flags (bufs s ! i) \<in> {B_VALID, B_VALID OR B_DIRTY}" using cache_okD(6,9) [OF ok, of i] i by auto
  show ok': "cache_ok p H t" unfolding t_def by (rule cache_ok_upd [OF ok i(1)]) (use d fl in simp_all)
  have bi: "buf_is t k x = buf_is s k x" for k x
    unfolding t_def by (rule cache_ok_upd [OF ok i(1)]) (use d fl in simp_all)
  then show "buf_is t k x = buf_is s k x" .
  have "bview t x = (if x = blk then d else bview s x)" for x
  proof (cases "x = blk")
    case True
    then show ?thesis using bview_buf [OF ok', of i blk] i len by (simp add: bi) (simp add: t_def)
  next
    case False
    have "i \<noteq> k" if "buf_is s k x" for k using that i(2) False by (auto simp: buf_is_def)
    then have "bview t x = bview s x"
      by (intro bview_unchanged [OF ok ok']) (simp_all add: bi, simp_all add: t_def)
    then show ?thesis using False by simp
  qed
  then show "bview t = (bview s)(blk := d)" by (auto simp: fun_eq_iff)
  show "dirty_blks t = dirty_blks s"
    using len by (auto simp: t_def dirty_blks_def dirty_bufs_def nth_list_update image_def)
qed

lemma mark_dirty_spec:
  assumes ok: "cache_ok p H s" and i: "i \<in> H" "buf_is s i blk"
  defines "t \<equiv> upd_buf i (\<lambda>b. b\<lparr>b_flags := b_flags b OR B_DIRTY\<rparr>) s"
  shows "cache_ok p H t" "bview t = bview s" "dirty_blks t = insert blk (dirty_blks s)" "buf_is t k x = buf_is s k x"
    "b_flags (bufs t ! i) = (B_VALID OR B_DIRTY)"
proof -
  have len: "length (bufs s) = NBUF" "i < NBUF" using cache_okD(2) [OF ok] cache_okD(6) [OF ok i(1)] by simp_all
  have fl: "b_flags (bufs s ! i) \<in> {B_VALID, B_VALID OR B_DIRTY}" using cache_okD(6,9) [OF ok, of i] i by auto
  then have fl': "b_flags (bufs s ! i) OR B_DIRTY = (B_VALID OR B_DIRTY)" by auto
  then show "b_flags (bufs t ! i) = (B_VALID OR B_DIRTY)" using len by (simp add: t_def)
  show ok': "cache_ok p H t" unfolding t_def by (rule cache_ok_upd [OF ok i(1)]) (use cache_okD(8) [OF ok len(2)] fl' in simp_all)
  have bi: "buf_is t k x = buf_is s k x" for k x
    unfolding t_def by (rule cache_ok_upd [OF ok i(1)]) (use cache_okD(8) [OF ok len(2)] fl' in simp_all)
  then show "buf_is t k x = buf_is s k x" .
  have "bview t x = bview s x" for x
    by (rule bview_unchanged [OF ok ok']) (use len in \<open>simp_all add: bi, simp_all add: t_def nth_list_update\<close>)
  then show "bview t = bview s" by (simp add: fun_eq_iff)
  have "dirty_bufs t = insert i (dirty_bufs s)"
    using len fl' by (auto simp: t_def dirty_bufs_def nth_list_update)
  moreover have "b_blockno (bufs t ! k) = b_blockno (bufs s ! k)" for k
    using len by (cases "k = i") (simp_all add: t_def)
  ultimately show "dirty_blks t = insert blk (dirty_blks s)"
    using i(2) by (simp add: dirty_blks_def buf_is_def)
qed

text \<open>Releasing a buffer that is clean and agrees with the disk, or pinned.\<close>

lemma brelse_eq:
  assumes ok: "cache_ok p H s" and i: "i \<in> H"
  shows "\<exists>c P. brelse i s = Ok (s\<lparr>thiscpu := c, procs := P,
      sleeplocks := (sleeplocks s)(BUF_SLEEP i := \<lparr>sl_locked = False, sl_pid = 0\<rparr>),
      bufs := (bufs s)[i := (bufs s ! i)\<lparr>b_refcnt := 0\<rparr>], lru := i # remove1 i (lru s)\<rparr>)
    \<and> woken (procs s) P \<and> in_proc p (s\<lparr>thiscpu := c, procs := P\<rparr>)"
proof -
  have ip: "in_proc p s" and sl: "sleeplocks s (BUF_SLEEP i) = \<lparr>sl_locked = True, sl_pid = p_pid (procs s ! p)\<rparr>"
    and rc: "b_refcnt (bufs s ! i) = 1" and len: "i < length (bufs s)"
    using cache_okD(1,2) [OF ok] cache_okD(6) [OF ok i] by simp_all
  let ?P = "procs (wakeup1 (CHAN_SLEEP (BUF_SLEEP i)) s)"
  let ?t = "s\<lparr>thiscpu := settled s\<rparr>"
  have ip': "in_proc p ?t" using ip by simp
  have "brelse i s = Ok (s\<lparr>thiscpu := settled s, procs := ?P,
      sleeplocks := (sleeplocks s)(BUF_SLEEP i := \<lparr>sl_locked = False, sl_pid = 0\<rparr>),
      bufs := (bufs s)[i := (bufs s ! i)\<lparr>b_refcnt := 0\<rparr>], lru := i # remove1 i (lru s)\<rparr>)"
    using ip sl rc len
    by (simp add: brelse_def holdingsleep_eq [OF ip] releasesleep_eq [OF ip'] acquire_eq release_eq in_proc_def wf_cpu_def wakeup1_def Let_def)
      (rule bio.equality, simp_all add: set_sleeplock_def upd_buf_def)
  moreover have "in_proc p (s\<lparr>thiscpu := settled s, procs := ?P\<rparr>)"
    using ip by (simp add: in_proc_def wf_cpu_def wakeup1_def)
  ultimately show ?thesis using woken_wakeup1 by blast
qed

lemma brelse_spec:
  assumes ok: "cache_ok p H s" and i: "i \<in> H" "buf_is s i blk" and clean: "blk \<in> dirty_blks s \<or> bview s blk = disk s 1 blk"
  shows "\<exists>s'. brelse i s = Ok s' \<and> cache_ok p (H - {i}) s' \<and> bio_same (H - {i}) s s' \<and> (\<forall>k x. buf_is s' k x = buf_is s k x)"
proof -
  obtain c P where r: "brelse i s = Ok (s\<lparr>thiscpu := c, procs := P,
      sleeplocks := (sleeplocks s)(BUF_SLEEP i := \<lparr>sl_locked = False, sl_pid = 0\<rparr>),
      bufs := (bufs s)[i := (bufs s ! i)\<lparr>b_refcnt := 0\<rparr>], lru := i # remove1 i (lru s)\<rparr>)" (is "_ = Ok ?t")
    and P: "woken (procs s) P" "in_proc p (s\<lparr>thiscpu := c, procs := P\<rparr>)"
    using brelse_eq [OF ok i(1)] by blast
  have len: "length (bufs s) = NBUF" "i < NBUF" "p < length (procs s)"
    using cache_okD(1,2) [OF ok] cache_okD(6) [OF ok i(1)] by (simp_all add: in_proc_def)
  have pid: "p_pid (P ! p) = p_pid (procs s ! p)" using woken_pid(1) [OF P(1) len(3)] .
  have bi: "buf_is ?t k x = buf_is s k x" for k x
    using len by (auto simp: buf_is_def nth_list_update)
  have ip: "in_proc p ?t" using P(2) by (simp add: in_proc_def wf_cpu_def)
  have data: "b_flags (bufs s ! i) = B_VALID \<longrightarrow> b_data (bufs s ! i) = disk s 1 (b_blockno (bufs s ! i))"
    using clean bview_buf [OF ok i(2)] i(2) dirty_blk_iff [OF ok i(2)] by (auto simp: buf_is_def dirty_bufs_def)
  have lru: "distinct (lru ?t)" "set (lru ?t) = {..<NBUF}"
    using cache_okD(3,4) [OF ok] len(2) by (auto simp: set_remove1_eq)
  have ok': "cache_ok p (H - {i}) ?t"
  proof (rule cache_okI)
    fix k assume k: "k < NBUF"
    show "k \<in> H - {i} \<Longrightarrow> b_refcnt (bufs ?t ! k) = 1 \<and> b_flags (bufs ?t ! k) \<noteq> 0
        \<and> sleeplocks ?t (BUF_SLEEP k) = \<lparr>sl_locked = True, sl_pid = p_pid (procs ?t ! p)\<rparr>"
      using cache_okD(6) [OF ok, of k] by (simp add: pid)
    show "k \<notin> H - {i} \<Longrightarrow> b_refcnt (bufs ?t ! k) = 0 \<and> \<not> sl_locked (sleeplocks ?t (BUF_SLEEP k))
        \<and> (b_flags (bufs ?t ! k) = B_VALID \<longrightarrow> b_data (bufs ?t ! k) = disk ?t 1 (b_blockno (bufs ?t ! k)))"
      using cache_okD(7) [OF ok k] data len k by (cases "k = i") auto
    show "length (b_data (bufs ?t ! k)) = BSIZE \<and> b_flags (bufs ?t ! k) \<in> {0, B_VALID, B_VALID OR B_DIRTY}
        \<and> (if b_flags (bufs ?t ! k) = 0 then b_dev (bufs ?t ! k) = 0
           else b_dev (bufs ?t ! k) = 1 \<and> b_blockno (bufs ?t ! k) < disksize ?t)"
      using cache_okD(8-11) [OF ok k] len by (cases "k = i") auto
  next
    show "buf_is ?t k x \<Longrightarrow> buf_is ?t j x \<Longrightarrow> k = j" for k j x
      using cache_okD(12) [OF ok, of k x j] by (simp add: bi)
  qed (use ip len lru cache_okD(5,13) [OF ok] in auto)
  have "bview ?t x = bview s x" for x
    by (rule bview_unchanged [OF ok ok']) (use len in \<open>simp_all add: bi nth_list_update\<close>)
  moreover have "dirty_blks ?t = dirty_blks s"
    using len by (auto simp: dirty_blks_def dirty_bufs_def nth_list_update image_def)
  moreover have "bio_step s ?t" using P(1) by (intro bio_stepI [where D = "disk s" and W = "dwrites s"]) simp_all
  ultimately have "bio_same (H - {i}) s ?t" by (auto simp: bio_same_def)
  then show ?thesis using r ok' bi by blast
qed

text \<open>
  What the cache relies on in a disk driver: asked to fill an empty locked buffer it reads the
  block, asked to write a dirty one it writes it and marks it clean; nothing else changes but
  processes that are woken.
\<close>

locale disk_driver =
  fixes rw :: "nat \<Rightarrow> 'a bio_scheme \<Rightarrow> 'a bio_scheme res"
  assumes rw_read: "in_proc p s \<Longrightarrow> i < length (bufs s) \<Longrightarrow>
      sleeplocks s (BUF_SLEEP i) = \<lparr>sl_locked = True, sl_pid = p_pid (procs s ! p)\<rparr> \<Longrightarrow>
      b_flags (bufs s ! i) = 0 \<Longrightarrow> b_dev (bufs s ! i) = 1 \<Longrightarrow> b_blockno (bufs s ! i) < disksize s \<Longrightarrow>
      \<exists>c P. rw i s = Ok (s\<lparr>thiscpu := c, procs := P,
          bufs := (bufs s)[i := (bufs s ! i)\<lparr>b_data := disk s 1 (b_blockno (bufs s ! i)), b_flags := B_VALID\<rparr>]\<rparr>)
        \<and> woken (procs s) P \<and> in_proc p (s\<lparr>thiscpu := c, procs := P\<rparr>)"
    and rw_write: "in_proc p s \<Longrightarrow> i < length (bufs s) \<Longrightarrow>
      sleeplocks s (BUF_SLEEP i) = \<lparr>sl_locked = True, sl_pid = p_pid (procs s ! p)\<rparr> \<Longrightarrow>
      b_flags (bufs s ! i) = (B_VALID OR B_DIRTY) \<Longrightarrow> b_dev (bufs s ! i) = 1 \<Longrightarrow> b_blockno (bufs s ! i) < disksize s \<Longrightarrow>
      \<exists>c P. rw i s = Ok (disk_write 1 (b_blockno (bufs s ! i)) (b_data (bufs s ! i)) (s\<lparr>thiscpu := c, procs := P,
          bufs := (bufs s)[i := (bufs s ! i)\<lparr>b_flags := B_VALID\<rparr>]\<rparr>))
        \<and> woken (procs s) P \<and> in_proc p (s\<lparr>thiscpu := c, procs := P\<rparr>)"

begin

lemma bread_hit:
  assumes ok: "cache_ok p H s" and i: "buf_is s i blk" "i \<notin> H" and w: "w_fuel w = Suc f"
  shows "bread w 1 blk s = Ok (i, lock_buf p i (\<lambda>b. b\<lparr>b_refcnt := 1\<rparr>) s)"
proof -
  have "b_flags (bufs s ! i) \<in> {B_VALID, B_VALID OR B_DIRTY}" "i < length (bufs s)"
    using cache_okD(2) [OF ok] cache_okD(9,10) [OF ok, of i] i by (auto simp: buf_is_def)
  then have "b_flags (bufs s ! i) AND B_VALID \<noteq> 0" by auto
  then show ?thesis
    using bget_cached [OF ok i w] \<open>i < length (bufs s)\<close> by (simp add: bread_def)
qed

text \<open>Reading a block that is not cached fills a clean, unused buffer from the disk.\<close>

lemma bread_miss:
  assumes ok: "cache_ok p H s" and none: "\<And>i. \<not> buf_is s i blk" and w: "w_fuel w = Suc f" "w_iderw w = rw"
    and free: "j < NBUF" "j \<notin> H" "j \<notin> dirty_bufs s" and blk: "blk < disksize s"
  shows "\<exists>i c P. i < NBUF \<and> i \<notin> H \<and> i \<notin> dirty_bufs s
    \<and> bread w 1 blk s = Ok (i, s\<lparr>thiscpu := c, procs := P,
         sleeplocks := (sleeplocks s)(BUF_SLEEP i := \<lparr>sl_locked = True, sl_pid = p_pid (procs s ! p)\<rparr>),
         bufs := (bufs s)[i := \<lparr>b_flags = B_VALID, b_dev = 1, b_blockno = blk, b_refcnt = 1, b_data = disk s 1 blk\<rparr>]\<rparr>)
    \<and> woken (procs s) P \<and> in_proc p (s\<lparr>thiscpu := c, procs := P\<rparr>)"
proof -
  obtain i where i: "i < NBUF" "i \<notin> H" "i \<notin> dirty_bufs s"
    and g: "bget w 1 blk s = Ok (i, lock_buf p i (\<lambda>b. b\<lparr>b_dev := 1, b_blockno := blk, b_flags := 0, b_refcnt := 1\<rparr>) s)"
    using bget_recycle [OF ok none w(1) free] by blast
  let ?t = "lock_buf p i (\<lambda>b. b\<lparr>b_dev := 1, b_blockno := blk, b_flags := 0, b_refcnt := 1\<rparr>) s"
  have len: "i < length (bufs s)" using i cache_okD(2) [OF ok] by simp
  obtain c P where r: "rw i ?t = Ok (?t\<lparr>thiscpu := c, procs := P,
       bufs := (bufs ?t)[i := (bufs ?t ! i)\<lparr>b_data := disk ?t 1 (b_blockno (bufs ?t ! i)), b_flags := B_VALID\<rparr>]\<rparr>)"
    and cP: "woken (procs ?t) P" "in_proc p (?t\<lparr>thiscpu := c, procs := P\<rparr>)"
    using rw_read [of p ?t i] cache_okD(1) [OF ok] len blk by auto
  have "bread w 1 blk s = Ok (i, s\<lparr>thiscpu := c, procs := P,
         sleeplocks := (sleeplocks s)(BUF_SLEEP i := \<lparr>sl_locked = True, sl_pid = p_pid (procs s ! p)\<rparr>),
         bufs := (bufs s)[i := \<lparr>b_flags = B_VALID, b_dev = 1, b_blockno = blk, b_refcnt = 1, b_data = disk s 1 blk\<rparr>]\<rparr>)"
    using g r w len by (simp add: bread_def) (rule bio.equality, simp_all add: lock_buf_def set_sleeplock_def upd_buf_def filled_buf)
  moreover have "in_proc p (s\<lparr>thiscpu := c, procs := P\<rparr>)"
    using cP(2) by (simp add: in_proc_def wf_cpu_def lock_buf_def)
  ultimately show ?thesis using i cP(1) by auto
qed

text \<open>
  \<open>bread\<close> returns the block locked, with the contents the block has, and leaves everything its
  clients see as it was.
\<close>

lemma bread_spec:
  assumes ok: "cache_ok p H s" and w: "w_fuel w = Suc f" "w_iderw w = rw"
    and blk: "blk < disksize s" "blk \<notin> held_blks H s"
    and room: "blk \<in> dirty_blks s \<or> card H + card (dirty_blks s) < NBUF"
  shows "\<exists>i s'. bread w 1 blk s = Ok (i, s') \<and> i \<notin> H \<and> cache_ok p (insert i H) s' \<and> buf_is s' i blk
    \<and> b_data (bufs s' ! i) = bview s blk \<and> bio_same H s s'"
proof (cases "\<exists>i. buf_is s i blk")
  case True
  then obtain i where i: "buf_is s i blk" "i \<notin> H" using not_held [OF ok] blk(2) by blast
  let ?t = "lock_buf p i (\<lambda>b. b\<lparr>b_refcnt := 1\<rparr>) s"
  have ok': "cache_ok p (insert i H) ?t" by (rule cache_ok_lock [OF ok i])
  have "buf_is ?t i blk" using i cache_okD(2) [OF ok] by (auto simp: buf_is_def)
  moreover from this have "b_data (bufs ?t ! i) = bview s blk"
    using bview_buf [OF ok'] bio_same_hit [OF ok i] by (simp add: bio_same_def)
  ultimately show ?thesis
    using bread_hit [OF ok i w(1)] bio_same_hit [OF ok i] ok' i(2) by blast
next
  case False
  then have none: "\<And>i. \<not> buf_is s i blk" by blast
  have "blk \<notin> dirty_blks s" using none dirty_dev [OF ok] by (auto simp: dirty_blks_def)
  then obtain j where j: "j < NBUF" "j \<notin> H" "j \<notin> dirty_bufs s" using free_buffer [OF ok] room by blast
  obtain i c P where i: "i < NBUF" "i \<notin> H" "i \<notin> dirty_bufs s"
    and r: "bread w 1 blk s = Ok (i, s\<lparr>thiscpu := c, procs := P,
         sleeplocks := (sleeplocks s)(BUF_SLEEP i := \<lparr>sl_locked = True, sl_pid = p_pid (procs s ! p)\<rparr>),
         bufs := (bufs s)[i := \<lparr>b_flags = B_VALID, b_dev = 1, b_blockno = blk, b_refcnt = 1, b_data = disk s 1 blk\<rparr>]\<rparr>)"
      (is "_ = Ok (i, ?t)")
    and P: "woken (procs s) P" "in_proc p (s\<lparr>thiscpu := c, procs := P\<rparr>)"
    using bread_miss [OF ok none w j blk(1)] by blast
  have ok': "cache_ok p (insert i H) ?t" by (rule cache_ok_fill [OF ok none i(1,2) blk(1) P])
  have same: "bio_same H s ?t" by (rule bio_same_fill [OF ok none i ok' refl P(1)])
  have "buf_is ?t i blk" "b_data (bufs ?t ! i) = disk s 1 blk" using i(1) cache_okD(2) [OF ok] by (auto simp: buf_is_def)
  then show ?thesis using r ok' same i(2) bview_disk [OF ok none] by auto
qed

text \<open>\<open>bwrite\<close> puts the block's contents on the disk and nothing else; the buffer stays locked.\<close>

lemma bwrite_spec:
  assumes ok: "cache_ok p H s" and w: "w_iderw w = rw" and i: "i \<in> H" "buf_is s i blk"
  shows "\<exists>s'. bwrite w i s = Ok s' \<and> cache_ok p H s' \<and> bview s' = bview s
    \<and> disk s' = (disk s)(1 := (disk s 1)(blk := bview s blk)) \<and> dwrites s' = dwrites s @ [(1, blk, bview s blk)]
    \<and> dirty_blks s' = dirty_blks s - {blk} \<and> bio_step s s' \<and> (\<forall>k\<in>H - {i}. bufs s' ! k = bufs s ! k)
    \<and> (\<forall>k x. buf_is s' k x = buf_is s k x)"
proof -
  have ip: "in_proc p s" and sl: "sleeplocks s (BUF_SLEEP i) = \<lparr>sl_locked = True, sl_pid = p_pid (procs s ! p)\<rparr>"
    and len: "length (bufs s) = NBUF" "i < NBUF" "p < length (procs s)"
    using cache_okD(1,2) [OF ok] cache_okD(6) [OF ok i(1)] by (simp_all add: in_proc_def)
  let ?c = "s\<lparr>thiscpu := settled s\<rparr>"
  let ?u = "upd_buf i (\<lambda>b. b\<lparr>b_flags := b_flags b OR B_DIRTY\<rparr>) ?c"
  have blk: "b_dev (bufs s ! i) = 1" "b_blockno (bufs s ! i) = blk" "blk < disksize s"
    using i(2) cache_okD(10,11) [OF ok len(2)] by (auto simp: buf_is_def)
  have fl: "b_flags (bufs s ! i) OR B_DIRTY = (B_VALID OR B_DIRTY)" using cache_okD(9) [OF ok len(2)] cache_okD(6) [OF ok i(1)] by auto
  obtain c P where rw: "rw i ?u = Ok (disk_write 1 (b_blockno (bufs ?u ! i)) (b_data (bufs ?u ! i)) (?u\<lparr>thiscpu := c, procs := P,
          bufs := (bufs ?u)[i := (bufs ?u ! i)\<lparr>b_flags := B_VALID\<rparr>]\<rparr>))"
    and P: "woken (procs ?u) P" "in_proc p (?u\<lparr>thiscpu := c, procs := P\<rparr>)"
    using rw_write [of p ?u i] ip sl len blk fl by auto
  let ?t = "s\<lparr>thiscpu := c, procs := P, bufs := (bufs s)[i := (bufs s ! i)\<lparr>b_flags := B_VALID\<rparr>],
     disk := (disk s)(1 := (disk s 1)(blk := b_data (bufs s ! i))), dwrites := dwrites s @ [(1, blk, b_data (bufs s ! i))]\<rparr>"
  have r: "bwrite w i s = Ok ?t"
    using rw w sl len blk
    by (simp add: bwrite_def holdingsleep_eq [OF ip]) (rule bio.equality, simp_all add: disk_write_def upd_buf_def)
  have pid: "p_pid (P ! p) = p_pid (procs s ! p)" using woken_pid(1) [OF P(1)] len(3) by simp
  have ip': "in_proc p ?t" using P(2) by (simp add: in_proc_def wf_cpu_def)
  have bi: "buf_is ?t k x = buf_is s k x" for k x using len by (auto simp: buf_is_def nth_list_update)
  have other: "b_blockno (bufs s ! k) \<noteq> blk" if "k < NBUF" "b_flags (bufs s ! k) \<noteq> 0" "k \<noteq> i" for k
    using cache_okD(12) [OF ok i(2), of k] cache_okD(11) [OF ok that(1,2)] that by (auto simp: buf_is_def)
  have v: "bview s blk = b_data (bufs s ! i)" by (rule bview_buf [OF ok i(2)])
  have ok': "cache_ok p H ?t"
  proof (rule cache_okI)
    fix k assume k: "k < NBUF"
    show "k \<in> H \<Longrightarrow> b_refcnt (bufs ?t ! k) = 1 \<and> b_flags (bufs ?t ! k) \<noteq> 0
        \<and> sleeplocks ?t (BUF_SLEEP k) = \<lparr>sl_locked = True, sl_pid = p_pid (procs ?t ! p)\<rparr>"
      using cache_okD(6) [OF ok, of k] len by (cases "k = i") (simp_all add: pid)
    show "k \<notin> H \<Longrightarrow> b_refcnt (bufs ?t ! k) = 0 \<and> \<not> sl_locked (sleeplocks ?t (BUF_SLEEP k))
        \<and> (b_flags (bufs ?t ! k) = B_VALID \<longrightarrow> b_data (bufs ?t ! k) = disk ?t 1 (b_blockno (bufs ?t ! k)))"
      using cache_okD(7) [OF ok k] i(1) other [OF k] k by (cases "k = i") auto
    show "length (b_data (bufs ?t ! k)) = BSIZE \<and> b_flags (bufs ?t ! k) \<in> {0, B_VALID, B_VALID OR B_DIRTY}
        \<and> (if b_flags (bufs ?t ! k) = 0 then b_dev (bufs ?t ! k) = 0
           else b_dev (bufs ?t ! k) = 1 \<and> b_blockno (bufs ?t ! k) < disksize ?t)"
      using cache_okD(8-11) [OF ok k] len blk by (cases "k = i") auto
  next
    show "buf_is ?t k x \<Longrightarrow> buf_is ?t j x \<Longrightarrow> k = j" for k j x
      using cache_okD(12) [OF ok, of k x j] by (simp add: bi)
    show "x < disksize ?t \<Longrightarrow> length (disk ?t 1 x) = BSIZE" for x
      using cache_okD(13) [OF ok, of x] cache_okD(8) [OF ok len(2)] by simp
  qed (use ip' len cache_okD(3-5) [OF ok] in simp_all)
  have "bview ?t x = bview s x" for x
  proof (cases "x = blk")
    case True
    then show ?thesis using bview_buf [OF ok', of i blk] i(2) v len by (simp add: bi)
  next
    case False
    then show ?thesis by (intro bview_unchanged [OF ok ok']) (use len in \<open>simp_all add: bi nth_list_update\<close>)
  qed
  moreover have "dirty_bufs ?t = dirty_bufs s - {i}" using len by (auto simp: dirty_bufs_def nth_list_update)
  then have "dirty_blks ?t = (\<lambda>k. b_blockno (bufs s ! k)) ` (dirty_bufs s - {i})"
    unfolding dirty_blks_def by (intro image_cong) auto
  moreover have "(\<lambda>k. b_blockno (bufs s ! k)) ` (dirty_bufs s - {i}) = dirty_blks s - {blk}"
    using other blk unfolding dirty_blks_def dirty_bufs_def by force
  moreover have "bio_step s ?t" using P(1) by (intro bio_stepI [where L = "sleeplocks s" and R = "lru s"]) simp_all
  ultimately show ?thesis using r ok' bi v by (intro exI [of _ ?t]) (auto simp: fun_eq_iff)
qed

end

interpretation memide: disk_driver memide_iderw
proof
  fix p i and s :: "'a bio_scheme"
  assume ip: "in_proc p s" and len: "i < length (bufs s)"
    and sl: "sleeplocks s (BUF_SLEEP i) = \<lparr>sl_locked = True, sl_pid = p_pid (procs s ! p)\<rparr>"
    and dev: "b_dev (bufs s ! i) = 1" "b_blockno (bufs s ! i) < disksize s"
  have ip': "in_proc p (s\<lparr>thiscpu := settled s, procs := procs s\<rparr>)" using ip by (simp add: in_proc_def wf_cpu_def)
  show "\<exists>c P. memide_iderw i s = Ok (s\<lparr>thiscpu := c, procs := P,
          bufs := (bufs s)[i := (bufs s ! i)\<lparr>b_data := disk s 1 (b_blockno (bufs s ! i)), b_flags := B_VALID\<rparr>]\<rparr>)
        \<and> woken (procs s) P \<and> in_proc p (s\<lparr>thiscpu := c, procs := P\<rparr>)"
    if "b_flags (bufs s ! i) = 0"
    using that dev sl len ip'
    by (intro exI [of _ "settled s"] exI [of _ "procs s"])
      (simp add: memide_iderw_def holdingsleep_eq [OF ip] Let_def not_le, rule bio.equality, simp_all add: upd_buf_def)
  show "\<exists>c P. memide_iderw i s = Ok (disk_write 1 (b_blockno (bufs s ! i)) (b_data (bufs s ! i)) (s\<lparr>thiscpu := c, procs := P,
          bufs := (bufs s)[i := (bufs s ! i)\<lparr>b_flags := B_VALID\<rparr>]\<rparr>))
        \<and> woken (procs s) P \<and> in_proc p (s\<lparr>thiscpu := c, procs := P\<rparr>)"
    if "b_flags (bufs s ! i) = (B_VALID OR B_DIRTY)"
    using that dev sl len ip'
    by (intro exI [of _ "settled s"] exI [of _ "procs s"])
      (simp add: memide_iderw_def holdingsleep_eq [OF ip] Let_def not_le, rule bio.equality, simp_all add: upd_buf_def disk_write_def)
qed

section \<open>Properties\<close>

text \<open>
  C31. With the memory disk, a process that reads a block, replaces its contents, writes the
  buffer and releases it changes exactly that block, on the disk and as every later reader sees
  it, by exactly one device write; blocks pinned by the log keep their contents, and no buffer is
  left locked.
\<close>

theorem block_update:
  fixes s :: "'a bio_scheme"
  assumes ok: "cache_ok p {} s" and room: "card (dirty_blks s) < NBUF" and blk: "blk < disksize s"
    and d: "length d = BSIZE" and w: "w_fuel w = Suc f" "w_iderw w = memide_iderw"
  shows "\<exists>i s1 s2 s3. bread w 1 blk s = Ok (i, s1) \<and> b_data (bufs s1 ! i) = bview s blk
    \<and> bwrite w i (upd_buf i (\<lambda>b. b\<lparr>b_data := d\<rparr>) s1) = Ok s2 \<and> brelse i s2 = Ok s3
    \<and> cache_ok p {} s3 \<and> disk s3 = (disk s)(1 := (disk s 1)(blk := d)) \<and> bview s3 = (bview s)(blk := d)
    \<and> dwrites s3 = dwrites s @ [(1, blk, d)] \<and> dirty_blks s3 = dirty_blks s - {blk}"
proof -
  obtain i s1 where r1: "bread w 1 blk s = Ok (i, s1)" "b_data (bufs s1 ! i) = bview s blk"
    and ok1: "cache_ok p {i} s1" "buf_is s1 i blk" and same: "bio_same {} s s1"
    using memide.bread_spec [OF ok w blk] room by (auto simp: held_blks_def)
  let ?t = "upd_buf i (\<lambda>b. b\<lparr>b_data := d\<rparr>) s1"
  have t: "cache_ok p {i} ?t" "bview ?t = (bview s1)(blk := d)" "dirty_blks ?t = dirty_blks s1" "buf_is ?t i blk"
    using set_data_spec [OF ok1(1) _ ok1(2) d] ok1(2) by simp_all
  obtain s2 where s2: "bwrite w i ?t = Ok s2" "cache_ok p {i} s2" "bview s2 = bview ?t"
    "disk s2 = (disk ?t)(1 := (disk ?t 1)(blk := bview ?t blk))" "dwrites s2 = dwrites ?t @ [(1, blk, bview ?t blk)]"
    "dirty_blks s2 = dirty_blks ?t - {blk}" "buf_is s2 i blk"
    using memide.bwrite_spec [OF t(1) w(2) _ t(4)] t(4) by auto
  obtain s3 where s3: "brelse i s2 = Ok s3" "cache_ok p {} s3" "bio_same {} s2 s3"
    using brelse_spec [OF s2(2) _ s2(7)] s2(3,4) t(2) by auto
  show ?thesis
    using r1 s2 s3 same t by (intro exI [of _ i] exI [of _ s1] exI [of _ s2] exI [of _ s3]) (auto simp: bio_same_def)
qed

definition bio_example :: bio where
  "bio_example = slk.extend slk_example
     \<lparr>bufs = replicate NBUF \<lparr>b_flags = 0, b_dev = 0, b_blockno = 0, b_refcnt = 0, b_data = replicate BSIZE 0\<rparr>,
      lru = rev [0..<NBUF], disk = (\<lambda>_ _. replicate BSIZE 0), disksize = 1000, dwrites = []\<rparr>"

lemma bio_example_ok: "cache_ok 1 {} bio_example" "dirty_blks bio_example = {}" "disksize bio_example = 1000"
proof -
  have "in_proc 1 bio_example"
    using slk_example_ok by (simp add: bio_example_def slk.defs in_proc_def wf_cpu_def)
  then show "cache_ok 1 {} bio_example"
    by (intro cache_okI) (auto simp: bio_example_def slk.defs buf_is_def slk_example_def ptab.defs)
  show "dirty_blks bio_example = {}" "disksize bio_example = 1000"
    by (simp_all add: bio_example_def slk.defs dirty_blks_def dirty_bufs_def)
qed

definition bio_world :: "bio world" where
  "bio_world = \<lparr>w_fuel = 1, w_env = (\<lambda>s. s), w_iderw = memide_iderw\<rparr>"

theorem block_update_witness:
  "\<exists>i s1. bread bio_world 1 7 bio_example = Ok (i, s1) \<and> b_data (bufs s1 ! i) = bview bio_example 7"
  using block_update [OF bio_example_ok(1), of 7 "replicate BSIZE 1" bio_world 0]
  by (auto simp: bio_example_ok NBUF_def bio_world_def)

end
