(* ===== verification/Log.thy ===== *)
theory Log
  imports Bio Le_Bytes
begin

text \<open>
  \<^verbatim>\<open>log.c\<close>: the write-ahead log that makes the block updates of a group of file-system calls atomic
  across crashes, and the superblock it is configured from (\<^verbatim>\<open>readsb\<close> of \<^verbatim>\<open>fs.c\<close>).

  A loop over \<^verbatim>\<open>log.lh.block\<close> carries the number of array slots that are left; running past the
  array is a fault. \<open>begin_op\<close> waits with the fuel of \<open>w\<close>.
\<close>

section \<open>State\<close>

definition MAXOPBLOCKS :: nat where "MAXOPBLOCKS = 10"
definition LOGSIZE :: nat where "LOGSIZE = MAXOPBLOCKS * 3"

record logheader =
  lh_n :: u32
  lh_block :: "u32 list"

record log_t =
  log_start :: u32
  log_size :: u32
  outstanding :: u32
  committing :: bool
  log_dev :: u32
  lh :: logheader

record lg = bio +
  log_st :: log_t

record superblock =
  sb_size :: u32
  sb_nblocks :: u32
  sb_ninodes :: u32
  sb_nlog :: u32
  sb_logstart :: u32
  sb_inodestart :: u32
  sb_bmapstart :: u32

definition upd_log :: "(log_t \<Rightarrow> log_t) \<Rightarrow> 'a lg_scheme \<Rightarrow> 'a lg_scheme" where
  "upd_log f s = s\<lparr>log_st := f (log_st s)\<rparr>"

definition set_data :: "nat \<Rightarrow> block \<Rightarrow> 'a bio_scheme \<Rightarrow> 'a bio_scheme" where
  "set_data i d s = upd_buf i (\<lambda>b. b\<lparr>b_data := d\<rparr>) s"

section \<open>Operations\<close>

definition decode_sb :: "block \<Rightarrow> superblock" where
  "decode_sb d = \<lparr>sb_size = get32 d 0, sb_nblocks = get32 d 4, sb_ninodes = get32 d 8, sb_nlog = get32 d 12,
     sb_logstart = get32 d 16, sb_inodestart = get32 d 20, sb_bmapstart = get32 d 24\<rparr>"

definition readsb :: "('a bio_scheme, 'w) world_scheme \<Rightarrow> u32 \<Rightarrow> 'a bio_scheme \<Rightarrow> (superblock \<times> 'a bio_scheme) res" where
  "readsb w dev s =
     andThen (bread w dev 1 s) (\<lambda>(bp, s).
       let sb = decode_sb (b_data (bufs s ! bp)) in
       andThen (brelse bp s) (\<lambda>s. Ok (sb, s)))"

fun install_from :: "('a lg_scheme, 'w) world_scheme \<Rightarrow> nat \<Rightarrow> nat \<Rightarrow> 'a lg_scheme \<Rightarrow> 'a lg_scheme res" where
  "install_from w 0 tail s = (if int tail < sint (lh_n (lh (log_st s))) then Fault 0 else Ok s)"
| "install_from w (Suc slots) tail s =
     (if int tail < sint (lh_n (lh (log_st s))) then
        andThen (bread w (log_dev (log_st s)) (log_start (log_st s) + of_nat tail + 1) s) (\<lambda>(lbuf, s).
        andThen (bread w (log_dev (log_st s)) (lh_block (lh (log_st s)) ! tail) s) (\<lambda>(dbuf, s).
        andThen (bwrite w dbuf (set_data dbuf (b_data (bufs s ! lbuf)) s)) (\<lambda>s.
        andThen (brelse lbuf s) (\<lambda>s.
        andThen (brelse dbuf s) (install_from w slots (Suc tail))))))
      else Ok s)"

definition install_trans :: "('a lg_scheme, 'w) world_scheme \<Rightarrow> 'a lg_scheme \<Rightarrow> 'a lg_scheme res" where
  "install_trans w s = install_from w LOGSIZE 0 s"

fun head_blocks :: "nat \<Rightarrow> nat \<Rightarrow> block \<Rightarrow> logheader \<Rightarrow> logheader res" where
  "head_blocks 0 i d h = (if int i < sint (lh_n h) then Fault 0 else Ok h)"
| "head_blocks (Suc slots) i d h =
     (if int i < sint (lh_n h)
      then head_blocks slots (Suc i) d (h\<lparr>lh_block := (lh_block h)[i := get32 d (4 + 4 * i)]\<rparr>) else Ok h)"

definition read_head :: "('a lg_scheme, 'w) world_scheme \<Rightarrow> 'a lg_scheme \<Rightarrow> 'a lg_scheme res" where
  "read_head w s =
     andThen (bread w (log_dev (log_st s)) (log_start (log_st s)) s) (\<lambda>(bp, s).
     andThen (head_blocks LOGSIZE 0 (b_data (bufs s ! bp)) ((lh (log_st s))\<lparr>lh_n := get32 (b_data (bufs s ! bp)) 0\<rparr>)) (\<lambda>h.
     brelse bp (upd_log (\<lambda>l. l\<lparr>lh := h\<rparr>) s)))"

fun put_head :: "nat \<Rightarrow> nat \<Rightarrow> logheader \<Rightarrow> block \<Rightarrow> block res" where
  "put_head 0 i h d = (if int i < sint (lh_n h) then Fault 0 else Ok d)"
| "put_head (Suc slots) i h d =
     (if int i < sint (lh_n h) then put_head slots (Suc i) h (put32 d (4 + 4 * i) (lh_block h ! i)) else Ok d)"

definition write_head :: "('a lg_scheme, 'w) world_scheme \<Rightarrow> 'a lg_scheme \<Rightarrow> 'a lg_scheme res" where
  "write_head w s =
     andThen (bread w (log_dev (log_st s)) (log_start (log_st s)) s) (\<lambda>(bp, s).
     andThen (put_head LOGSIZE 0 (lh (log_st s)) (put32 (b_data (bufs s ! bp)) 0 (lh_n (lh (log_st s))))) (\<lambda>d.
     andThen (bwrite w bp (set_data bp d s)) (brelse bp)))"

definition clear_lh :: "'a lg_scheme \<Rightarrow> 'a lg_scheme" where
  "clear_lh s = upd_log (\<lambda>l. l\<lparr>lh := (lh l)\<lparr>lh_n := 0\<rparr>\<rparr>) s"

definition recover_from_log :: "('a lg_scheme, 'w) world_scheme \<Rightarrow> 'a lg_scheme \<Rightarrow> 'a lg_scheme res" where
  "recover_from_log w s =
     andThen (read_head w s) (\<lambda>s.
     andThen (install_trans w s) (\<lambda>s.
     write_head w (clear_lh s)))"

definition initlog :: "('a lg_scheme, 'w) world_scheme \<Rightarrow> u32 \<Rightarrow> 'a lg_scheme \<Rightarrow> 'a lg_scheme res" where
  "initlog w dev s =
     (if 4 + 4 * LOGSIZE \<ge> BSIZE then Panic ''initlog: too big logheader''
      else
        andThen (readsb w dev (initlock LOG_LOCK s)) (\<lambda>(sb, s).
        recover_from_log w (upd_log (\<lambda>l. l\<lparr>log_start := sb_logstart sb, log_size := sb_nlog sb, log_dev := dev\<rparr>) s)))"

fun begin_op_loop :: "nat \<Rightarrow> ('a lg_scheme \<Rightarrow> 'a lg_scheme) \<Rightarrow> 'a lg_scheme \<Rightarrow> 'a lg_scheme res" where
  "begin_op_loop 0 env s = Hangs"
| "begin_op_loop (Suc fuel) env s =
     (let l = log_st s in
      if committing l then andThen (sleep env CHAN_LOG (Some LOG_LOCK) s) (begin_op_loop fuel env)
      else if sint (lh_n (lh l) + (outstanding l + 1) * of_nat MAXOPBLOCKS) > int LOGSIZE
      then andThen (sleep env CHAN_LOG (Some LOG_LOCK) s) (begin_op_loop fuel env)
      else release LOG_LOCK (upd_log (\<lambda>l. l\<lparr>outstanding := outstanding l + 1\<rparr>) s))"

definition begin_op :: "('a lg_scheme, 'w) world_scheme \<Rightarrow> 'a lg_scheme \<Rightarrow> 'a lg_scheme res" where
  "begin_op w s = andThen (acquire LOG_LOCK s) (begin_op_loop (w_fuel w) (w_env w))"

fun write_log_from :: "('a lg_scheme, 'w) world_scheme \<Rightarrow> nat \<Rightarrow> nat \<Rightarrow> 'a lg_scheme \<Rightarrow> 'a lg_scheme res" where
  "write_log_from w 0 tail s = (if int tail < sint (lh_n (lh (log_st s))) then Fault 0 else Ok s)"
| "write_log_from w (Suc slots) tail s =
     (if int tail < sint (lh_n (lh (log_st s))) then
        andThen (bread w (log_dev (log_st s)) (log_start (log_st s) + of_nat tail + 1) s) (\<lambda>(to_b, s).
        andThen (bread w (log_dev (log_st s)) (lh_block (lh (log_st s)) ! tail) s) (\<lambda>(from_b, s).
        andThen (bwrite w to_b (set_data to_b (b_data (bufs s ! from_b)) s)) (\<lambda>s.
        andThen (brelse from_b s) (\<lambda>s.
        andThen (brelse to_b s) (write_log_from w slots (Suc tail))))))
      else Ok s)"

definition write_log :: "('a lg_scheme, 'w) world_scheme \<Rightarrow> 'a lg_scheme \<Rightarrow> 'a lg_scheme res" where
  "write_log w s = write_log_from w LOGSIZE 0 s"

definition commit :: "('a lg_scheme, 'w) world_scheme \<Rightarrow> 'a lg_scheme \<Rightarrow> 'a lg_scheme res" where
  "commit w s =
     (if 0 < sint (lh_n (lh (log_st s))) then
        andThen (write_log w s) (\<lambda>s.
        andThen (write_head w s) (\<lambda>s.
        andThen (install_trans w s) (\<lambda>s.
        write_head w (clear_lh s))))
      else Ok s)"

definition end_op :: "('a lg_scheme, 'w) world_scheme \<Rightarrow> 'a lg_scheme \<Rightarrow> 'a lg_scheme res" where
  "end_op w s =
     andThen (acquire LOG_LOCK s) (\<lambda>s.
       let s = upd_log (\<lambda>l. l\<lparr>outstanding := outstanding l - 1\<rparr>) s in
       if committing (log_st s) then Panic ''log.committing''
       else if outstanding (log_st s) = 0 then
         andThen (release LOG_LOCK (upd_log (\<lambda>l. l\<lparr>committing := True\<rparr>) s)) (\<lambda>s.
         andThen (commit w s) (\<lambda>s.
         andThen (acquire LOG_LOCK s) (\<lambda>s.
         andThen (wakeup CHAN_LOG (upd_log (\<lambda>l. l\<lparr>committing := False\<rparr>) s)) (release LOG_LOCK))))
       else andThen (wakeup CHAN_LOG s) (release LOG_LOCK))"

definition log_slot :: "u32 \<Rightarrow> u32 \<Rightarrow> u32 list \<Rightarrow> nat" where
  "log_slot n b blks = (case find_idx (\<lambda>x. x = b) (take (nat (sint n)) blks) of Some i \<Rightarrow> i | None \<Rightarrow> nat (sint n))"

definition log_write :: "nat \<Rightarrow> 'a lg_scheme \<Rightarrow> 'a lg_scheme res" where
  "log_write i s =
     (if sint (lh_n (lh (log_st s))) \<ge> int LOGSIZE \<or> sint (lh_n (lh (log_st s))) \<ge> sint (log_size (log_st s) - 1)
      then Panic ''too big a transaction''
      else if sint (outstanding (log_st s)) < 1 then Panic ''log_write outside of trans''
      else
        andThen (acquire LOG_LOCK s) (\<lambda>s.
          let n = lh_n (lh (log_st s));
              b = b_blockno (bufs s ! i);
              k = log_slot n b (lh_block (lh (log_st s)));
              s = upd_log (\<lambda>l. l\<lparr>lh := (lh l)\<lparr>lh_block := (lh_block (lh l))[k := b]\<rparr>\<rparr>) s;
              s = (if int k = sint n then upd_log (\<lambda>l. l\<lparr>lh := (lh l)\<lparr>lh_n := n + 1\<rparr>\<rparr>) s else s);
              s = upd_buf i (\<lambda>b. b\<lparr>b_flags := b_flags b OR B_DIRTY\<rparr>) s in
          release LOG_LOCK s))"

section \<open>The state of the log\<close>

definition good_world :: "('a bio_scheme, 'w) world_scheme \<Rightarrow> bool" where
  "good_world w \<longleftrightarrow> disk_driver (w_iderw w) \<and> 0 < w_fuel w"

definition log_area :: "u32 \<Rightarrow> u32 \<Rightarrow> u32 set" where
  "log_area st sz = {b. st \<le> b \<and> unat b < unat st + unat sz}"

text \<open>
  \<open>log_inv p H st sz B D s\<close>: process \<open>p\<close> runs with the buffers \<open>H\<close> locked, the log of \<open>sz\<close> blocks starts at
  block \<open>st\<close>, the in-memory header lists the blocks \<open>B\<close>, and the pinned blocks are \<open>D\<close>.
\<close>

definition blocks_ok :: "u32 \<Rightarrow> u32 \<Rightarrow> u32 \<Rightarrow> u32 list \<Rightarrow> bool" where
  "blocks_ok st sz dsz B \<longleftrightarrow> distinct B \<and> length B < unat sz \<and> (\<forall>b\<in>set B. b < dsz \<and> b \<notin> log_area st sz)"

definition log_inv :: "nat \<Rightarrow> nat set \<Rightarrow> u32 \<Rightarrow> u32 \<Rightarrow> u32 list \<Rightarrow> u32 set \<Rightarrow> 'a lg_scheme \<Rightarrow> bool" where
  "log_inv p H st sz B D s \<longleftrightarrow> cache_ok p H s
     \<and> log_dev (log_st s) = 1 \<and> log_start (log_st s) = st \<and> log_size (log_st s) = sz
     \<and> 0 < unat sz \<and> unat sz \<le> LOGSIZE \<and> unat st + unat sz \<le> unat (disksize s)
     \<and> length (lh_block (lh (log_st s))) = LOGSIZE \<and> lh_n (lh (log_st s)) = of_nat (length B)
     \<and> take (length B) (lh_block (lh (log_st s))) = B
     \<and> blocks_ok st sz (disksize s) B \<and> dirty_blks s = D \<and> D \<subseteq> set B"

definition hdr_blocks :: "block \<Rightarrow> u32 list" where
  "hdr_blocks x = get32s x 4 (unat (get32 x 0))"

text \<open>
  The disk the log stands for: what each block holds once the log found on the disk is installed,
  later entries last.
\<close>

definition logical :: "u32 \<Rightarrow> (u32 \<Rightarrow> block) \<Rightarrow> u32 \<Rightarrow> block" where
  "logical st d b =
     (case map_of (rev (zip (hdr_blocks (d st)) (map (\<lambda>i. d (st + of_nat i + 1)) [0..<length (hdr_blocks (d st))]))) b of
        Some x \<Rightarrow> x | None \<Rightarrow> d b)"

definition apply_writes :: "(u32 \<Rightarrow> u32 \<Rightarrow> block) \<Rightarrow> (u32 \<times> u32 \<times> block) list \<Rightarrow> u32 \<Rightarrow> u32 \<Rightarrow> block" where
  "apply_writes = foldl (\<lambda>d (dev, b, x). d(dev := (d dev)(b := x)))"

lemma apply_writes_simps [simp]:
  "apply_writes d [] = d" "apply_writes d ((dev, b, x) # W) = apply_writes (d(dev := (d dev)(b := x))) W"
  "apply_writes d (V @ W) = apply_writes (apply_writes d V) W"
  by (simp_all add: apply_writes_def)

section \<open>Reading and writing blocks\<close>

lemma bio_step_log [simp]: "bio_step s s' \<Longrightarrow> log_st s' = log_st (s :: 'a lg_scheme)"
  by (auto simp: bio_step_def)

text \<open>Steps that may also change the in-memory log.\<close>

definition lg_step :: "'a lg_scheme \<Rightarrow> 'a lg_scheme \<Rightarrow> bool" where
  "lg_step s s' \<longleftrightarrow> (\<exists>c P L B R D W l. s' = s\<lparr>thiscpu := c, procs := P, sleeplocks := L, bufs := B, lru := R, disk := D, dwrites := W, log_st := l\<rparr>
      \<and> woken (procs s) P)"

lemma lg_stepI:
  "s' = s\<lparr>thiscpu := c, procs := P, sleeplocks := L, bufs := B, lru := R, disk := D, dwrites := W, log_st := l\<rparr> \<Longrightarrow> woken (procs s) P \<Longrightarrow> lg_step s s'"
  unfolding lg_step_def by blast

lemma lg_step_refl [simp]: "lg_step s s"
  by (rule lg_stepI [where c = "thiscpu s" and P = "procs s" and L = "sleeplocks s" and B = "bufs s" and R = "lru s"
      and D = "disk s" and W = "dwrites s" and l = "log_st s"]) simp_all

lemma lg_step_trans:
  assumes "lg_step s t" "lg_step t u"
  shows "lg_step s u"
proof -
  obtain c P L B R D W l where 1: "t = s\<lparr>thiscpu := c, procs := P, sleeplocks := L, bufs := B, lru := R, disk := D, dwrites := W, log_st := l\<rparr>" "woken (procs s) P"
    using assms(1) unfolding lg_step_def by blast
  obtain c' P' L' B' R' D' W' l' where 2: "u = t\<lparr>thiscpu := c', procs := P', sleeplocks := L', bufs := B', lru := R', disk := D', dwrites := W', log_st := l'\<rparr>" "woken (procs t) P'"
    using assms(2) unfolding lg_step_def by blast
  have "u = s\<lparr>thiscpu := c', procs := P', sleeplocks := L', bufs := B', lru := R', disk := D', dwrites := W', log_st := l'\<rparr>"
    using 1(1) 2(1) by simp
  moreover have "woken (procs s) P'" using 1 2 woken_trans by auto
  ultimately show ?thesis by (rule lg_stepI)
qed

lemma lg_step_bio:
  fixes s :: "'a lg_scheme"
  assumes "bio_step s s'"
  shows "lg_step s s'"
proof -
  obtain c P L B R D W where 1: "s' = s\<lparr>thiscpu := c, procs := P, sleeplocks := L, bufs := B, lru := R, disk := D, dwrites := W\<rparr>" "woken (procs s) P"
    using assms unfolding bio_step_def by blast
  have "s' = s\<lparr>thiscpu := c, procs := P, sleeplocks := L, bufs := B, lru := R, disk := D, dwrites := W, log_st := log_st s\<rparr>"
    using 1(1) by simp
  then show ?thesis using 1(2) by (rule lg_stepI)
qed

lemma lg_step_upd_log: "lg_step s (upd_log f s)"
  by (rule lg_stepI [where c = "thiscpu s" and P = "procs s" and L = "sleeplocks s" and B = "bufs s" and R = "lru s"
      and D = "disk s" and W = "dwrites s" and l = "f (log_st s)"])
    (simp_all add: upd_log_def)

lemma lg_step_cpu: "woken (procs s) P \<Longrightarrow> lg_step s (s\<lparr>thiscpu := c, procs := P, log_st := l\<rparr>)"
  by (rule lg_stepI [where c = c and P = P and L = "sleeplocks s" and B = "bufs s" and R = "lru s"
      and D = "disk s" and W = "dwrites s" and l = l]) simp_all

lemma lg_step_frame:
  assumes "lg_step s s'"
  shows "held s' = held s" "fl_if s' = fl_if s" "mem s' = mem s" "disksize s' = disksize s" "lg.more s' = lg.more s"
    "length (procs s') = length (procs s)" "i < length (procs s) \<Longrightarrow> p_pid (procs s' ! i) = p_pid (procs s ! i)"
  using assms woken_pid by (auto simp: lg_step_def)

lemma bio_sameD:
  assumes "bio_same H s s'"
  shows "bio_step s s'" "bview s' = bview s" "disk s' = disk s" "dwrites s' = dwrites s" "dirty_blks s' = dirty_blks s"
    "disksize s' = disksize s" "k \<in> H \<Longrightarrow> bufs s' ! k = bufs s ! k"
  using assms bio_step_frame by (auto simp: bio_same_def)

lemma bread_w:
  assumes "good_world w" "cache_ok p H s" "blk < disksize s" "blk \<notin> held_blks H s"
    "blk \<in> dirty_blks s \<or> card H + card (dirty_blks s) < NBUF"
  obtains i s' where "bread w 1 blk s = Ok (i, s')" "i \<notin> H" "cache_ok p (insert i H) s'" "buf_is s' i blk"
    "b_data (bufs s' ! i) = bview s blk" "bio_same H s s'"
proof -
  obtain f where "w_fuel w = Suc f" using assms(1) by (auto simp: good_world_def gr0_conv_Suc)
  then show thesis
    using disk_driver.bread_spec [of "w_iderw w" p H s w f blk] assms that by (auto simp: good_world_def)
qed

lemma bwrite_w:
  assumes "good_world w" "cache_ok p H s" "i \<in> H" "buf_is s i blk"
  obtains s' where "bwrite w i s = Ok s'" "cache_ok p H s'" "bview s' = bview s"
    "disk s' = (disk s)(1 := (disk s 1)(blk := bview s blk))" "dwrites s' = dwrites s @ [(1, blk, bview s blk)]"
    "dirty_blks s' = dirty_blks s - {blk}" "bio_step s s'" "\<And>k x. buf_is s' k x = buf_is s k x"
  using disk_driver.bwrite_spec [of "w_iderw w" p H s w i blk] assms that unfolding good_world_def by blast

text \<open>Replacing the contents of a locked buffer and writing it.\<close>

lemma write_data:
  assumes g: "good_world w" and ok: "cache_ok p H s" and i: "i \<in> H" "buf_is s i blk" and d: "length d = BSIZE"
  obtains s' where "bwrite w i (set_data i d s) = Ok s'" "cache_ok p H s'" "bview s' = (bview s)(blk := d)"
    "disk s' = (disk s)(1 := (disk s 1)(blk := d))" "dwrites s' = dwrites s @ [(1, blk, d)]"
    "dirty_blks s' = dirty_blks s - {blk}" "bio_step s s'" "\<And>k x. buf_is s' k x = buf_is s k x"
proof -
  note sd = set_data_spec [OF ok i d, folded set_data_def]
  have b: "buf_is (set_data i d s) i blk" using sd(4) i(2) by blast
  obtain s' where s': "bwrite w i (set_data i d s) = Ok s'" "cache_ok p H s'" "bview s' = bview (set_data i d s)"
    "disk s' = (disk (set_data i d s))(1 := (disk (set_data i d s) 1)(blk := bview (set_data i d s) blk))"
    "dwrites s' = dwrites (set_data i d s) @ [(1, blk, bview (set_data i d s) blk)]"
    "dirty_blks s' = dirty_blks (set_data i d s) - {blk}" "bio_step (set_data i d s) s'"
    "\<And>k x. buf_is s' k x = buf_is (set_data i d s) k x"
    using bwrite_w [OF g sd(1) i(1) b] by metis
  have "bio_step s s'" using bio_step_trans [OF bio_step_upd] s'(7) unfolding set_data_def .
  then show thesis using that s' sd by (simp add: set_data_def)
qed

text \<open>Locking two blocks, and releasing them.\<close>

lemma bread_two:
  assumes g: "good_world w" and ok: "cache_ok p {} s" and ab: "a < disksize s" "b < disksize s" "a \<noteq> b"
    and room: "card (dirty_blks s) < NBUF" "b \<in> dirty_blks s \<or> dirty_blks s = {}"
  obtains i s1 j s2 where "bread w 1 a s = Ok (i, s1)" "bread w 1 b s1 = Ok (j, s2)" "bio_step s s1" "i \<noteq> j"
    "cache_ok p {i, j} s2" "buf_is s2 i a" "buf_is s2 j b" "b_data (bufs s2 ! i) = bview s a" "b_data (bufs s2 ! j) = bview s b"
    "bio_same {} s s2"
proof -
  obtain i s1 where 1: "bread w 1 a s = Ok (i, s1)" "cache_ok p {i} s1" "buf_is s1 i a"
    "b_data (bufs s1 ! i) = bview s a" "bio_same {} s s1"
    using bread_w [OF g ok ab(1)] room(1) by auto
  note s1 = bio_sameD [OF 1(5)]
  have r: "b \<in> dirty_blks s1 \<or> card {i} + card (dirty_blks s1) < NBUF" using room by (auto simp: s1 NBUF_def)
  have h: "b \<notin> held_blks {i} s1" using 1(3) ab(3) by (auto simp: buf_is_def)
  obtain j s2 where 2: "bread w 1 b s1 = Ok (j, s2)" "j \<notin> {i}" "cache_ok p (insert j {i}) s2" "buf_is s2 j b"
    "b_data (bufs s2 ! j) = bview s1 b" "bio_same {i} s1 s2"
    using bread_w [OF g 1(2) _ h r] ab(2) s1(6) by auto
  note s2 = bio_sameD [OF 2(6)]
  have "bio_same {} s s2" using s1 s2 bio_step_trans by (auto simp: bio_same_def)
  moreover have "buf_is s2 i a" "b_data (bufs s2 ! i) = bview s a"
    using bio_same_buf_is [OF 2(6) _ 1(3)] s2(7) 1(4) by simp_all
  ultimately show thesis using that 1 2 s1 by (auto simp: insert_commute)
qed

lemma brelse_two:
  assumes ok: "cache_ok p {i, j} s" and ij: "i \<noteq> j" "buf_is s i a" "buf_is s j b"
    and clean: "a \<in> dirty_blks s \<or> bview s a = disk s 1 a" "b \<in> dirty_blks s \<or> bview s b = disk s 1 b"
  obtains s1 s2 where "brelse i s = Ok s1" "brelse j s1 = Ok s2" "cache_ok p {} s2" "bio_same {} s s2"
proof -
  obtain s1 where 1: "brelse i s = Ok s1" "cache_ok p ({i, j} - {i}) s1" "bio_same ({i, j} - {i}) s s1"
    "\<And>k x. buf_is s1 k x = buf_is s k x"
    using brelse_spec [OF ok _ ij(2) clean(1)] by auto
  note s1 = bio_sameD [OF 1(3)]
  have "{i, j} - {i} = {j}" using ij(1) by auto
  then obtain s2 where 2: "brelse j s1 = Ok s2" "cache_ok p ({j} - {j}) s2" "bio_same ({j} - {j}) s1 s2"
    using brelse_spec [of p "{j}" s1 j b] 1(2,4) ij(3) clean(2) s1 by auto
  note s2 = bio_sameD [OF 2(3)]
  have "bio_same {} s s2" using s1 s2 bio_step_trans by (auto simp: bio_same_def)
  then show thesis using that 1 2 by simp
qed

section \<open>Copying blocks to and from the log\<close>

lemma log_invD:
  assumes "log_inv p H st sz B D s"
  shows "cache_ok p H s" "log_dev (log_st s) = 1" "log_start (log_st s) = st" "lh_n (lh (log_st s)) = of_nat (length B)"
    "length B < LOGSIZE" "dirty_blks s = D" "D \<subseteq> set B" "card D < NBUF" "distinct B"
    "i < length B \<Longrightarrow> lh_block (lh (log_st s)) ! i = B ! i"
    "i < length B \<Longrightarrow> B ! i < disksize s \<and> B ! i \<notin> log_area st sz"
    "unat st + unat sz \<le> unat (disksize s)" "0 < unat sz" "length B < unat sz"
proof -
  show "cache_ok p H s" "log_dev (log_st s) = 1" "log_start (log_st s) = st" "lh_n (lh (log_st s)) = of_nat (length B)"
    "dirty_blks s = D" "D \<subseteq> set B" "distinct B" "i < length B \<Longrightarrow> B ! i < disksize s \<and> B ! i \<notin> log_area st sz"
    "unat st + unat sz \<le> unat (disksize s)" "0 < unat sz" "length B < unat sz"
    using assms by (simp_all add: log_inv_def blocks_ok_def)
  show l: "length B < LOGSIZE" using assms by (simp add: log_inv_def blocks_ok_def)
  show "i < length B \<Longrightarrow> lh_block (lh (log_st s)) ! i = B ! i"
    using assms by (metis log_inv_def nth_take)
  have "card D \<le> card (set B)" using assms by (intro card_mono) (simp_all add: log_inv_def)
  then show "card D < NBUF" using card_length [of B] l by (simp add: LOGSIZE_def MAXOPBLOCKS_def NBUF_def)
qed

lemma log_inv_frame:
  assumes "log_inv p H st sz B D s" "bio_step s s'" "cache_ok p H' s'" "dirty_blks s' = D'" "D' \<subseteq> set B"
  shows "log_inv p H' st sz B D' s'"
  using assms bio_step_log [OF assms(2)] bio_step_frame(4) [OF assms(2)] by (simp add: log_inv_def)

lemma unat_add_nat:
  assumes "unat (x :: u32) + k < 4294967296"
  shows "unat (x + of_nat k) = unat x + k"
proof -
  have k: "unat (of_nat k :: u32) = k" using assms by (simp add: unat_of_nat take_bit_nat_eq_self)
  show ?thesis
    using assms unat_add_lem [of x "of_nat k"] unfolding k by simp
qed

lemma log_blk:
  assumes "log_inv p H st sz B D s" "i < length B"
  shows "unat (st + of_nat i + 1) = unat st + i + 1" "st + of_nat i + 1 < disksize s" "st + of_nat i + 1 \<in> log_area st sz"
    "st + of_nat i + 1 \<noteq> st" "st + of_nat i + 1 \<noteq> B ! j \<or> j \<ge> length B" "st + of_nat i + 1 \<notin> set B"
proof -
  have b: "unat st + i + 1 < unat (disksize s)" "i < LOGSIZE" "i + 1 < unat sz + 1" "i + 1 < unat sz"
    using log_invD(5,12,14) [OF assms(1)] assms(2) by simp_all
  have "unat (disksize s) < 4294967296" using unsigned_less [of "disksize s", where ?'a = nat] by simp
  then show u: "unat (st + of_nat i + 1) = unat st + i + 1"
    using b(1) unat_add_nat [of st "i + 1"] by (simp add: ac_simps)
  then show "st + of_nat i + 1 < disksize s" using b(1) by (simp add: word_less_nat_alt)
  show a: "st + of_nat i + 1 \<in> log_area st sz" using u b(4) by (simp add: log_area_def word_le_nat_alt)
  show "st + of_nat i + 1 \<noteq> st" using u by (metis add_cancel_right_right add_is_0 one_neq_zero add.assoc)
  show "st + of_nat i + 1 \<noteq> B ! j \<or> j \<ge> length B" using log_invD(11) [OF assms(1), of j] a by (cases "j < length B") auto
  show "st + of_nat i + 1 \<notin> set B"
    using a assms(1) by (auto simp: log_inv_def blocks_ok_def)
qed

lemma sint_of_nat_small: "n < 2147483648 \<Longrightarrow> sint (of_nat n :: u32) = int n"
  by (simp add: sint_u32 unsigned_of_nat take_bit_nat_eq_self uint_nat)

text \<open>One block copied to the log, and one installed from it.\<close>

lemma write_log_step:
  assumes g: "good_world w" and inv: "log_inv p {} st sz B (set B) s" and i: "i < length B"
  obtains s' where "write_log_from w (Suc k) i s = write_log_from w k (Suc i) s'" "log_inv p {} st sz B (set B) s'"
    "bview s' = (bview s)(st + of_nat i + 1 := bview s (B ! i))"
    "disk s' = (disk s)(1 := (disk s 1)(st + of_nat i + 1 := bview s (B ! i)))"
    "dwrites s' = dwrites s @ [(1, st + of_nat i + 1, bview s (B ! i))]" "bio_step s s'"
proof -
  let ?a = "st + of_nat i + 1"
  note D = log_invD [OF inv] and A = log_blk [OF inv i]
  have Bi: "B ! i < disksize s" "B ! i \<in> set B" using D(11) [OF i] i by auto
  obtain t s1 f s2 where r: "bread w 1 ?a s = Ok (t, s1)" "bread w 1 (B ! i) s1 = Ok (f, s2)" "bio_step s s1" "t \<noteq> f"
    "cache_ok p {t, f} s2" "buf_is s2 t ?a" "buf_is s2 f (B ! i)" "b_data (bufs s2 ! f) = bview s (B ! i)" "bio_same {} s s2"
    using bread_two [OF g D(1) A(2) Bi(1)] A(5) [of i] i D(6,8) Bi(2) by (metis not_le)
  note same = bio_sameD [OF r(9)]
  have len: "length (bview s (B ! i)) = BSIZE" using cache_okD(8) [OF r(5), of f] r(7,8) by (simp add: buf_is_def)
  obtain s3 where w: "bwrite w t (set_data t (b_data (bufs s2 ! f)) s2) = Ok s3" "cache_ok p {t, f} s3"
    "bview s3 = (bview s2)(?a := bview s (B ! i))" "disk s3 = (disk s2)(1 := (disk s2 1)(?a := bview s (B ! i)))"
    "dwrites s3 = dwrites s2 @ [(1, ?a, bview s (B ! i))]" "dirty_blks s3 = dirty_blks s2 - {?a}" "bio_step s2 s3"
    "\<And>k x. buf_is s3 k x = buf_is s2 k x"
    using write_data [OF g r(5) _ r(6) len] r(8) by auto
  have dirty: "dirty_blks s3 = set B" using w(6) same(5) D(6) A(6) by simp
  obtain s4 s5 where x: "brelse f s3 = Ok s4" "brelse t s4 = Ok s5" "cache_ok p {} s5" "bio_same {} s3 s5"
    using brelse_two [of p f t s3 "B ! i" ?a] w r(4,6,7) dirty Bi(2) by (auto simp: insert_commute)
  note same' = bio_sameD [OF x(4)]
  have st: "bio_step s s5" using same(1) w(7) same'(1) bio_step_trans by blast
  have run: "write_log_from w (Suc k) i s = write_log_from w k (Suc i) s5"
    using D(2,3,4,5) D(10) [OF i] i r(1,2,3) w(1) x(1,2)
    by (simp add: sint_of_nat_small LOGSIZE_def MAXOPBLOCKS_def)
  show thesis
    using that [OF run log_inv_frame [OF inv st x(3)]] w same same' dirty st by simp
qed

lemma install_step:
  assumes g: "good_world w" and inv: "log_inv p {} st sz B D s" and i: "i < length B" and d: "B ! i \<in> D \<or> D = {}"
  obtains s' where "install_from w (Suc k) i s = install_from w k (Suc i) s'" "log_inv p {} st sz B (D - {B ! i}) s'"
    "bview s' = (bview s)(B ! i := bview s (st + of_nat i + 1))"
    "disk s' = (disk s)(1 := (disk s 1)(B ! i := bview s (st + of_nat i + 1)))"
    "dwrites s' = dwrites s @ [(1, B ! i, bview s (st + of_nat i + 1))]" "bio_step s s'"
proof -
  let ?a = "st + of_nat i + 1"
  note D = log_invD [OF inv] and A = log_blk [OF inv i]
  have Bi: "B ! i < disksize s" using D(11) [OF i] by auto
  obtain l s1 t s2 where r: "bread w 1 ?a s = Ok (l, s1)" "bread w 1 (B ! i) s1 = Ok (t, s2)" "bio_step s s1" "l \<noteq> t"
    "cache_ok p {l, t} s2" "buf_is s2 l ?a" "buf_is s2 t (B ! i)" "b_data (bufs s2 ! l) = bview s ?a" "bio_same {} s s2"
    using bread_two [OF g D(1) A(2) Bi] A(5) [of i] i D(6,8) d by (metis not_le)
  note same = bio_sameD [OF r(9)]
  have len: "length (bview s ?a) = BSIZE" using cache_okD(8) [OF r(5), of l] r(6,8) by (simp add: buf_is_def)
  obtain s3 where w: "bwrite w t (set_data t (b_data (bufs s2 ! l)) s2) = Ok s3" "cache_ok p {l, t} s3"
    "bview s3 = (bview s2)(B ! i := bview s ?a)" "disk s3 = (disk s2)(1 := (disk s2 1)(B ! i := bview s ?a))"
    "dwrites s3 = dwrites s2 @ [(1, B ! i, bview s ?a)]" "dirty_blks s3 = dirty_blks s2 - {B ! i}" "bio_step s2 s3"
    "\<And>k x. buf_is s3 k x = buf_is s2 k x"
    using write_data [OF g r(5) _ r(7) len] r(8) by auto
  have a: "?a \<notin> dirty_blks s" using A(6) D(6,7) by blast
  have c: "bview s ?a = disk s 1 ?a" using bview_clean [OF D(1) a] by simp
  have ne: "?a \<noteq> B ! i" using A(5) [of i] i by auto
  have cl: "bview s3 ?a = disk s3 1 ?a" using c w(3,4) same ne by simp
  obtain s4 s5 where x: "brelse l s3 = Ok s4" "brelse t s4 = Ok s5" "cache_ok p {} s5" "bio_same {} s3 s5"
    using brelse_two [of p l t s3 ?a "B ! i"] w r(4,6,7) cl by auto
  note same' = bio_sameD [OF x(4)]
  have st: "bio_step s s5" using same(1) w(7) same'(1) bio_step_trans by blast
  have run: "install_from w (Suc k) i s = install_from w k (Suc i) s5"
    using D(2,3,4,5) D(10) [OF i] i r(1,2,3) w(1) x(1,2)
    by (simp add: sint_of_nat_small LOGSIZE_def MAXOPBLOCKS_def)
  have dirty: "dirty_blks s5 = D - {B ! i}" using w(6) same(5) same'(5) D(6) by simp
  have "D - {B ! i} \<subseteq> set B" using D(7) by blast
  then show thesis
    using that [OF run log_inv_frame [OF inv st x(3) dirty]] w same same' st by simp
qed

lemma write_log_loop:
  assumes g: "good_world w"
  shows "log_inv p {} st sz B (set B) s \<Longrightarrow> i \<le> length B \<Longrightarrow> length B \<le> i + k \<Longrightarrow>
    \<exists>s'. write_log_from w k i s = Ok s' \<and> log_inv p {} st sz B (set B) s' \<and> bio_step s s'
      \<and> (\<forall>b. b \<notin> log_area st sz \<or> b = st \<longrightarrow> bview s' b = bview s b)
      \<and> dwrites s' = dwrites s @ map (\<lambda>i. (1, st + of_nat i + 1, bview s (B ! i))) [i..<length B]
      \<and> disk s' = apply_writes (disk s) (map (\<lambda>i. (1, st + of_nat i + 1, bview s (B ! i))) [i..<length B])"
proof (induction k arbitrary: i s)
  case 0
  then show ?case using log_invD(4,5) [OF 0(1)] by (simp add: sint_of_nat_small LOGSIZE_def MAXOPBLOCKS_def)
next
  case (Suc k)
  show ?case
  proof (cases "i < length B")
    case True
    obtain s1 where s1: "write_log_from w (Suc k) i s = write_log_from w k (Suc i) s1" "log_inv p {} st sz B (set B) s1"
      "bview s1 = (bview s)(st + of_nat i + 1 := bview s (B ! i))"
      "disk s1 = (disk s)(1 := (disk s 1)(st + of_nat i + 1 := bview s (B ! i)))"
      "dwrites s1 = dwrites s @ [(1, st + of_nat i + 1, bview s (B ! i))]" "bio_step s s1"
      using write_log_step [OF g Suc.prems(1) True] by metis
    note A = log_blk [OF Suc.prems(1) True]
    have same: "bview s1 (B ! j) = bview s (B ! j)" if "j < length B" for j
      using A(5) [of j] that s1(3) by auto
    have m: "map (\<lambda>i. (1, st + of_nat i + 1, bview s1 (B ! i))) [Suc i..<length B]
        = map (\<lambda>i. (1, st + of_nat i + 1, bview s (B ! i))) [Suc i..<length B]"
      using same by auto
    have b: "bview s1 b = bview s b" if "b \<notin> log_area st sz \<or> b = st" for b
      using that A(3,4) s1(3) by auto
    obtain s' where s': "write_log_from w k (Suc i) s1 = Ok s'" "log_inv p {} st sz B (set B) s'" "bio_step s1 s'"
      "\<forall>b. b \<notin> log_area st sz \<or> b = st \<longrightarrow> bview s' b = bview s1 b"
      "dwrites s' = dwrites s1 @ map (\<lambda>i. (1, st + of_nat i + 1, bview s (B ! i))) [Suc i..<length B]"
      "disk s' = apply_writes (disk s1) (map (\<lambda>i. (1, st + of_nat i + 1, bview s (B ! i))) [Suc i..<length B])"
      using Suc.IH [OF s1(2), of "Suc i"] True Suc.prems(3) unfolding m by auto
    show ?thesis
      using s' s1 b bio_step_trans [OF s1(6) s'(3)] True by (simp add: upt_conv_Cons)
  next
    case False
    then show ?thesis
      using Suc.prems log_invD(4,5) [OF Suc.prems(1)] by (simp add: sint_of_nat_small LOGSIZE_def MAXOPBLOCKS_def)
  qed
qed

lemma install_loop:
  assumes g: "good_world w"
  shows "log_inv p {} st sz B D s \<Longrightarrow> D = set (drop i B) \<or> D = {} \<Longrightarrow> i \<le> length B \<Longrightarrow> length B \<le> i + k \<Longrightarrow>
    \<exists>s'. install_from w k i s = Ok s' \<and> log_inv p {} st sz B {} s' \<and> bio_step s s'
      \<and> (\<forall>b. b \<notin> set B \<longrightarrow> bview s' b = bview s b)
      \<and> dwrites s' = dwrites s @ map (\<lambda>i. (1, B ! i, bview s (st + of_nat i + 1))) [i..<length B]
      \<and> disk s' = apply_writes (disk s) (map (\<lambda>i. (1, B ! i, bview s (st + of_nat i + 1))) [i..<length B])"
proof (induction k arbitrary: i s D)
  case 0
  then show ?case using log_invD(4,5) [OF 0(1)] by (auto simp: sint_of_nat_small LOGSIZE_def MAXOPBLOCKS_def)
next
  case (Suc k)
  show ?case
  proof (cases "i < length B")
    case True
    have di: "drop i B = B ! i # drop (Suc i) B" using True by (simp add: Cons_nth_drop_Suc)
    have dB: "distinct (drop i B)" using log_invD(9) [OF Suc.prems(1)] by (simp add: distinct_drop)
    have D: "B ! i \<in> D \<or> D = {}" using Suc.prems(2) di by auto
    obtain s1 where s1: "install_from w (Suc k) i s = install_from w k (Suc i) s1" "log_inv p {} st sz B (D - {B ! i}) s1"
      "bview s1 = (bview s)(B ! i := bview s (st + of_nat i + 1))"
      "disk s1 = (disk s)(1 := (disk s 1)(B ! i := bview s (st + of_nat i + 1)))"
      "dwrites s1 = dwrites s @ [(1, B ! i, bview s (st + of_nat i + 1))]" "bio_step s s1"
      using install_step [OF g Suc.prems(1) True D] by metis
    have D1: "D - {B ! i} = set (drop (Suc i) B) \<or> D - {B ! i} = {}"
      using Suc.prems(2) dB unfolding di by auto
    have same: "bview s1 (st + of_nat j + 1) = bview s (st + of_nat j + 1)" if "j < length B" for j
      using log_blk(5) [OF Suc.prems(1) that, of i] True s1(3) by auto
    have m: "map (\<lambda>i. (1, B ! i, bview s1 (st + of_nat i + 1))) [Suc i..<length B]
        = map (\<lambda>i. (1, B ! i, bview s (st + of_nat i + 1))) [Suc i..<length B]"
      using same by auto
    obtain s' where s': "install_from w k (Suc i) s1 = Ok s'" "log_inv p {} st sz B {} s'" "bio_step s1 s'"
      "\<forall>b. b \<notin> set B \<longrightarrow> bview s' b = bview s1 b"
      "dwrites s' = dwrites s1 @ map (\<lambda>i. (1, B ! i, bview s (st + of_nat i + 1))) [Suc i..<length B]"
      "disk s' = apply_writes (disk s1) (map (\<lambda>i. (1, B ! i, bview s (st + of_nat i + 1))) [Suc i..<length B])"
      using Suc.IH [OF s1(2) D1] True Suc.prems(4) unfolding m by auto
    have b: "bview s1 b = bview s b" if "b \<notin> set B" for b
      using that True s1(3) by auto
    show ?thesis
      using s' s1 b bio_step_trans [OF s1(6) s'(3)] True by (simp add: upt_conv_Cons)
  next
    case False
    then have "D = {}" using Suc.prems(2) by simp
    then show ?thesis
      using False Suc.prems log_invD(4,5) [OF Suc.prems(1)] by (simp add: sint_of_nat_small LOGSIZE_def MAXOPBLOCKS_def)
  qed
qed

section \<open>The header block\<close>

definition enc_head :: "block \<Rightarrow> u32 list \<Rightarrow> block" where
  "enc_head x B = put32s (put32 x 0 (of_nat (length B))) 4 B"

lemma hdr_blocks_enc: "length x = BSIZE \<Longrightarrow> length B \<le> LOGSIZE \<Longrightarrow> hdr_blocks (enc_head x B) = B" "length (enc_head x B) = length x"
  by (simp_all add: hdr_blocks_def enc_head_def get32_put32s_before BSIZE_def LOGSIZE_def MAXOPBLOCKS_def unat_of_nat
      take_bit_nat_eq_self)

lemma put_head_ok:
  "lh_n h = of_nat (length B) \<Longrightarrow> length B < LOGSIZE \<Longrightarrow> (\<And>j. j < length B \<Longrightarrow> lh_block h ! j = B ! j) \<Longrightarrow> i \<le> length B \<Longrightarrow>
   length B \<le> i + k \<Longrightarrow> put_head k i h d = Ok (put32s d (4 + 4 * i) (drop i B))"
proof (induction k arbitrary: i d)
  case 0
  then show ?case by (simp add: sint_of_nat_small LOGSIZE_def MAXOPBLOCKS_def)
next
  case (Suc k)
  show ?case
  proof (cases "i < length B")
    case True
    then show ?thesis
      using Suc.IH [of "Suc i"] Suc.prems
      by (simp add: sint_of_nat_small LOGSIZE_def MAXOPBLOCKS_def Cons_nth_drop_Suc [symmetric])
  qed (use Suc.prems in \<open>simp add: sint_of_nat_small LOGSIZE_def MAXOPBLOCKS_def\<close>)
qed

lemma head_blocks_ok:
  "lh_n h = of_nat n \<Longrightarrow> n \<le> length (lh_block h) \<Longrightarrow> n < LOGSIZE \<Longrightarrow> i \<le> n \<Longrightarrow> n \<le> i + k \<Longrightarrow>
   \<exists>bl. head_blocks k i d h = Ok (h\<lparr>lh_block := bl\<rparr>) \<and> length bl = length (lh_block h)
     \<and> (\<forall>j<n. bl ! j = (if j < i then lh_block h ! j else get32 d (4 + 4 * j)))"
proof (induction k arbitrary: i h)
  case 0
  then show ?case
    by (intro exI [of _ "lh_block h"]) (simp add: sint_of_nat_small LOGSIZE_def MAXOPBLOCKS_def)
next
  case (Suc k)
  show ?case
  proof (cases "i < n")
    case True
    then show ?thesis
      using Suc.IH [of "h\<lparr>lh_block := (lh_block h)[i := get32 d (4 + 4 * i)]\<rparr>" "Suc i"] Suc.prems
      by (auto simp: sint_of_nat_small LOGSIZE_def MAXOPBLOCKS_def nth_list_update less_Suc_eq)
  next
    case False
    then show ?thesis using Suc.prems
      by (intro exI [of _ "lh_block h"]) (simp add: sint_of_nat_small LOGSIZE_def MAXOPBLOCKS_def)
  qed
qed

lemma log_start_ok:
  assumes "log_inv p {} st sz B D s"
  shows "st < disksize s" "st \<in> log_area st sz" "st \<notin> set B" "st \<notin> D" "bview s st = disk s 1 st" "length (bview s st) = BSIZE"
proof -
  note D = log_invD [OF assms]
  show lt: "st < disksize s" using D(12,13) by (simp add: word_less_nat_alt)
  show a: "st \<in> log_area st sz" using D(13) by (simp add: log_area_def)
  then show B: "st \<notin> set B" using assms by (auto simp: log_inv_def blocks_ok_def)
  then show n: "st \<notin> D" using D(7) by blast
  then show "bview s st = disk s 1 st" using bview_clean [OF D(1)] D(6) by simp
  then show "length (bview s st) = BSIZE" using cache_okD(13) [OF D(1) lt] by simp
qed

lemma write_head_spec:
  assumes g: "good_world w" and inv: "log_inv p {} st sz B D s"
  obtains s' where "write_head w s = Ok s'" "log_inv p {} st sz B D s'"
    "bview s' = (bview s)(st := enc_head (bview s st) B)"
    "disk s' = (disk s)(1 := (disk s 1)(st := enc_head (bview s st) B))"
    "dwrites s' = dwrites s @ [(1, st, enc_head (bview s st) B)]" "bio_step s s'"
proof -
  note D = log_invD [OF inv] and S = log_start_ok [OF inv]
  obtain i s1 where r: "bread w 1 st s = Ok (i, s1)" "cache_ok p {i} s1" "buf_is s1 i st" "b_data (bufs s1 ! i) = bview s st"
    "bio_same {} s s1"
    using bread_w [OF g D(1) S(1)] D(6,8) by auto
  note same = bio_sameD [OF r(5)]
  have len: "length (enc_head (bview s st) B) = BSIZE" using S(6) by (simp add: hdr_blocks_enc)
  obtain s2 where w: "bwrite w i (set_data i (enc_head (bview s st) B) s1) = Ok s2" "cache_ok p {i} s2"
    "bview s2 = (bview s1)(st := enc_head (bview s st) B)" "disk s2 = (disk s1)(1 := (disk s1 1)(st := enc_head (bview s st) B))"
    "dwrites s2 = dwrites s1 @ [(1, st, enc_head (bview s st) B)]" "dirty_blks s2 = dirty_blks s1 - {st}" "bio_step s1 s2"
    "\<And>k x. buf_is s2 k x = buf_is s1 k x"
    using write_data [OF g r(2) _ r(3) len] by auto
  have b2: "buf_is s2 i st" using w(8) r(3) by blast
  obtain s3 where x: "brelse i s2 = Ok s3" "cache_ok p {} s3" "bio_same {} s2 s3"
    using brelse_spec [OF w(2) _ b2] w(3,4) by auto
  note same' = bio_sameD [OF x(3)]
  have st: "bio_step s s3" using same(1) w(7) same'(1) bio_step_trans by blast
  have "put_head LOGSIZE 0 (lh (log_st s)) (put32 (bview s st) 0 (of_nat (length B))) = Ok (enc_head (bview s st) B)"
    using put_head_ok [of "lh (log_st s)" B 0 LOGSIZE] D(4,5,10) by (simp add: enc_head_def)
  then have run: "write_head w s = Ok s3"
    using D(2,3,4) r(1,4) w(1) x(1) same(1) by (simp add: write_head_def)
  have dirty: "dirty_blks s3 = D" using w(6) same(5) same'(5) D(6) S(4) by simp
  show thesis
    using that [OF run log_inv_frame [OF inv st x(2) dirty D(7)]] w same same' st by simp
qed

lemma clear_lh_inv:
  assumes "log_inv p {} st sz B {} s"
  shows "log_inv p {} st sz [] {} (clear_lh s)"
proof -
  have c: "cache_ok p {} (clear_lh s) = cache_ok p {} s" "dirty_blks (clear_lh s) = dirty_blks s"
    by (simp_all add: clear_lh_def upd_log_def cache_ok_def in_proc_def wf_cpu_def buf_is_def dirty_blks_def dirty_bufs_def)
  show ?thesis
    using assms unfolding log_inv_def c by (simp add: clear_lh_def upd_log_def blocks_ok_def)
qed

lemma clear_lh_sel [simp]:
  "bview (clear_lh s) = bview s" "disk (clear_lh s) = disk s" "dwrites (clear_lh s) = dwrites s" "disksize (clear_lh s) = disksize s"
  by (simp_all add: clear_lh_def upd_log_def bview_def fun_eq_iff split: option.split)

section \<open>Crash points\<close>

lemma apply_writes_map:
  assumes "inj_on f {..<n}"
  shows "i < n \<Longrightarrow> apply_writes d (map (\<lambda>i. (1, f i, x i)) [0..<n]) 1 (f i) = x i"
    "(\<And>i. i < n \<Longrightarrow> f i \<noteq> b) \<Longrightarrow> apply_writes d (map (\<lambda>i. (1, f i, x i)) [0..<n]) 1 b = d 1 b"
proof -
  show "apply_writes d (map (\<lambda>i. (1, f i, x i)) [0..<n]) 1 b = d 1 b" if "\<And>i. i < n \<Longrightarrow> f i \<noteq> b"
    using that by (induction n) auto
  show "apply_writes d (map (\<lambda>i. (1, f i, x i)) [0..<n]) 1 (f i) = x i" if "i < n"
    using that assms
  proof (induction n)
    case (Suc n)
    show ?case
    proof (cases "i = n")
      case False
      then have i: "i < n" using Suc.prems(1) by simp
      have inj: "inj_on f {..<n}" using Suc.prems(2) by (auto intro: inj_on_subset)
      have "f i \<noteq> f n" using False i inj_onD [OF Suc.prems(2), of i n] by auto
      then show ?thesis using Suc.IH [OF i inj] by simp
    qed simp
  qed simp
qed

lemma take_map_upt: "take k (map f [0..<n]) = map f [0..<min k n]"
  by (cases "k \<le> n") (simp_all add: take_map [symmetric] min_def take_map)

lemma logical_empty: "hdr_blocks (d st) = [] \<Longrightarrow> logical st d = d"
  by (simp add: logical_def fun_eq_iff)

lemma map_of_rev_distinct:
  assumes "distinct (map fst m)"
  shows "map_of (rev m) = map_of m"
proof (rule map_of_inject_set [THEN iffD2])
  show "distinct (map fst (rev m))" using assms by (simp add: rev_map [symmetric])
qed (use assms in simp_all)

lemma logical_nth:
  assumes B: "hdr_blocks (d st) = B" "distinct B" and i: "i < length B"
  shows "logical st d (B ! i) = d (st + of_nat i + 1)"
proof -
  let ?m = "zip B (map (\<lambda>i. d (st + of_nat i + 1)) [0..<length B])"
  have "map_of (rev ?m) = map_of ?m" using B(2) by (intro map_of_rev_distinct) simp
  moreover have "map_of ?m (B ! i) = Some (d (st + of_nat i + 1))"
    using map_of_zip_nth [of B "map (\<lambda>i. d (st + of_nat i + 1)) [0..<length B]" i] B(2) i by simp
  ultimately show ?thesis using B(1) by (simp add: logical_def)
qed

lemma logical_out:
  assumes B: "hdr_blocks (d st) = B" and b: "b \<notin> set B"
  shows "logical st d b = d b"
proof -
  let ?m = "rev (zip B (map (\<lambda>i. d (st + of_nat i + 1)) [0..<length B]))"
  have n: "map_of ?m b = None" using b by (auto simp: map_of_eq_None_iff dest: set_zip_leftD)
  show ?thesis unfolding logical_def B n by simp
qed

lemma logical_full:
  assumes B: "hdr_blocks (d st) = B" "distinct B" and v: "\<And>i. i < length B \<Longrightarrow> d (st + of_nat i + 1) = v (B ! i)"
    and b: "b \<notin> set B \<Longrightarrow> d b = v b"
  shows "logical st d b = v b"
proof (cases "b \<in> set B")
  case True
  then obtain i where "i < length B" "b = B ! i" by (auto simp: in_set_conv_nth)
  then show ?thesis using logical_nth [of d st B, OF B] v by simp
qed (use logical_out [of d st B, OF B(1)] b in simp)

definition commit_trace :: "u32 \<Rightarrow> u32 list \<Rightarrow> (u32 \<Rightarrow> block) \<Rightarrow> (u32 \<times> u32 \<times> block) list" where
  "commit_trace st B v =
     map (\<lambda>i. (1, st + of_nat i + 1, v (B ! i))) [0..<length B] @ [(1, st, enc_head (v st) B)]
     @ map (\<lambda>i. (1, B ! i, v (B ! i))) [0..<length B] @ [(1, st, enc_head (enc_head (v st) B) [])]"

lemma commit_spec:
  assumes g: "good_world w" and inv: "log_inv p {} st sz B (set B) s" and B: "B \<noteq> []"
  obtains s' where "commit w s = Ok s'" "log_inv p {} st sz [] {} s'" "dwrites s' = dwrites s @ commit_trace st B (bview s)"
    "disk s' = apply_writes (disk s) (commit_trace st B (bview s))" "\<And>b. b \<notin> log_area st sz \<Longrightarrow> bview s' b = bview s b"
    "lg_step s s'" "log_st s' = log_st (clear_lh s)"
proof -
  note D = log_invD [OF inv]
  let ?v = "bview s" and ?n = "length B"
  obtain s1 where s1: "write_log w s = Ok s1" "log_inv p {} st sz B (set B) s1"
    "\<And>b. b \<notin> log_area st sz \<or> b = st \<Longrightarrow> bview s1 b = ?v b"
    "dwrites s1 = dwrites s @ map (\<lambda>i. (1, st + of_nat i + 1, ?v (B ! i))) [0..<?n]"
    "disk s1 = apply_writes (disk s) (map (\<lambda>i. (1, st + of_nat i + 1, ?v (B ! i))) [0..<?n])" "bio_step s s1"
    using write_log_loop [OF g inv, of 0 LOGSIZE] D(5) by (auto simp: write_log_def)
  obtain s2 where s2: "write_head w s1 = Ok s2" "log_inv p {} st sz B (set B) s2"
    "bview s2 = (bview s1)(st := enc_head (bview s1 st) B)"
    "disk s2 = (disk s1)(1 := (disk s1 1)(st := enc_head (bview s1 st) B))"
    "dwrites s2 = dwrites s1 @ [(1, st, enc_head (bview s1 st) B)]" "bio_step s1 s2"
    using write_head_spec [OF g s1(2)] by metis
  have inj: "inj_on (\<lambda>i. st + of_nat i + 1) {..<?n}"
    using log_blk(1) [OF inv] by (intro inj_onI) (metis add_right_cancel add_left_cancel lessThan_iff)
  have slot: "bview s2 (st + of_nat i + 1) = ?v (B ! i)" if i: "i < ?n" for i
  proof -
    let ?a = "st + of_nat i + 1"
    note A = log_blk [OF inv i]
    have "bview s2 ?a = disk s2 1 ?a"
      using bview_clean [OF log_invD(1) [OF s2(2)], of ?a] log_invD(6) [OF s2(2)] A(6) by simp
    also have "\<dots> = disk s1 1 ?a" using s2(4) A(4) by simp
    also have "\<dots> = ?v (B ! i)"
      unfolding s1(5) using apply_writes_map(1) [OF inj i, of "disk s" "\<lambda>i. ?v (B ! i)"] by simp
    finally show ?thesis .
  qed
  have m: "map (\<lambda>i. (1, B ! i, bview s2 (st + of_nat i + 1))) [0..<?n] = map (\<lambda>i. (1, B ! i, ?v (B ! i))) [0..<?n]"
    using slot by auto
  obtain s3 where s3: "install_trans w s2 = Ok s3" "log_inv p {} st sz B {} s3" "\<And>b. b \<notin> set B \<Longrightarrow> bview s3 b = bview s2 b"
    "dwrites s3 = dwrites s2 @ map (\<lambda>i. (1, B ! i, ?v (B ! i))) [0..<?n]"
    "disk s3 = apply_writes (disk s2) (map (\<lambda>i. (1, B ! i, ?v (B ! i))) [0..<?n])" "bio_step s2 s3"
    using install_loop [OF g s2(2), of 0 LOGSIZE] D(5) unfolding m by (auto simp: install_trans_def)
  obtain s4 where s4: "write_head w (clear_lh s3) = Ok s4" "log_inv p {} st sz [] {} s4"
    "bview s4 = (bview s3)(st := enc_head (bview s3 st) [])"
    "disk s4 = (disk s3)(1 := (disk s3 1)(st := enc_head (bview s3 st) []))"
    "dwrites s4 = dwrites s3 @ [(1, st, enc_head (bview s3 st) [])]" "bio_step (clear_lh s3) s4"
    using write_head_spec [OF g clear_lh_inv [OF s3(2)]] by (metis clear_lh_sel)
  have hd: "bview s1 st = ?v st" "bview s3 st = enc_head (?v st) B"
    using s1(3) [of st] s3(3) [of st] log_start_ok(3) [OF inv] s2(3) by simp_all
  have run: "commit w s = Ok s4"
    using s1(1) s2(1) s3(1) s4(1) B D(4,5) by (simp add: commit_def sint_of_nat_small LOGSIZE_def MAXOPBLOCKS_def)
  have view: "bview s4 b = bview s b" if b: "b \<notin> log_area st sz" for b
  proof -
    have ne: "b \<noteq> st" using b log_start_ok(2) [OF inv] by auto
    show ?thesis
    proof (cases "b \<in> set B")
      case True
      then obtain i where i: "i < ?n" "b = B ! i" by (auto simp: in_set_conv_nth)
      have "bview s3 b = disk s3 1 b"
        using bview_clean [OF log_invD(1) [OF s3(2)], of b] log_invD(6) [OF s3(2)] by simp
      also have "\<dots> = ?v b"
        unfolding s3(5) i(2)
        using apply_writes_map(1) [of "\<lambda>i. B ! i" ?n i "disk s2" "\<lambda>i. ?v (B ! i)"] i(1) D(9)
        by (simp add: inj_on_nth)
      finally show ?thesis using s4(3) ne by simp
    next
      case False
      then show ?thesis using s4(3) s3(3) s2(3) s1(3) b ne by simp
    qed
  qed
  have "lg_step s s3" using lg_step_bio [OF bio_step_trans [OF bio_step_trans [OF s1(6) s2(6)] s3(6)]] .
  then have lg: "lg_step s s4"
    using lg_step_trans [OF lg_step_trans [OF _ lg_step_upd_log] lg_step_bio] s4(6) unfolding clear_lh_def by blast
  have ls: "log_st s4 = log_st (clear_lh s)"
    using bio_step_log [OF s1(6)] bio_step_log [OF s2(6)] bio_step_log [OF s3(6)] bio_step_log [OF s4(6)]
    by (simp add: clear_lh_def upd_log_def)
  show thesis
    using that [OF run s4(2) _ _ view lg ls] s1(4,5) s2(4,5) s3(4,5) s4(4,5) hd by (simp add: commit_trace_def)
qed

lemma take_trace:
  assumes "length W1 = n" "length W3 = n"
  shows "k \<le> n \<Longrightarrow> take k (W1 @ [h] @ W3 @ [e]) = take k W1"
    "n < k \<Longrightarrow> k \<le> 2 * n + 1 \<Longrightarrow> take k (W1 @ [h] @ W3 @ [e]) = W1 @ [h] @ take (k - n - 1) W3"
    "2 * n + 2 \<le> k \<Longrightarrow> take k (W1 @ [h] @ W3 @ [e]) = W1 @ [h] @ W3 @ [e]"
  using assms by (auto simp: take_Cons' not_less_eq_eq)

text \<open>
  After any number of the writes of a commit, the disk stands for the blocks before the commit or
  for the blocks after it.
\<close>

lemma commit_crash_points:
  assumes inv: "log_inv p {} st sz B (set B) s" and empty: "hdr_blocks (disk s 1 st) = []"
    and d: "d = apply_writes (disk s) (take k (commit_trace st B (bview s))) 1"
  shows "k \<le> length B \<and> hdr_blocks (d st) = [] \<and> (\<forall>b. b \<notin> log_area st sz \<longrightarrow> d b = disk s 1 b)
    \<or> 2 * length B + 2 \<le> k \<and> hdr_blocks (d st) = [] \<and> (\<forall>b. b \<notin> log_area st sz \<longrightarrow> d b = bview s b)
    \<or> hdr_blocks (d st) = B \<and> length B < k \<and> (\<forall>b. b \<notin> log_area st sz \<longrightarrow> logical st d b = bview s b)"
proof -
  note D = log_invD [OF inv] and S = log_start_ok [OF inv]
  let ?v = "bview s" and ?n = "length B"
  let ?W1 = "map (\<lambda>i. (1, st + of_nat i + 1, ?v (B ! i))) [0..<?n]" and ?W3 = "map (\<lambda>i. (1, B ! i, ?v (B ! i))) [0..<?n]"
  let ?h = "enc_head (?v st) B"
  have inj: "inj_on (\<lambda>i. st + of_nat i + 1) {..<j}" if "j \<le> ?n" for j
    using log_blk(1) [OF inv] that by (intro inj_onI) (metis add_right_cancel add_left_cancel lessThan_iff order_less_le_trans)
  have injB: "inj_on ((!) B) {..<j}" if "j \<le> ?n" for j using D(9) that by (intro inj_on_nth) auto
  have clean: "?v b = disk s 1 b" if "b \<notin> set B" for b using bview_clean [OF D(1), of b] D(6) that by simp
  have nA: "st + of_nat i + 1 \<noteq> b" if "i < ?n" "b \<notin> log_area st sz" for i b using log_blk(3) [OF inv that(1)] that(2) by auto
  have nS: "st + of_nat i + 1 \<noteq> st" if "i < ?n" for i using log_blk(4) [OF inv that] .
  have nAS: "st + of_nat i + 1 \<noteq> b" if "i < ?n" "b \<notin> log_area st sz \<or> b = st" for i b
    using nA [OF that(1)] nS [OF that(1)] that(2) by blast
  define d1 where "d1 = apply_writes (disk s) ?W1 1"
  have d1: "i < ?n \<Longrightarrow> d1 (st + of_nat i + 1) = ?v (B ! i)" "b \<notin> log_area st sz \<Longrightarrow> d1 b = disk s 1 b" "d1 st = disk s 1 st" for i b
    unfolding d1_def using apply_writes_map [OF inj [OF order_refl], of _ "disk s" "\<lambda>i. ?v (B ! i)"] nA nS by simp_all
  have len: "length (?v st) = BSIZE" "length B \<le> LOGSIZE" using S(6) D(5) by simp_all
  have h: "hdr_blocks ?h = B" "length ?h = BSIZE" using hdr_blocks_enc len by simp_all
  consider (log) "k \<le> ?n" | (home) "?n < k" "k \<le> 2 * ?n + 1" | (over) "2 * ?n + 2 \<le> k" by linarith
  then show ?thesis
  proof cases
    case log
    have tk: "take k (commit_trace st B ?v) = take k ?W1"
      unfolding commit_trace_def by (rule take_trace(1) [where n = ?n]) (use log in simp_all)
    have "d b = disk s 1 b" if "b \<notin> log_area st sz \<or> b = st" for b
      unfolding d tk take_map_upt
      by (rule apply_writes_map(2) [OF inj], simp, rule nAS [OF _ that], simp)
    then show ?thesis using log empty by simp
  next
    case home
    let ?j = "k - ?n - 1"
    let ?W = "map (\<lambda>i. (1, B ! i, ?v (B ! i))) [0..<?j]"
    have j: "?j \<le> ?n" using home by simp
    have tk: "take k (commit_trace st B ?v) = ?W1 @ [(1, st, ?h)] @ take ?j ?W3"
      unfolding commit_trace_def by (rule take_trace(2)) (use home in simp_all)
    have dd: "d = apply_writes ((apply_writes (disk s) ?W1)(1 := d1(st := ?h))) ?W 1"
      unfolding d tk take_map_upt d1_def
      using j by (simp add: min_def)
    have out: "d b = (d1(st := ?h)) b" if "b \<notin> set B" for b
      unfolding dd using that j by (subst apply_writes_map(2) [OF injB [OF j]]) auto
    have din: "d (B ! i) = ?v (B ! i)" if "i < ?j" for i
      unfolding dd using apply_writes_map(1) [OF injB [OF j] that] by simp
    have hd: "hdr_blocks (d st) = B" using out [OF S(3)] h by simp
    have sl: "d (st + of_nat i + 1) = ?v (B ! i)" if "i < ?n" for i
      using out [OF log_blk(6) [OF inv that]] d1(1) [OF that] nS [OF that] by simp
    have "logical st d b = ?v b" if b: "b \<notin> log_area st sz" for b
    proof (rule logical_full [of d st B ?v b])
      show "hdr_blocks (d st) = B" "distinct B" "\<And>i. i < length B \<Longrightarrow> d (st + of_nat i + 1) = ?v (B ! i)"
        using hd D(9) sl by simp_all
      show "d b = ?v b" if nB: "b \<notin> set B"
        using out [OF nB] d1(2) [OF b] clean [OF nB] b S(2) by auto
    qed
    then show ?thesis using hd home(1) by blast
  next
    case over
    have tk: "take k (commit_trace st B ?v) = ?W1 @ [(1, st, ?h)] @ ?W3 @ [(1, st, enc_head ?h [])]"
      unfolding commit_trace_def by (rule take_trace(3) [where n = ?n]) (use over in simp_all)
    have dd: "d = (apply_writes ((apply_writes (disk s) ?W1)(1 := d1(st := ?h))) ?W3 1)(st := enc_head ?h [])"
      unfolding d tk d1_def by simp
    have "d b = ?v b" if b: "b \<notin> log_area st sz" for b
    proof (cases "b \<in> set B")
      case True
      then obtain i where i: "i < ?n" "b = B ! i" by (auto simp: in_set_conv_nth)
      then show ?thesis
        unfolding dd using apply_writes_map(1) [OF injB [OF order_refl] i(1), of _ "\<lambda>i. ?v (B ! i)"] b S(2) by auto
    next
      case False
      then have "apply_writes ((apply_writes (disk s) ?W1)(1 := d1(st := ?h))) ?W3 1 b = (d1(st := ?h)) b"
        by (subst apply_writes_map(2) [OF injB [OF order_refl]]) auto
      then show ?thesis unfolding dd using clean [OF False] d1(2) [OF b] b S(2) by auto
    qed
    moreover have "hdr_blocks (d st) = []" unfolding dd using hdr_blocks_enc [of ?h "[]"] h(2) by simp
    ultimately show ?thesis using over by blast
  qed
qed

section \<open>Recovery\<close>

text \<open>The state in which \<open>initlog\<close> starts recovery: the cache is clean, nothing is known of the log but its place.\<close>

definition log_booted :: "nat \<Rightarrow> u32 \<Rightarrow> u32 \<Rightarrow> 'a lg_scheme \<Rightarrow> bool" where
  "log_booted p st sz s \<longleftrightarrow> cache_ok p {} s \<and> dirty_blks s = {}
     \<and> log_dev (log_st s) = 1 \<and> log_start (log_st s) = st \<and> log_size (log_st s) = sz
     \<and> 0 < unat sz \<and> unat sz \<le> LOGSIZE \<and> unat st + unat sz \<le> unat (disksize s)
     \<and> length (lh_block (lh (log_st s))) = LOGSIZE"

lemma upd_log_sel [simp]:
  "bview (upd_log f s) = bview s" "disk (upd_log f s) = disk s" "dwrites (upd_log f s) = dwrites s" "disksize (upd_log f s) = disksize s"
  "bufs (upd_log f s) = bufs s" "cache_ok p H (upd_log f s) = cache_ok p H s" "dirty_blks (upd_log f s) = dirty_blks s"
  "buf_is (upd_log f s) i b = buf_is s i b" "log_st (upd_log f s) = f (log_st s)"
  by (simp_all add: upd_log_def bview_def cache_ok_def in_proc_def wf_cpu_def buf_is_def dirty_blks_def dirty_bufs_def
      fun_eq_iff split: option.split)

lemma read_head_spec:
  assumes g: "good_world w" and boot: "log_booted p st sz s"
    and B: "hdr_blocks (disk s 1 st) = B" "blocks_ok st sz (disksize s) B"
  obtains s' where "read_head w s = Ok s'" "log_inv p {} st sz B {} s'" "bview s' = bview s" "disk s' = disk s" "dwrites s' = dwrites s"
    "disksize s' = disksize s"
proof -
  have ok: "cache_ok p {} s" and dirty: "dirty_blks s = {}" and dev: "log_dev (log_st s) = 1" "log_start (log_st s) = st"
    and len: "length (lh_block (lh (log_st s))) = LOGSIZE" and st: "st < disksize s"
    using boot by (auto simp: log_booted_def word_less_nat_alt)
  let ?x = "disk s 1 st"
  have v: "bview s st = ?x" using bview_clean [OF ok] dirty by simp
  obtain i s1 where r: "bread w 1 st s = Ok (i, s1)" "cache_ok p {i} s1" "buf_is s1 i st" "b_data (bufs s1 ! i) = ?x"
    "bio_same {} s s1"
    using bread_w [OF g ok st] dirty v by (auto simp: NBUF_def)
  note same = bio_sameD [OF r(5)]
  let ?h = "(lh (log_st s))\<lparr>lh_n := get32 ?x 0\<rparr>"
  have n: "unat (get32 ?x 0) = length B" using B(1) by (auto simp: hdr_blocks_def)
  have nB: "length B < LOGSIZE" using boot B(2) by (auto simp: log_booted_def blocks_ok_def)
  have gn: "get32 ?x 0 = of_nat (length B)" using n by (metis of_nat_unat ucast_id)
  obtain bl where bl: "head_blocks LOGSIZE 0 ?x ?h = Ok (?h\<lparr>lh_block := bl\<rparr>)" "length bl = LOGSIZE"
    "\<And>j. j < length B \<Longrightarrow> bl ! j = get32 ?x (4 + 4 * j)"
    using head_blocks_ok [of ?h "length B" 0 LOGSIZE ?x] gn nB len by auto
  let ?u = "upd_log (\<lambda>l. l\<lparr>lh := ?h\<lparr>lh_block := bl\<rparr>\<rparr>) s1"
  have B': "B ! j = get32 ?x (4 + 4 * j)" if "j < length B" for j
  proof -
    have "hdr_blocks ?x ! j = get32 ?x (4 + 4 * j)" using n that by (simp add: hdr_blocks_def get32s_def)
    then show ?thesis using B(1) by simp
  qed
  have tk: "take (length B) bl = B"
    using bl nB B' by (intro nth_equalityI) auto
  obtain s2 where x: "brelse i ?u = Ok s2" "cache_ok p {} s2" "bio_same {} ?u s2"
    using brelse_spec [of p "{i}" ?u i st] r(2,3) v same by auto
  note same' = bio_sameD [OF x(3)]
  have "read_head w s = Ok s2"
    using r(1,4) dev bl(1) x(1) same(1) by (simp add: read_head_def)
  moreover have "log_inv p {} st sz B {} s2"
    using boot x(2) B(2) same same' tk bl(2) gn dirty by (simp add: log_inv_def log_booted_def)
  ultimately show thesis using that same same' by simp
qed

definition recover_trace :: "u32 \<Rightarrow> u32 list \<Rightarrow> (u32 \<Rightarrow> block) \<Rightarrow> (u32 \<times> u32 \<times> block) list" where
  "recover_trace st B v = map (\<lambda>i. (1, B ! i, v (st + of_nat i + 1))) [0..<length B] @ [(1, st, enc_head (v st) [])]"

lemma recover_spec:
  assumes g: "good_world w" and boot: "log_booted p st sz s"
    and B: "hdr_blocks (disk s 1 st) = B" "blocks_ok st sz (disksize s) B"
  obtains s' where "recover_from_log w s = Ok s'" "log_inv p {} st sz [] {} s'"
    "dwrites s' = dwrites s @ recover_trace st B (disk s 1)" "disk s' = apply_writes (disk s) (recover_trace st B (disk s 1))"
proof -
  obtain s1 where s1: "read_head w s = Ok s1" "log_inv p {} st sz B {} s1" "bview s1 = bview s" "disk s1 = disk s" "dwrites s1 = dwrites s"
    using read_head_spec [OF g boot B] by metis
  note D = log_invD [OF s1(2)]
  have v: "bview s1 = disk s 1" using bview_clean [OF D(1)] D(6) s1(4) by (simp add: fun_eq_iff)
  obtain s2 where s2: "install_trans w s1 = Ok s2" "log_inv p {} st sz B {} s2" "\<And>b. b \<notin> set B \<Longrightarrow> bview s2 b = disk s 1 b"
    "dwrites s2 = dwrites s @ map (\<lambda>i. (1, B ! i, disk s 1 (st + of_nat i + 1))) [0..<length B]"
    "disk s2 = apply_writes (disk s) (map (\<lambda>i. (1, B ! i, disk s 1 (st + of_nat i + 1))) [0..<length B])"
    using install_loop [OF g s1(2), of 0 LOGSIZE] D(5) s1(4,5) unfolding v by (auto simp: install_trans_def)
  obtain s3 where s3: "write_head w (clear_lh s2) = Ok s3" "log_inv p {} st sz [] {} s3"
    "disk s3 = (disk s2)(1 := (disk s2 1)(st := enc_head (bview s2 st) []))"
    "dwrites s3 = dwrites s2 @ [(1, st, enc_head (bview s2 st) [])]"
    using write_head_spec [OF g clear_lh_inv [OF s2(2)]] by (metis clear_lh_sel)
  have "recover_from_log w s = Ok s3" using s1(1) s2(1) s3(1) by (simp add: recover_from_log_def)
  then show thesis
    using that s2 s3 log_start_ok(3) [OF s1(2)] by (simp add: recover_trace_def)
qed

text \<open>A crash during recovery leaves a disk that stands for the same blocks.\<close>

lemma recover_crash_points:
  assumes inv: "log_inv p {} st sz B {} s" and hd: "hdr_blocks (disk s 1 st) = B"
    and d: "d = apply_writes (disk s) (take k (recover_trace st B (disk s 1))) 1"
  shows "hdr_blocks (d st) = (if k \<le> length B then B else [])" "b \<notin> log_area st sz \<Longrightarrow> logical st d b = logical st (disk s 1) b"
proof -
  note D = log_invD [OF inv] and S = log_start_ok [OF inv]
  let ?e = "disk s 1" and ?n = "length B"
  let ?j = "min k ?n"
  let ?W = "map (\<lambda>i. (1, B ! i, ?e (st + of_nat i + 1))) [0..<?j]"
  have inj: "inj_on ((!) B) {..<?j}" using D(9) by (intro inj_on_nth) auto
  define a where "a = apply_writes (disk s) ?W 1"
  have nm: "B ! i \<noteq> c" if "i < ?j" "c \<notin> set B" for i c using that by auto
  have a: "i < ?j \<Longrightarrow> a (B ! i) = ?e (st + of_nat i + 1)" "c \<notin> set B \<Longrightarrow> a c = ?e c" for i c
    unfolding a_def by (rule apply_writes_map(1) [OF inj], assumption) (rule apply_writes_map(2) [OF inj nm])
  have dk: "d = (if k \<le> ?n then a else a(st := enc_head (?e st) []))"
    unfolding d recover_trace_def a_def by (auto simp: take_map_upt min_def take_Cons')
  have e0: "hdr_blocks (enc_head (?e st) []) = []" using hdr_blocks_enc(1) [of "?e st" "[]"] S(5,6) by simp
  show h: "hdr_blocks (d st) = (if k \<le> ?n then B else [])"
    using dk a(2) [OF S(3)] hd e0 by simp
  have lN: "logical st ?e (B ! i) = ?e (st + of_nat i + 1)" if "i < ?n" for i
    by (rule logical_nth [of ?e st B, OF hd D(9) that])
  have lO: "logical st ?e c = ?e c" if "c \<notin> set B" for c by (rule logical_out [of ?e st B, OF hd that])
  show "logical st d b = logical st ?e b" if b: "b \<notin> log_area st sz"
  proof (cases "k \<le> ?n")
    case True
    have "a (st + of_nat i + 1) = logical st ?e (B ! i)" if "i < ?n" for i
      using a(2) [OF log_blk(6) [OF inv that]] lN [OF that] by simp
    moreover have "a b = logical st ?e b" if "b \<notin> set B" using a(2) [OF that] lO [OF that] by simp
    ultimately show ?thesis
      using logical_full [of d st B "logical st ?e" b] h D(9) True dk by simp
  next
    case False
    have ne: "b \<noteq> st" using b S(2) by auto
    have "d b = logical st ?e b"
    proof (cases "b \<in> set B")
      case True
      then obtain i where i: "i < ?n" "b = B ! i" by (auto simp: in_set_conv_nth)
      then have "a b = ?e (st + of_nat i + 1)" using a(1) [of i] False by simp
      then show ?thesis using lN [OF i(1)] i(2) dk False ne by simp
    qed (use a(2) lO dk False ne in simp)
    then show ?thesis using logical_empty [of d st] h False by simp
  qed
qed

lemma recover_installs:
  fixes s :: "'a lg_scheme"
  assumes g: "good_world w" and boot: "log_booted p st sz s" and B: "blocks_ok st sz (disksize s) (hdr_blocks (disk s 1 st))"
  obtains s' where "recover_from_log w s = Ok s'" "log_inv p {} st sz [] {} s'"
    "dwrites s' = dwrites s @ recover_trace st (hdr_blocks (disk s 1 st)) (disk s 1)"
    "\<And>b. b \<notin> log_area st sz \<Longrightarrow> disk s' 1 b = logical st (disk s 1) b" "hdr_blocks (disk s' 1 st) = []"
proof -
  let ?B = "hdr_blocks (disk s 1 st)"
  obtain s1 :: "'a lg_scheme" where s1: "log_inv p {} st sz ?B {} s1" "disk s1 = disk s" using read_head_spec [OF g boot refl B] by metis
  obtain s' where s': "recover_from_log w s = Ok s'" "log_inv p {} st sz [] {} s'"
    "dwrites s' = dwrites s @ recover_trace st ?B (disk s 1)" "disk s' = apply_writes (disk s) (recover_trace st ?B (disk s 1))"
    using recover_spec [OF g boot refl B] by metis
  have d: "disk s' 1 = apply_writes (disk s1) (take (length ?B + 1) (recover_trace st ?B (disk s1 1))) 1"
    using s'(4) s1(2) by (simp add: recover_trace_def)
  have h: "hdr_blocks (disk s' 1 st) = []" using recover_crash_points(1) [OF s1(1) _ d] s1(2) by simp
  have "disk s' 1 b = logical st (disk s 1) b" if "b \<notin> log_area st sz" for b
    using recover_crash_points(2) [OF s1(1) _ d that] s1(2) logical_empty [of "disk s' 1" st, OF h] by simp
  then show thesis using that s' h by blast
qed

section \<open>Transactions\<close>

lemma upd_log_cpu [simp]:
  "thiscpu (upd_log f s) = thiscpu s" "fl_if (upd_log f s) = fl_if s" "held (upd_log f s) = held s" "procs (upd_log f s) = procs s"
  "sleeplocks (upd_log f s) = sleeplocks s" "in_proc p (upd_log f s) = in_proc p s"
  by (simp_all add: upd_log_def in_proc_def wf_cpu_def)

lemma cache_ok_cpu:
  assumes "cache_ok p H s"
  shows "cache_ok p H (s\<lparr>thiscpu := settled s\<rparr>)" "buf_is (s\<lparr>thiscpu := c\<rparr>) i b = buf_is s i b"
    "bview (s\<lparr>thiscpu := c\<rparr>) = bview s" "dirty_blks (s\<lparr>thiscpu := c\<rparr>) = dirty_blks s"
  using assms in_proc_upd(3) [of p s]
  by (simp_all add: cache_ok_def buf_is_def bview_def dirty_blks_def dirty_bufs_def fun_eq_iff split: option.split)

lemma sint_size_pred:
  assumes "0 < unat (sz :: u32)" "unat sz \<le> LOGSIZE"
  shows "sint (sz - 1) = int (unat sz - 1)"
proof -
  have "sz - 1 = of_nat (unat sz - 1)" using assms(1) by (simp add: of_nat_diff)
  moreover have "sint (of_nat (unat sz - 1) :: u32) = int (unat sz - 1)"
    using assms(2) by (intro sint_of_nat_small) (simp add: LOGSIZE_def MAXOPBLOCKS_def)
  ultimately show ?thesis by metis
qed

lemma log_slot_eq:
  assumes "log_inv p H st sz B D s"
  shows "log_slot (of_nat (length B)) b (lh_block (lh (log_st s))) = (case find_idx (\<lambda>x. x = b) B of Some i \<Rightarrow> i | None \<Rightarrow> length B)"
  using assms log_invD(5) [OF assms]
  by (simp add: log_slot_def sint_of_nat_small LOGSIZE_def MAXOPBLOCKS_def log_inv_def split: option.split)

text \<open>Adding a locked block to the transaction: pinned once, listed once, not written.\<close>

lemma log_write_spec:
  assumes inv: "log_inv p H st sz B (set B) s" and i: "i \<in> H" "buf_is s i blk" and blk: "blk \<notin> log_area st sz"
    and room: "Suc (length B) < unat sz" and out: "1 \<le> sint (outstanding (log_st s))"
  defines "B' \<equiv> (if blk \<in> set B then B else B @ [blk])"
  obtains s' h where "log_write i s = Ok s'" "log_inv p H st sz B' (set B') s'"
    "s' = s\<lparr>thiscpu := settled s, bufs := (bufs s)[i := (bufs s ! i)\<lparr>b_flags := B_VALID OR B_DIRTY\<rparr>],
       log_st := (log_st s)\<lparr>lh := h\<rparr>\<rparr>" "bview s' = bview s" "\<And>k x. buf_is s' k x = buf_is s k x"
proof -
  note D = log_invD [OF inv]
  have ip: "in_proc p s" and len: "length (bufs s) = NBUF" "i < NBUF" "length (lh_block (lh (log_st s))) = LOGSIZE"
    using cache_okD(1,2) [OF D(1)] i(2) inv by (auto simp: buf_is_def log_inv_def)
  have bi: "b_blockno (bufs s ! i) = blk" and dsz: "blk < disksize s"
    using i(2) cache_okD(10,11) [OF D(1) len(2)] by (auto simp: buf_is_def)
  have fl: "b_flags (bufs s ! i) OR B_DIRTY = (B_VALID OR B_DIRTY)"
    using cache_okD(9) [OF D(1) len(2)] cache_okD(6) [OF D(1) i(1)] by auto
  have sz: "unat sz \<le> LOGSIZE" "log_size (log_st s) = sz" using inv by (simp_all add: log_inv_def)
  have "int (length B) < sint (sz - 1)" using sint_size_pred [of sz] room sz(1) by linarith
  then have guard: "\<not> (sint (of_nat (length B) :: u32) \<ge> int LOGSIZE \<or> sint (of_nat (length B) :: u32) \<ge> sint (sz - 1))"
    using room sz(1) D(5) by (simp add: sint_of_nat_small LOGSIZE_def MAXOPBLOCKS_def)
  define k where "k = log_slot (of_nat (length B)) blk (lh_block (lh (log_st s)))"
  define h where "h = (lh (log_st s))\<lparr>lh_block := (lh_block (lh (log_st s)))[k := blk], lh_n := of_nat (length B')\<rparr>"
  have k: "k = (case find_idx (\<lambda>x. x = blk) B of Some i \<Rightarrow> i | None \<Rightarrow> length B)" unfolding k_def by (rule log_slot_eq [OF inv])
  have kB: "blk \<in> set B \<Longrightarrow> k < length B \<and> B ! k = blk" "blk \<notin> set B \<Longrightarrow> k = length B"
    using k find_idx_SomeD [of "\<lambda>x. x = blk" B] find_idx_None_iff [of "\<lambda>x. x = blk" B] by (auto split: option.splits)
  let ?s' = "s\<lparr>thiscpu := settled s, bufs := (bufs s)[i := (bufs s ! i)\<lparr>b_flags := B_VALID OR B_DIRTY\<rparr>], log_st := (log_st s)\<lparr>lh := h\<rparr>\<rparr>"
  have kn: "int k = sint (of_nat (length B) :: u32) \<longleftrightarrow> blk \<notin> set B"
    using kB D(5) by (auto simp: sint_of_nat_small LOGSIZE_def MAXOPBLOCKS_def)
  have lB': "of_nat (length B') = (if blk \<in> set B then of_nat (length B) else of_nat (length B) + 1 :: u32)" by (simp add: B'_def)
  have run: "log_write i s = Ok ?s'"
    using ip guard out D(4) sz(2) len bi fl
    by (simp add: log_write_def acquire_eq release_eq in_proc_def wf_cpu_def Let_def kn flip: k_def)
      (auto simp: kn upd_log_def upd_buf_def h_def lB' intro!: lg.equality)
  let ?t = "upd_buf i (\<lambda>b. b\<lparr>b_flags := b_flags b OR B_DIRTY\<rparr>) s"
  note T = mark_dirty_spec [OF D(1) i]
  have eq: "?s' = upd_log (\<lambda>l. l\<lparr>lh := h\<rparr>) (?t\<lparr>thiscpu := settled ?t\<rparr>)"
    using fl by (simp add: upd_log_def upd_buf_def)
  have c: "cache_ok p H ?s'" "bview ?s' = bview s" "dirty_blks ?s' = insert blk (set B)" "buf_is ?s' j x = buf_is s j x" for j x
    unfolding eq using cache_ok_cpu [OF T(1)] T(2-4) D(6) by simp_all
  have "take (length B') ((lh_block (lh (log_st s)))[k := blk]) = B'"
  proof (cases "blk \<in> set B")
    case True
    then have "take (length B) ((lh_block (lh (log_st s)))[k := blk]) = B[k := blk]"
      using inv by (simp add: take_update_swap log_inv_def)
    then show ?thesis using True kB(1) by (metis B'_def list_update_id)
  next
    case False
    then show ?thesis
      using kB(2) D(5) len(3) inv by (simp add: B'_def take_Suc_conv_app_nth take_update_cancel log_inv_def)
  qed
  moreover have "blocks_ok st sz (disksize s) B'"
    using inv blk dsz room by (auto simp: log_inv_def blocks_ok_def B'_def)
  moreover have "insert blk (set B) = set B'" by (auto simp: B'_def)
  ultimately have "log_inv p H st sz B' (set B') ?s'"
    using inv c(1,3) len by (simp add: log_inv_def h_def)
  then show thesis using that run c by blast
qed

text \<open>\<open>begin_op\<close> and \<open>end_op\<close> of a process that finds the log idle.\<close>

lemma release_log: "release l s = Ok s' \<Longrightarrow> log_st s' = log_st (s :: 'a lg_scheme)"
  by (auto simp: release_def popcli_def holding_def pushcli_def mycpu_def andThen_eq_Ok_iff Let_def split: if_splits)

lemma begin_op_loop_reserves:
  "begin_op_loop fuel env s = Ok s' \<Longrightarrow>
   sint (lh_n (lh (log_st s')) + outstanding (log_st s') * of_nat MAXOPBLOCKS) \<le> int LOGSIZE \<and> \<not> committing (log_st s')"
proof (induction fuel arbitrary: s)
  case (Suc fuel)
  then show ?case
    by (auto simp: Let_def andThen_eq_Ok_iff dest!: release_log split: if_splits)
qed simp

lemma log_inv_cpu:
  assumes "log_inv p H st sz B D s" "in_proc p (s\<lparr>thiscpu := c, procs := P\<rparr>)" "woken (procs s) P"
    and l: "lh l = lh (log_st s)" "log_start l = log_start (log_st s)" "log_size l = log_size (log_st s)" "log_dev l = log_dev (log_st s)"
  shows "log_inv p H st sz B D (s\<lparr>thiscpu := c, procs := P, log_st := l\<rparr>)"
proof -
  have "cache_ok p H s" "p < length (procs s)" using log_invD(1) [OF assms(1)] cache_okD(1) by (auto simp: in_proc_def)
  then have "cache_ok p H (s\<lparr>thiscpu := c, procs := P, log_st := l\<rparr>)"
    using assms(2) woken_pid(1) [OF assms(3)] by (simp add: cache_ok_def in_proc_def wf_cpu_def buf_is_def)
  then show ?thesis
    using assms(1) l by (simp add: log_inv_def dirty_blks_def dirty_bufs_def)
qed

lemma bview_cpu [simp]: "bview (s\<lparr>thiscpu := c, procs := P, log_st := l\<rparr>) = bview (s :: 'a lg_scheme)"
  by (simp add: bview_def fun_eq_iff split: option.split)

lemma in_proc_wakeup: "in_proc p s \<Longrightarrow> in_proc p (s\<lparr>thiscpu := settled s, procs := procs (wakeup1 ch s)\<rparr>)"
  by (simp add: in_proc_def wf_cpu_def wakeup1_def)

lemma commit_or_skip:
  assumes g: "good_world w" and inv: "log_inv p {} st sz B (set B) s"
  obtains s' where "commit w s = Ok s'" "log_inv p {} st sz [] {} s'"
    "dwrites s' = dwrites s @ (if B = [] then [] else commit_trace st B (bview s))"
    "\<And>b. b \<notin> log_area st sz \<Longrightarrow> bview s' b = bview s b" "lg_step s s'" "log_st s' = log_st (clear_lh s)"
proof (cases "B = []")
  case True
  have "lh_n (lh (log_st s)) = 0" using log_invD(4) [OF inv] True by simp
  then have "commit w s = Ok s" "log_st s = log_st (clear_lh s)" by (simp_all add: commit_def clear_lh_def upd_log_def)
  then show thesis using that [of s] inv True by simp
next
  case False
  then show thesis using commit_spec [OF g inv False] that by auto
qed

lemma end_op_spec:
  assumes g: "good_world w" and inv: "log_inv p {} st sz B (set B) s"
    and out: "outstanding (log_st s) = 1" "\<not> committing (log_st s)"
  obtains s' where "end_op w s = Ok s'" "log_inv p {} st sz [] {} s'"
    "dwrites s' = dwrites s @ (if B = [] then [] else commit_trace st B (bview s))"
    "\<And>b. b \<notin> log_area st sz \<Longrightarrow> bview s' b = bview s b" "lg_step s s'"
    "log_st s' = (log_st s)\<lparr>outstanding := 0, lh := (lh (log_st s))\<lparr>lh_n := 0\<rparr>\<rparr>"
proof -
  have ip: "in_proc p s" using cache_okD(1) [OF log_invD(1) [OF inv]] .
  define s1 where "s1 = s\<lparr>thiscpu := settled s, procs := procs s, log_st := (log_st s)\<lparr>outstanding := 0, committing := True\<rparr>\<rparr>"
  have ip0: "in_proc p (s\<lparr>thiscpu := settled s, procs := procs s\<rparr>)" using ip by (simp add: in_proc_def wf_cpu_def)
  have inv1: "log_inv p {} st sz B (set B) s1" unfolding s1_def by (rule log_inv_cpu [OF inv ip0]) simp_all
  obtain s2 where s2: "commit w s1 = Ok s2" "log_inv p {} st sz [] {} s2"
    "dwrites s2 = dwrites s1 @ (if B = [] then [] else commit_trace st B (bview s1))"
    "\<And>b. b \<notin> log_area st sz \<Longrightarrow> bview s2 b = bview s1 b" "lg_step s1 s2" "log_st s2 = log_st (clear_lh s1)"
    using commit_or_skip [OF g inv1] by metis
  have ip2: "in_proc p s2" using cache_okD(1) [OF log_invD(1) [OF s2(2)]] .
  define s3 where "s3 = s2\<lparr>thiscpu := settled s2, procs := procs (wakeup1 CHAN_LOG s2), log_st := (log_st s2)\<lparr>committing := False\<rparr>\<rparr>"
  have inv3: "log_inv p {} st sz [] {} s3"
    unfolding s3_def by (rule log_inv_cpu [OF s2(2) in_proc_wakeup [OF ip2] woken_wakeup1]) simp_all
  have tail: "andThen (acquire LOG_LOCK s2) (\<lambda>s. andThen (wakeup CHAN_LOG (upd_log (\<lambda>l. l\<lparr>committing := False\<rparr>) s)) (release LOG_LOCK)) = Ok s3"
    using ip2 by (simp add: in_proc_def acquire_eq release_eq wakeup_eq wf_cpu_def)
      (rule lg.equality, simp_all add: s3_def wakeup1_def upd_log_def)
  have head: "andThen (acquire LOG_LOCK s) (\<lambda>s.
      release LOG_LOCK (upd_log (\<lambda>l. l\<lparr>committing := True\<rparr>) (upd_log (\<lambda>l. l\<lparr>outstanding := outstanding l - 1\<rparr>) s))) = Ok s1"
    using ip out by (simp add: in_proc_def acquire_eq release_eq wf_cpu_def)
      (rule lg.equality, simp_all add: s1_def upd_log_def)
  have run: "end_op w s = Ok s3"
    using head tail s2(1) ip out by (auto simp: end_op_def Let_def in_proc_def acquire_eq)
  have "lg_step s s1" unfolding s1_def by (rule lg_step_cpu) simp
  moreover have "lg_step s2 s3" unfolding s3_def by (rule lg_step_cpu) (rule woken_wakeup1)
  ultimately have lg: "lg_step s s3" using s2(5) lg_step_trans by blast
  have ls: "log_st s3 = (log_st s)\<lparr>outstanding := 0, lh := (lh (log_st s))\<lparr>lh_n := 0\<rparr>\<rparr>"
    using s2(6) out(2) by (simp add: s3_def s1_def clear_lh_def upd_log_def)
  have "bview s1 = bview s" "bview s3 = bview s2" unfolding s1_def s3_def by (rule bview_cpu)+
  moreover have "dwrites s1 = dwrites s" "dwrites s3 = dwrites s2" by (simp_all add: s1_def s3_def)
  ultimately show thesis using that [OF run inv3 _ _ lg ls] s2(3,4) by simp
qed

lemma begin_op_spec:
  assumes g: "good_world w" and inv: "log_inv p {} st sz B D s" and idle: "\<not> committing (log_st s)"
    and room: "sint (of_nat (length B) + (outstanding (log_st s) + 1) * of_nat MAXOPBLOCKS :: u32) \<le> int LOGSIZE"
  obtains s' where "begin_op w s = Ok s'" "log_inv p {} st sz B D s'" "bview s' = bview s" "disk s' = disk s" "dwrites s' = dwrites s"
    "lg_step s s'" "log_st s' = (log_st s)\<lparr>outstanding := outstanding (log_st s) + 1\<rparr>"
proof -
  have ip: "in_proc p s" using cache_okD(1) [OF log_invD(1) [OF inv]] .
  obtain f where f: "w_fuel w = Suc f" using g by (auto simp: good_world_def gr0_conv_Suc)
  define s1 where "s1 = s\<lparr>thiscpu := settled s, procs := procs s, log_st := (log_st s)\<lparr>outstanding := outstanding (log_st s) + 1\<rparr>\<rparr>"
  have ip0: "in_proc p (s\<lparr>thiscpu := settled s, procs := procs s\<rparr>)" using ip by (simp add: in_proc_def wf_cpu_def)
  have inv1: "log_inv p {} st sz B D s1" unfolding s1_def by (rule log_inv_cpu [OF inv ip0]) simp_all
  have run: "begin_op w s = Ok s1"
    using ip f idle room log_invD(4) [OF inv]
    by (simp add: begin_op_def in_proc_def acquire_eq release_eq wf_cpu_def Let_def)
      (rule lg.equality, simp_all add: s1_def upd_log_def)
  have "bview s1 = bview s" unfolding s1_def by (rule bview_cpu)
  moreover have "lg_step s s1" unfolding s1_def by (rule lg_step_cpu) simp
  ultimately show thesis using that [OF run inv1] by (simp add: s1_def)
qed

section \<open>Properties\<close>

text \<open>
  C1. A commit is atomic across crashes. Whatever number of its device writes have reached the
  disk when the machine stops, recovery on the next boot succeeds and leaves every block outside
  the log as it was before the transaction, or every one as the transaction left it; once all
  writes are done it is the latter, and the commit itself ends with the transaction on the disk.
\<close>

theorem commit_crash_atomic:
  fixes s :: "'a lg_scheme"
  assumes g: "good_world w" "good_world w'" and inv: "log_inv p {} st sz B (set B) s" and B: "B \<noteq> []"
    and empty: "hdr_blocks (disk s 1 st) = []"
  shows "\<exists>s' W. commit w s = Ok s' \<and> dwrites s' = dwrites s @ W \<and> (\<forall>b. b \<notin> log_area st sz \<longrightarrow> disk s' 1 b = bview s b)
    \<and> (\<forall>k q (t :: 'a lg_scheme). log_booted q st sz t \<and> disksize t = disksize s \<and> disk t = apply_writes (disk s) (take k W) \<longrightarrow>
         (\<exists>t'. recover_from_log w' t = Ok t'
            \<and> ((\<forall>b. b \<notin> log_area st sz \<longrightarrow> disk t' 1 b = disk s 1 b) \<and> k < length W
               \<or> (\<forall>b. b \<notin> log_area st sz \<longrightarrow> disk t' 1 b = bview s b))))"
proof -
  let ?W = "commit_trace st B (bview s)"
  obtain s' where s': "commit w s = Ok s'" "log_inv p {} st sz [] {} s'" "dwrites s' = dwrites s @ ?W" "disk s' = apply_writes (disk s) ?W"
    "\<And>b. b \<notin> log_area st sz \<Longrightarrow> bview s' b = bview s b"
    using commit_spec [OF g(1) inv B] by metis
  have home: "disk s' 1 b = bview s b" if "b \<notin> log_area st sz" for b
    using bview_clean [OF log_invD(1) [OF s'(2)], of b] log_invD(6) [OF s'(2)] s'(5) [OF that] by simp
  have lW: "length ?W = 2 * length B + 2" by (simp add: commit_trace_def)
  have rec: "\<exists>t'. recover_from_log w' t = Ok t'
            \<and> ((\<forall>b. b \<notin> log_area st sz \<longrightarrow> disk t' 1 b = disk s 1 b) \<and> k < length ?W
               \<or> (\<forall>b. b \<notin> log_area st sz \<longrightarrow> disk t' 1 b = bview s b))"
    if t: "log_booted q st sz t" "disksize t = disksize s" "disk t = apply_writes (disk s) (take k ?W)" for k q and t :: "'a lg_scheme"
  proof -
    let ?d = "disk t 1"
    have d: "?d = apply_writes (disk s) (take k ?W) 1" using t(3) by simp
    note cp = commit_crash_points [OF inv empty d]
    have "blocks_ok st sz (disksize t) (hdr_blocks (?d st))"
      using cp inv t(2) by (auto simp: log_inv_def blocks_ok_def)
    then obtain t' where t': "recover_from_log w' t = Ok t'" "\<And>b. b \<notin> log_area st sz \<Longrightarrow> disk t' 1 b = logical st ?d b"
      using recover_installs [OF g(2) t(1)] by metis
    show ?thesis using cp t' lW logical_empty [of ?d st] by auto
  qed
  show ?thesis using s' home rec by blast
qed

text \<open>
  C32. Recovery can itself be interrupted: from a disk with a well-formed log it installs the
  logged blocks, and if it stops after any number of its writes, recovering again ends with the
  same blocks outside the log.
\<close>

theorem recovery_restartable:
  fixes s :: "'a lg_scheme"
  assumes g: "good_world w" "good_world w'" and boot: "log_booted p st sz s"
    and B: "blocks_ok st sz (disksize s) (hdr_blocks (disk s 1 st))"
  shows "\<exists>s' W. recover_from_log w s = Ok s' \<and> dwrites s' = dwrites s @ W \<and> hdr_blocks (disk s' 1 st) = []
    \<and> (\<forall>b. b \<notin> log_area st sz \<longrightarrow> disk s' 1 b = logical st (disk s 1) b)
    \<and> (\<forall>k q (t :: 'a lg_scheme). log_booted q st sz t \<and> disksize t = disksize s \<and> disk t = apply_writes (disk s) (take k W) \<longrightarrow>
         (\<exists>t'. recover_from_log w' t = Ok t' \<and> (\<forall>b. b \<notin> log_area st sz \<longrightarrow> disk t' 1 b = disk s' 1 b)))"
proof -
  let ?B = "hdr_blocks (disk s 1 st)"
  let ?W = "recover_trace st ?B (disk s 1)"
  obtain s' where s': "recover_from_log w s = Ok s'" "dwrites s' = dwrites s @ ?W"
    "\<And>b. b \<notin> log_area st sz \<Longrightarrow> disk s' 1 b = logical st (disk s 1) b" "hdr_blocks (disk s' 1 st) = []"
    using recover_installs [OF g(1) boot B] by metis
  obtain s1 :: "'a lg_scheme" where s1: "log_inv p {} st sz ?B {} s1" "disk s1 = disk s"
    using read_head_spec [OF g(1) boot refl B] by metis
  have rec: "\<exists>t'. recover_from_log w' t = Ok t' \<and> (\<forall>b. b \<notin> log_area st sz \<longrightarrow> disk t' 1 b = disk s' 1 b)"
    if t: "log_booted q st sz t" "disksize t = disksize s" "disk t = apply_writes (disk s) (take k ?W)" for k q and t :: "'a lg_scheme"
  proof -
    have d: "disk t 1 = apply_writes (disk s1) (take k (recover_trace st ?B (disk s1 1))) 1" using t(3) s1(2) by simp
    have hd: "hdr_blocks (disk s1 1 st) = ?B" using s1(2) by simp
    note cp = recover_crash_points [OF s1(1) hd d]
    have "blocks_ok st sz (disksize t) (hdr_blocks (disk t 1 st))"
      using cp(1) B t(2) by (auto simp: blocks_ok_def)
    then obtain t' where t': "recover_from_log w' t = Ok t'" "\<And>b. b \<notin> log_area st sz \<Longrightarrow> disk t' 1 b = logical st (disk t 1) b"
      using recover_installs [OF g(2) t(1)] by metis
    then show ?thesis using cp(2) s1(2) s'(3) by auto
  qed
  show ?thesis using s' rec by blast
qed

text \<open>
  C33. Inside a transaction with room, \<open>log_write\<close> lists the block once however often it is
  written, pins its buffer and changes no contents and nothing on the disk; with as many blocks
  listed as the log has data blocks it panics, even for a block already listed.
\<close>

theorem log_write_transaction:
  fixes s :: "'a lg_scheme"
  assumes inv: "log_inv p H st sz B (set B) s" and i: "i \<in> H" "buf_is s i blk" and blk: "blk \<notin> log_area st sz"
    and out: "1 \<le> sint (outstanding (log_st s))"
  shows "if Suc (length B) < unat sz
    then \<exists>s'. log_write i s = Ok s'
      \<and> log_inv p H st sz (if blk \<in> set B then B else B @ [blk]) (insert blk (set B)) s'
      \<and> bview s' = bview s \<and> disk s' = disk s \<and> dwrites s' = dwrites s \<and> blk \<in> dirty_blks s'
    else log_write i s = Panic ''too big a transaction''"
proof (cases "Suc (length B) < unat sz")
  case True
  let ?B = "if blk \<in> set B then B else B @ [blk]"
  obtain s' h where s': "log_write i s = Ok s'" "log_inv p H st sz ?B (set ?B) s'"
    "s' = s\<lparr>thiscpu := settled s, bufs := (bufs s)[i := (bufs s ! i)\<lparr>b_flags := B_VALID OR B_DIRTY\<rparr>],
       log_st := (log_st s)\<lparr>lh := h\<rparr>\<rparr>" "bview s' = bview s"
    using log_write_spec [OF inv i blk True out] by metis
  have b: "set ?B = insert blk (set B)" by auto
  have "disk s' = disk s" "dwrites s' = dwrites s" unfolding s'(3) by simp_all
  moreover have "blk \<in> dirty_blks s'" using log_invD(6) [OF s'(2)] b by simp
  ultimately show ?thesis using True s'(1,2,4) unfolding b by auto
next
  case False
  have sz: "log_size (log_st s) = sz" "unat sz \<le> LOGSIZE" "length B < unat sz" using inv by (auto simp: log_inv_def blocks_ok_def)
  have "sint (of_nat (length B) :: u32) = int (length B)"
    using log_invD(5) [OF inv] by (intro sint_of_nat_small) (simp add: LOGSIZE_def MAXOPBLOCKS_def)
  then have "sint (log_size (log_st s) - 1) \<le> sint (lh_n (lh (log_st s)))"
    unfolding sz(1) log_invD(4) [OF inv] using sint_size_pred [of sz] False sz by linarith
  then show ?thesis using False by (simp add: log_write_def)
qed

text \<open>
  C34. Whatever other processes do while it waits, \<open>begin_op\<close> only lets an operation start when no
  commit is running and the blocks already logged and the reservations of all running operations,
  this one included, fit in \<open>LOGSIZE\<close>; when that is so at once, it does not wait.
\<close>

theorem begin_op_reserves:
  fixes s :: "'a lg_scheme"
  shows "(begin_op w s = Ok s' \<longrightarrow>
      sint (lh_n (lh (log_st s')) + outstanding (log_st s') * of_nat MAXOPBLOCKS) \<le> int LOGSIZE \<and> \<not> committing (log_st s'))
    \<and> (good_world w \<and> log_inv p {} st sz B D s \<and> \<not> committing (log_st s)
       \<and> sint (of_nat (length B) + (outstanding (log_st s) + 1) * of_nat MAXOPBLOCKS :: u32) \<le> int LOGSIZE \<longrightarrow>
      (\<exists>s'. begin_op w s = Ok s' \<and> outstanding (log_st s') = outstanding (log_st s) + 1 \<and> bview s' = bview s))"
proof (intro conjI impI)
  assume "begin_op w s = Ok s'"
  then show "sint (lh_n (lh (log_st s')) + outstanding (log_st s') * of_nat MAXOPBLOCKS) \<le> int LOGSIZE" "\<not> committing (log_st s')"
    using begin_op_loop_reserves by (auto simp: begin_op_def andThen_eq_Ok_iff)
next
  assume a: "good_world w \<and> log_inv p {} st sz B D s \<and> \<not> committing (log_st s)
    \<and> sint (of_nat (length B) + (outstanding (log_st s) + 1) * of_nat MAXOPBLOCKS :: u32) \<le> int LOGSIZE"
  then have "good_world w" "log_inv p {} st sz B D s" "\<not> committing (log_st s)"
    "sint (of_nat (length B) + (outstanding (log_st s) + 1) * of_nat MAXOPBLOCKS :: u32) \<le> int LOGSIZE" by blast+
  from begin_op_spec [OF this]
  show "\<exists>s'. begin_op w s = Ok s' \<and> outstanding (log_st s') = outstanding (log_st s) + 1 \<and> bview s' = bview s"
    by (metis log_t.select_convs(3) log_t.surjective log_t.update_convs(3))
qed

section \<open>An example\<close>

text \<open>Block 40 modified and pinned in buffer 0, in a log of 30 blocks from block 2.\<close>

definition dirty_buf :: buf where
  "dirty_buf = \<lparr>b_flags = B_VALID OR B_DIRTY, b_dev = 1, b_blockno = 40, b_refcnt = 0, b_data = replicate BSIZE 1\<rparr>"

definition log_example :: lg where
  "log_example = bio.extend (bio_example\<lparr>bufs := dirty_buf # replicate 29 \<lparr>b_flags = 0, b_dev = 0, b_blockno = 0, b_refcnt = 0, b_data = replicate BSIZE 0\<rparr>\<rparr>)
     \<lparr>log_st = \<lparr>log_start = 2, log_size = 30, outstanding = 1, committing = False, log_dev = 1,
        lh = \<lparr>lh_n = 1, lh_block = 40 # replicate 29 0\<rparr>\<rparr>\<rparr>"

definition lg_world :: "lg world" where
  "lg_world = \<lparr>w_fuel = 1, w_env = (\<lambda>s. s), w_iderw = memide_iderw\<rparr>"

lemma lg_world_good: "good_world lg_world"
  by (simp add: good_world_def lg_world_def memide.disk_driver_axioms)

lemma log_example_bufs: "i < 30 \<Longrightarrow> bufs log_example ! i = (if i = 0 then dirty_buf else \<lparr>b_flags = 0, b_dev = 0, b_blockno = 0, b_refcnt = 0, b_data = replicate BSIZE 0\<rparr>)"
  by (simp add: log_example_def bio.defs nth_Cons')

lemma log_example_sel:
  "lru log_example = rev [0..<NBUF]" "disk log_example = (\<lambda>_ _. replicate BSIZE 0)" "disksize log_example = 1000"
  "length (bufs log_example) = NBUF" "sleeplocks log_example = (\<lambda>_. \<lparr>sl_locked = False, sl_pid = 0\<rparr>)"
  "log_st log_example = \<lparr>log_start = 2, log_size = 30, outstanding = 1, committing = False, log_dev = 1,
        lh = \<lparr>lh_n = 1, lh_block = 40 # replicate 29 0\<rparr>\<rparr>"
  by (simp_all add: log_example_def bio.defs bio_example_def slk.defs NBUF_def slk_example_def ptab.defs)

lemma log_example_cache: "cache_ok 1 {} log_example"
proof -
  have ip: "in_proc 1 log_example"
    using slk_example_ok by (simp add: log_example_def bio.defs bio_example_def slk.defs in_proc_def wf_cpu_def)
  show ?thesis
    by (rule cache_okI) (use ip in \<open>auto simp: log_example_sel log_example_bufs NBUF_def dirty_buf_def buf_is_def split: if_splits\<close>)
qed

lemma log_example_inv: "log_inv 1 {} 2 30 [40] {40} log_example"
proof -
  have "dirty_bufs log_example = {0}" by (auto simp: dirty_bufs_def log_example_bufs NBUF_def dirty_buf_def split: if_splits)
  then have "dirty_blks log_example = {40}" by (simp add: dirty_blks_def log_example_bufs dirty_buf_def)
  then show ?thesis
    using log_example_cache
    by (simp add: log_inv_def log_example_sel LOGSIZE_def MAXOPBLOCKS_def blocks_ok_def log_area_def)
qed

lemma log_example_view: "bview log_example 40 = replicate BSIZE 1"
proof -
  have "buf_is log_example 0 40" by (simp add: buf_is_def log_example_bufs dirty_buf_def NBUF_def)
  then show ?thesis using bview_buf [OF log_example_cache] by (simp add: log_example_bufs dirty_buf_def)
qed

lemma zero_head: "hdr_blocks (replicate BSIZE 0) = []"
  by (simp add: hdr_blocks_def get32s_def get32_def BSIZE_def)

theorem commit_crash_atomic_witness:
  "\<exists>s'. commit lg_world log_example = Ok s' \<and> disk s' 1 40 = replicate BSIZE 1 \<and> disk log_example 1 40 = replicate BSIZE 0"
  using commit_crash_atomic [OF lg_world_good lg_world_good, of 1 2 30 "[40]" log_example]
    log_example_inv log_example_view zero_head
  by (auto simp: log_example_sel log_area_def)

definition boot_example :: lg where
  "boot_example = bio.extend bio_example
     \<lparr>log_st = \<lparr>log_start = 2, log_size = 30, outstanding = 0, committing = False, log_dev = 1,
        lh = \<lparr>lh_n = 0, lh_block = replicate 30 0\<rparr>\<rparr>\<rparr>"

lemma bio_extend_ok: "cache_ok p H (bio.extend s m) = cache_ok p H s" "dirty_blks (bio.extend s m) = dirty_blks s"
  unfolding cache_ok_def in_proc_def wf_cpu_def buf_is_def dirty_blks_def dirty_bufs_def
  by (simp_all add: bio.defs)

lemma boot_example_booted: "log_booted 1 2 30 boot_example"
proof -
  have "cache_ok 1 {} boot_example" "dirty_blks boot_example = {}"
    using bio_example_ok(1,2) by (simp_all add: boot_example_def bio_extend_ok)
  then show ?thesis
    by (simp add: log_booted_def boot_example_def bio.defs LOGSIZE_def MAXOPBLOCKS_def bio_example_def slk.defs)
qed

theorem recovery_restartable_witness: "\<exists>s'. recover_from_log lg_world boot_example = Ok s'"
proof -
  have "disk boot_example = (\<lambda>_ _. replicate BSIZE 0)" by (simp add: boot_example_def bio.defs bio_example_def slk.defs)
  then show ?thesis
    using recovery_restartable [OF lg_world_good lg_world_good boot_example_booted] zero_head
    by (auto simp: blocks_ok_def)
qed

text \<open>Process 1 has just changed block 41 in buffer 1.\<close>

definition logging_example :: lg where
  "logging_example = log_example\<lparr>
     bufs := (bufs log_example)[1 := \<lparr>b_flags = B_VALID, b_dev = 1, b_blockno = 41, b_refcnt = 1, b_data = replicate BSIZE 7\<rparr>],
     sleeplocks := (sleeplocks log_example)(BUF_SLEEP 1 := \<lparr>sl_locked = True, sl_pid = 1\<rparr>)\<rparr>"

lemma logging_example_bufs: "i < 30 \<Longrightarrow> bufs logging_example ! i =
    (if i = 1 then \<lparr>b_flags = B_VALID, b_dev = 1, b_blockno = 41, b_refcnt = 1, b_data = replicate BSIZE 7\<rparr> else bufs log_example ! i)"
  using log_example_sel(4) by (simp add: logging_example_def nth_list_update NBUF_def)

lemma logging_example_inv: "log_inv 1 {1} 2 30 [40] {40} logging_example" "buf_is logging_example 1 41"
proof -
  have ip: "in_proc 1 logging_example"
    using cache_okD(1) [OF log_example_cache] by (simp add: logging_example_def in_proc_def wf_cpu_def)
  have pid: "p_pid (procs logging_example ! 1) = 1"
    using ptab_example_procs(3)
    by (simp add: logging_example_def log_example_def bio.defs bio_example_def slk.defs slk_example_def ptab.defs)
  have sel: "lru logging_example = rev [0..<NBUF]" "disk logging_example = (\<lambda>_ _. replicate BSIZE 0)" "disksize logging_example = 1000"
    "length (bufs logging_example) = NBUF" "log_st logging_example = log_st log_example"
    "sleeplocks logging_example = (\<lambda>_. \<lparr>sl_locked = False, sl_pid = 0\<rparr>)(BUF_SLEEP 1 := \<lparr>sl_locked = True, sl_pid = 1\<rparr>)"
    using log_example_sel by (simp_all add: logging_example_def)
  have "cache_ok 1 {1} logging_example"
    by (rule cache_okI)
      (use ip pid in \<open>auto simp: sel logging_example_bufs log_example_bufs NBUF_def dirty_buf_def buf_is_def split: if_splits\<close>)
  moreover have "dirty_bufs logging_example = {0}"
    by (auto simp: dirty_bufs_def logging_example_bufs log_example_bufs NBUF_def dirty_buf_def split: if_splits)
  then have "dirty_blks logging_example = {40}" by (simp add: dirty_blks_def logging_example_bufs log_example_bufs dirty_buf_def)
  ultimately show "log_inv 1 {1} 2 30 [40] {40} logging_example"
    by (simp add: log_inv_def sel log_example_sel LOGSIZE_def MAXOPBLOCKS_def blocks_ok_def log_area_def)
  show "buf_is logging_example 1 41" by (simp add: buf_is_def logging_example_bufs NBUF_def)
qed

theorem log_write_transaction_witness:
  "\<exists>s'. log_write 1 logging_example = Ok s' \<and> 41 \<in> dirty_blks s' \<and> 40 \<in> dirty_blks s'"
proof -
  have out: "1 \<le> sint (outstanding (log_st logging_example))" by (simp add: logging_example_def log_example_sel)
  have blk: "(41 :: u32) \<notin> log_area 2 30" by (simp add: log_area_def)
  have inv: "log_inv 1 {1} 2 30 [40] (set [40]) logging_example" using logging_example_inv(1) by simp
  obtain s' where "log_write 1 logging_example = Ok s'" "log_inv 1 {1} 2 30 [40, 41] {41, 40} s'"
    using log_write_transaction [OF inv _ logging_example_inv(2) blk out] by auto
  then show ?thesis using log_invD(6) by fastforce
qed

theorem begin_op_reserves_witness:
  "\<exists>s'. begin_op lg_world log_example = Ok s' \<and> outstanding (log_st s') = 2
     \<and> sint (lh_n (lh (log_st s')) + outstanding (log_st s') * of_nat MAXOPBLOCKS) \<le> int LOGSIZE"
proof -
  have "\<not> committing (log_st log_example)"
    "sint (of_nat (length [40 :: u32]) + (outstanding (log_st log_example) + 1) * of_nat MAXOPBLOCKS :: u32) \<le> int LOGSIZE"
    by (simp_all add: log_example_sel LOGSIZE_def MAXOPBLOCKS_def)
  then obtain s' where "begin_op lg_world log_example = Ok s'" "outstanding (log_st s') = 2"
    using begin_op_reserves [of lg_world log_example _ 1 2 30 "[40]" "{40}"] lg_world_good log_example_inv
    by (auto simp: log_example_sel)
  then show ?thesis using begin_op_reserves [of lg_world log_example] by blast
qed

end
