(* ===== verification/Balloc.thy ===== *)
theory Balloc
  imports Log Resource_Spec
begin

text \<open>
  The lowest layer of \<^verbatim>\<open>fs.c\<close>: disk blocks, allocated and freed in the on-disk bitmap inside a
  transaction. The state adds the superblock \<^verbatim>\<open>sb\<close> and the inode cache of the layers above.
\<close>

section \<open>State\<close>

definition NDIRECT :: nat where "NDIRECT = 12"
definition NINDIRECT :: nat where "NINDIRECT = BSIZE div 4"
definition MAXFILE :: nat where "MAXFILE = NDIRECT + NINDIRECT"
definition NINODE :: nat where "NINODE = 50"
definition BPB :: nat where "BPB = BSIZE * 8"

record inode =
  i_dev :: u32
  i_inum :: u32
  i_ref :: u32
  i_valid :: bool
  i_type :: u16
  i_major :: u16
  i_minor :: u16
  i_nlink :: u16
  i_size :: u32
  i_addrs :: "u32 list"

record fs = lg +
  fs_sb :: superblock
  icache :: "inode list"

definition BBLOCK :: "u32 \<Rightarrow> superblock \<Rightarrow> u32" where
  "BBLOCK b sb = b div of_nat BPB + sb_bmapstart sb"

section \<open>Operations\<close>

definition bzero :: "('a lg_scheme, 'w) world_scheme \<Rightarrow> u32 \<Rightarrow> u32 \<Rightarrow> 'a lg_scheme \<Rightarrow> 'a lg_scheme res" where
  "bzero w dev bno s =
     andThen (bread w dev bno s) (\<lambda>(bp, s).
     andThen (log_write bp (set_data bp (replicate BSIZE 0) s)) (brelse bp))"

definition block_free :: "block \<Rightarrow> nat \<Rightarrow> bool" where
  "block_free d bi \<longleftrightarrow> d ! (bi div 8) AND push_bit (bi mod 8) 1 = 0"

definition mark_used :: "block \<Rightarrow> nat \<Rightarrow> block" where
  "mark_used d bi = d[bi div 8 := d ! (bi div 8) OR push_bit (bi mod 8) 1]"

definition mark_free :: "block \<Rightarrow> nat \<Rightarrow> block" where
  "mark_free d bi = d[bi div 8 := d ! (bi div 8) AND NOT (push_bit (bi mod 8) 1)]"

text \<open>The scan of one bitmap block stops at the first clear bit below \<^verbatim>\<open>sb.size\<close>.\<close>

function balloc_from :: "('a fs_scheme, 'w) world_scheme \<Rightarrow> u32 \<Rightarrow> nat \<Rightarrow> 'a fs_scheme \<Rightarrow> (u32 \<times> 'a fs_scheme) res" where
  "balloc_from w dev b s =
     (if b < unat (sb_size (fs_sb s)) then
        andThen (bread w dev (BBLOCK (of_nat b) (fs_sb s)) s) (\<lambda>(bp, s).
          case find (block_free (b_data (bufs s ! bp))) [0..<min BPB (unat (sb_size (fs_sb s)) - b)] of
            Some bi \<Rightarrow>
              andThen (log_write bp (set_data bp (mark_used (b_data (bufs s ! bp)) bi) s)) (\<lambda>s.
              andThen (brelse bp s) (\<lambda>s.
              andThen (bzero w dev (of_nat (b + bi)) s) (\<lambda>s. Ok (of_nat (b + bi), s))))
          | None \<Rightarrow> andThen (brelse bp s) (\<lambda>s. balloc_from w dev (b + BPB) s))
      else Panic ''balloc: out of blocks'')"
  by pat_completeness auto
termination
proof (relation "measure (\<lambda>(w, dev, b, s). 4294967296 - b)", goal_cases)
  case (2 w dev b s x bp s' s'')
  then show ?case using unsigned_less [of "sb_size (fs_sb s)", where ?'a = nat] by (simp add: BPB_def BSIZE_def)
qed simp

declare balloc_from.simps [simp del]

definition balloc :: "('a fs_scheme, 'w) world_scheme \<Rightarrow> u32 \<Rightarrow> 'a fs_scheme \<Rightarrow> (u32 \<times> 'a fs_scheme) res" where
  "balloc w dev s = balloc_from w dev 0 s"

definition bfree :: "('a fs_scheme, 'w) world_scheme \<Rightarrow> u32 \<Rightarrow> u32 \<Rightarrow> 'a fs_scheme \<Rightarrow> 'a fs_scheme res" where
  "bfree w dev b s =
     andThen (bread w dev (BBLOCK b (fs_sb s)) s) (\<lambda>(bp, s).
       let bi = unat b mod BPB in
       if block_free (b_data (bufs s ! bp)) bi then Panic ''freeing free block''
       else andThen (log_write bp (set_data bp (mark_free (b_data (bufs s ! bp)) bi) s)) (brelse bp))"

section \<open>Blocks inside a transaction\<close>

text \<open>
  \<open>txn p H st sz B s\<close>: process \<open>p\<close> is inside a file-system operation with the buffers \<open>H\<close> locked;
  the blocks changed so far, \<open>B\<close>, are listed in the log and pinned.
\<close>

definition txn :: "nat \<Rightarrow> nat set \<Rightarrow> u32 \<Rightarrow> u32 \<Rightarrow> u32 list \<Rightarrow> 'a lg_scheme \<Rightarrow> bool" where
  "txn p H st sz B s \<longleftrightarrow> log_inv p H st sz B (set B) s \<and> 1 \<le> sint (outstanding (log_st s))"

text \<open>What an operation leaves alone: everything outside the cache and the log, and the locked buffers.\<close>

definition fs_step :: "nat set \<Rightarrow> 'a lg_scheme \<Rightarrow> 'a lg_scheme \<Rightarrow> bool" where
  "fs_step H s s' \<longleftrightarrow> lg_step s s' \<and> (\<forall>k\<in>H. bufs s' ! k = bufs s ! k)"

lemma fs_step_refl [simp]: "fs_step H s s"
  by (simp add: fs_step_def)

lemma fs_step_trans: "fs_step H s t \<Longrightarrow> fs_step H t u \<Longrightarrow> fs_step H s u"
  by (auto simp: fs_step_def intro: lg_step_trans)

lemma fs_step_mono: "fs_step H s t \<Longrightarrow> H' \<subseteq> H \<Longrightarrow> fs_step H' s t"
  by (auto simp: fs_step_def)

lemma fs_step_same:
  fixes s :: "'a lg_scheme"
  shows "bio_same H s s' \<Longrightarrow> fs_step H s s'"
  by (auto simp: fs_step_def bio_same_def intro: lg_step_bio)

lemma lg_more_fs: "lg.more s' = lg.more s \<Longrightarrow> fs_sb s' = fs_sb s \<and> icache s' = icache s \<and> fs.more s' = fs.more s"
  by (cases s, cases s') simp

lemma fs_step_frame:
  assumes "fs_step H s s'"
  shows "fs_sb s' = fs_sb (s :: 'a fs_scheme)" "icache s' = icache s" "fs.more s' = fs.more s" "disksize s' = disksize s" "mem s' = mem s"
    "k \<in> H \<Longrightarrow> bufs s' ! k = bufs s ! k"
  using assms lg_step_frame [of s s'] lg_more_fs [of s' s] by (auto simp: fs_step_def)

lemma fs_step_held: "fs_step H s s' \<Longrightarrow> held_blks H s' = held_blks H s"
  by (auto simp: fs_step_def held_blks_def)

lemma txnD:
  assumes "txn p H st sz B s"
  shows "log_inv p H st sz B (set B) s" "cache_ok p H s" "1 \<le> sint (outstanding (log_st s))" "dirty_blks s = set B"
  using assms log_invD(1,6) [of p H st sz B "set B" s] by (simp_all add: txn_def)

lemma txn_same:
  assumes "txn p H st sz B s" "bio_same H0 s s'" "cache_ok p H' s'"
  shows "txn p H' st sz B s'"
  using assms log_inv_frame [of p H st sz B "set B" s s' H' "set B"] bio_sameD [OF assms(2)] txnD [OF assms(1)]
  by (simp add: txn_def)

lemma bview_len:
  assumes "cache_ok p H s" "blk < disksize s"
  shows "length (bview s blk) = BSIZE"
proof (cases "\<exists>i. buf_is s i blk")
  case True
  then obtain i where i: "buf_is s i blk" by blast
  then show ?thesis using bview_buf [OF assms(1) i] cache_okD(8) [OF assms(1), of i] by (simp add: buf_is_def)
next
  case False
  then show ?thesis using bview_disk [OF assms(1)] cache_okD(13) [OF assms] by simp
qed

lemma txn_room:
  assumes "txn p H st sz B s" "card H + length B < NBUF"
  shows "card H + card (dirty_blks s) < NBUF"
  using txnD(4) [OF assms(1)] card_length [of B] assms(2) by simp

text \<open>Reading a block and releasing it.\<close>

lemma read_release:
  assumes g: "good_world w" and ok: "cache_ok p H s" and blk: "blk < disksize s" "blk \<notin> held_blks H s"
    and room: "blk \<in> dirty_blks s \<or> card H + card (dirty_blks s) < NBUF"
  obtains bp s1 s2 where "bread w 1 blk s = Ok (bp, s1)" "b_data (bufs s1 ! bp) = bview s blk" "bio_same H s s1"
    "brelse bp s1 = Ok s2" "cache_ok p H s2" "bio_same H s s2"
proof -
  obtain bp s1 where r: "bread w 1 blk s = Ok (bp, s1)" "bp \<notin> H" "cache_ok p (insert bp H) s1" "buf_is s1 bp blk"
    "b_data (bufs s1 ! bp) = bview s blk" "bio_same H s s1"
    using bread_w [OF g ok blk room] by metis
  note same = bio_sameD [OF r(6)]
  have cl: "blk \<in> dirty_blks s1 \<or> bview s1 blk = disk s1 1 blk"
    using bview_clean [OF ok _ blk(2)] same by auto
  have H: "insert bp H - {bp} = H" using r(2) by auto
  obtain s2 where x: "brelse bp s1 = Ok s2" "cache_ok p H s2" "bio_same H s1 s2"
    using brelse_spec [OF r(3) _ r(4) cl] unfolding H by auto
  have "bio_same H s s2"
    using same bio_sameD [OF x(3)] bio_step_trans by (auto simp: bio_same_def)
  then show thesis using that r x by blast
qed

text \<open>The common idiom: read a block, change it, log it, release it.\<close>

lemma logged_update:
  fixes s :: "'a lg_scheme"
  assumes g: "good_world w" and t: "txn p H st sz B s" and blk: "blk < disksize s" "blk \<notin> held_blks H s" "blk \<notin> log_area st sz"
    and room: "card H + length B < NBUF" "Suc (length B) < unat sz"
  obtains bp s1 where "bread w 1 blk s = Ok (bp, s1)" "b_data (bufs s1 ! bp) = bview s blk" "bio_same H s s1"
    "\<And>d. length d = BSIZE \<Longrightarrow> \<exists>s2 s3 B'. log_write bp (set_data bp d s1) = Ok s2 \<and> brelse bp s2 = Ok s3
      \<and> txn p H st sz B' s3 \<and> set B' = insert blk (set B) \<and> length B' \<le> Suc (length B)
      \<and> bview s3 = (bview s)(blk := d) \<and> fs_step H s s3 \<and> fs_step H s s2"
proof -
  note ok = txnD(2) [OF t]
  obtain bp s1 where r: "bread w 1 blk s = Ok (bp, s1)" "bp \<notin> H" "cache_ok p (insert bp H) s1" "buf_is s1 bp blk"
    "b_data (bufs s1 ! bp) = bview s blk" "bio_same H s s1"
    using bread_w [OF g ok blk(1,2)] txn_room [OF t room(1)] by metis
  note same = bio_sameD [OF r(6)]
  have t1: "txn p (insert bp H) st sz B s1" by (rule txn_same [OF t r(6,3)])
  have H: "insert bp H - {bp} = H" using r(2) by auto
  have "\<exists>s2 s3 B'. log_write bp (set_data bp d s1) = Ok s2 \<and> brelse bp s2 = Ok s3
      \<and> txn p H st sz B' s3 \<and> set B' = insert blk (set B) \<and> length B' \<le> Suc (length B)
      \<and> bview s3 = (bview s)(blk := d) \<and> fs_step H s s3 \<and> fs_step H s s2" if d: "length d = BSIZE" for d
  proof -
    let ?u = "set_data bp d s1"
    note sd = set_data_spec [OF r(3) _ r(4) d, folded set_data_def, simplified]
    have step_u: "bio_step s1 ?u" unfolding set_data_def by (rule bio_step_upd)
    have bu: "buf_is ?u bp blk" using sd(4) r(4) by blast
    have inv_u: "log_inv p (insert bp H) st sz B (set B) ?u"
      using log_inv_frame [OF txnD(1) [OF t1] step_u sd(1)] sd(3) txnD(4) [OF t1] by simp
    have out_u: "1 \<le> sint (outstanding (log_st ?u))" using txnD(3) [OF t1] bio_step_log [OF step_u] by simp
    let ?B = "if blk \<in> set B then B else B @ [blk]"
    obtain s2 h where s2: "log_write bp ?u = Ok s2" "log_inv p (insert bp H) st sz ?B (set ?B) s2"
      "s2 = ?u\<lparr>thiscpu := settled ?u, bufs := (bufs ?u)[bp := (bufs ?u ! bp)\<lparr>b_flags := B_VALID OR B_DIRTY\<rparr>],
         log_st := (log_st ?u)\<lparr>lh := h\<rparr>\<rparr>" "bview s2 = bview ?u" "\<And>k x. buf_is s2 k x = buf_is ?u k x"
      using log_write_spec [OF inv_u _ bu blk(3) room(2) out_u] by (metis insertI1)
    have d2: "blk \<in> dirty_blks s2" using log_invD(6) [OF s2(2)] by auto
    have b2: "buf_is s2 bp blk" using s2(5) bu by blast
    obtain s3 where s3: "brelse bp s2 = Ok s3" "cache_ok p H s3" "bio_same H s2 s3"
      using brelse_spec [OF log_invD(1) [OF s2(2)] _ b2] d2 unfolding H by auto
    note same3 = bio_sameD [OF s3(3)]
    have inv3: "log_inv p H st sz ?B (set ?B) s3"
      using log_inv_frame [OF s2(2) same3(1) s3(2)] same3(5) log_invD(6) [OF s2(2)] by simp
    have ls: "outstanding (log_st s2) = outstanding (log_st ?u)" by (subst s2(3)) simp
    have t3: "txn p H st sz ?B s3" using inv3 out_u ls bio_step_log [OF same3(1)] by (simp add: txn_def)
    have u2: "lg_step ?u s2"
      by (rule lg_stepI [where P = "procs ?u" and L = "sleeplocks ?u" and R = "lru ?u" and D = "disk ?u" and W = "dwrites ?u"],
          subst s2(3)) simp_all
    have lg2: "lg_step s s2"
      using lg_step_trans [OF lg_step_trans [OF lg_step_bio [OF same(1)] lg_step_bio [OF step_u]] u2] .
    have k2: "bufs s2 ! k = bufs s ! k" if "k \<in> H" for k
    proof -
      have ne: "bp \<noteq> k" using that r(2) by auto
      have "bufs s2 ! k = bufs ?u ! k" by (subst s2(3)) (simp add: ne)
      moreover have "bufs ?u ! k = bufs s1 ! k" by (simp add: set_data_def ne)
      ultimately show ?thesis using same(7) [OF that] by simp
    qed
    have f2: "fs_step H s s2" using lg2 k2 by (simp add: fs_step_def)
    have f3: "fs_step H s s3" using fs_step_trans [OF f2 fs_step_same [OF s3(3)]] .
    have v: "bview s3 = (bview s)(blk := d)" using same3(2) s2(4) sd(2) same(2) by simp
    have "set ?B = insert blk (set B)" "length ?B \<le> Suc (length B)" by auto
    then show ?thesis using s2(1) s3(1) t3 v f3 f2 by blast
  qed
  then show thesis using that r by blast
qed

section \<open>The free bitmap\<close>

definition blk_used :: "'a fs_scheme \<Rightarrow> u32 \<Rightarrow> bool" where
  "blk_used s b \<longleftrightarrow> \<not> block_free (bview s (BBLOCK b (fs_sb s))) (unat b mod BPB)"

definition free_blks :: "'a fs_scheme \<Rightarrow> u32 set" where
  "free_blks s = {b. b < sb_size (fs_sb s) \<and> \<not> blk_used s b}"

text \<open>The bitmap and the blocks it hands out lie on the disk, apart from each other and from the log.\<close>

definition bitmap_ok :: "u32 \<Rightarrow> u32 \<Rightarrow> 'a fs_scheme \<Rightarrow> bool" where
  "bitmap_ok st sz s \<longleftrightarrow> sb_size (fs_sb s) \<le> disksize s \<and> free_blks s \<inter> log_area st sz = {}
     \<and> (\<forall>b < sb_size (fs_sb s). BBLOCK b (fs_sb s) < disksize s \<and> BBLOCK b (fs_sb s) \<notin> log_area st sz
          \<and> BBLOCK b (fs_sb s) \<notin> free_blks s)"

lemma block_free_bit: "block_free d bi \<longleftrightarrow> \<not> bit (d ! (bi div 8)) (bi mod 8)"
  by (simp add: block_free_def push_bit_of_1 and_exp_eq_0_iff_not_bit)

lemma div_mod_8: "(i :: nat) = j \<longleftrightarrow> i div 8 = j div 8 \<and> i mod 8 = j mod 8"
  by (metis div_mult_mod_eq)

lemma block_free_mark:
  assumes "length d = BSIZE" "i < BPB"
  shows "block_free (mark_used d i) j \<longleftrightarrow> j \<noteq> i \<and> block_free d j" "block_free (mark_free d i) j \<longleftrightarrow> j = i \<or> block_free d j"
    "length (mark_used d i) = BSIZE" "length (mark_free d i) = BSIZE"
proof -
  have l: "i div 8 < length d" "i mod 8 < 8" "j mod 8 < 8" using assms by (simp_all add: BPB_def less_mult_imp_div_less)
  show "block_free (mark_used d i) j \<longleftrightarrow> j \<noteq> i \<and> block_free d j" "block_free (mark_free d i) j \<longleftrightarrow> j = i \<or> block_free d j"
    using l div_mod_8 [of j i]
    by (cases "j div 8 = i div 8"; auto simp: block_free_bit mark_used_def mark_free_def bit_simps push_bit_of_1)+
  show "length (mark_used d i) = BSIZE" "length (mark_free d i) = BSIZE" using assms by (simp_all add: mark_used_def mark_free_def)
qed

lemma unat_of_nat_u32: "n < 4294967296 \<Longrightarrow> unat (of_nat n :: u32) = n"
  by (simp add: unat_of_nat take_bit_nat_eq_self)

lemma BBLOCK_eq:
  assumes "unat b div BPB = unat c div BPB"
  shows "BBLOCK b sb = BBLOCK c sb"
proof -
  have "unat (x div of_nat BPB) = unat x div BPB" for x :: u32 by (simp add: unat_div unat_of_nat_u32 BPB_def BSIZE_def)
  then have "b div of_nat BPB = c div of_nat BPB" using assms by (metis word_unat_eq_iff)
  then show ?thesis by (simp add: BBLOCK_def)
qed

lemma bzero_spec:
  fixes s :: "'a lg_scheme"
  assumes g: "good_world w" and t: "txn p H st sz B s" and blk: "blk < disksize s" "blk \<notin> held_blks H s" "blk \<notin> log_area st sz"
    and room: "card H + length B < NBUF" "Suc (length B) < unat sz"
  obtains s' B' where "bzero w 1 blk s = Ok s'" "txn p H st sz B' s'" "set B' = insert blk (set B)" "length B' \<le> Suc (length B)"
    "bview s' = (bview s)(blk := replicate BSIZE 0)" "fs_step H s s'"
proof -
  obtain bp s1 where r: "bread w 1 blk s = Ok (bp, s1)"
    "\<exists>s2 s3 B'. log_write bp (set_data bp (replicate BSIZE 0) s1) = Ok s2 \<and> brelse bp s2 = Ok s3
      \<and> txn p H st sz B' s3 \<and> set B' = insert blk (set B) \<and> length B' \<le> Suc (length B)
      \<and> bview s3 = (bview s)(blk := replicate BSIZE 0) \<and> fs_step H s s3"
    using logged_update [OF g t blk room] by (metis length_replicate)
  then show thesis using that by (auto simp: bzero_def)
qed

text \<open>Preconditions of the allocator: room in the log for the bitmap block and the zeroed block.\<close>

definition can_alloc :: "nat \<Rightarrow> nat set \<Rightarrow> u32 \<Rightarrow> u32 \<Rightarrow> u32 list \<Rightarrow> 'a fs_scheme \<Rightarrow> bool" where
  "can_alloc p H st sz B s \<longleftrightarrow> txn p H st sz B s \<and> bitmap_ok st sz s
     \<and> (\<forall>b < sb_size (fs_sb s). BBLOCK b (fs_sb s) \<notin> held_blks H s) \<and> free_blks s \<inter> held_blks H s = {}
     \<and> card H + Suc (length B) < NBUF \<and> Suc (Suc (length B)) < unat sz"

lemma can_alloc_same:
  assumes "can_alloc p H st sz B s" "bio_same H s s'" "cache_ok p H s'"
  shows "can_alloc p H st sz B s'" "free_blks s' = free_blks s"
proof -
  have t: "txn p H st sz B s" using assms(1) by (simp add: can_alloc_def)
  note fr = fs_step_frame [OF fs_step_same [OF assms(2)]] and v = bio_sameD(2) [OF assms(2)]
  show f: "free_blks s' = free_blks s" by (simp add: free_blks_def blk_used_def fr v)
  show "can_alloc p H st sz B s'"
    using assms(1) txn_same [OF t assms(2,3)] fs_step_held [OF fs_step_same [OF assms(2)]]
    by (simp add: can_alloc_def bitmap_ok_def f fr)
qed

definition after_balloc :: "'a fs_scheme \<Rightarrow> u32 \<Rightarrow> u32 \<Rightarrow> block" where
  "after_balloc s a = (bview s)(BBLOCK a (fs_sb s) := mark_used (bview s (BBLOCK a (fs_sb s))) (unat a mod BPB), a := replicate BSIZE 0)"

text \<open>The bitmap block that covers blocks \<open>b\<close> to \<open>b + BPB - 1\<close> has a free bit: the first one is taken.\<close>

lemma balloc_take:
  assumes g: "good_world w" and c: "can_alloc p H st sz B s" and b: "b < unat (sb_size (fs_sb s))" "BPB dvd b"
    and bi: "find (block_free (bview s (BBLOCK (of_nat b) (fs_sb s)))) [0..<min BPB (unat (sb_size (fs_sb s)) - b)] = Some bi"
  defines "a \<equiv> of_nat (b + bi) :: u32"
  obtains s' B' where "balloc_from w 1 b s = Ok (a, s')" "a \<in> free_blks s" "txn p H st sz B' s'" "length B' \<le> length B + 2"
    "set B' = set B \<union> {BBLOCK a (fs_sb s), a}" "bview s' = after_balloc s a" "fs_step H s s'" "unat a = b + bi"
    "\<And>j. j < bi \<Longrightarrow> blk_used s (of_nat (b + j))"
proof -
  let ?sb = "fs_sb s"
  let ?k = "BBLOCK (of_nat b) ?sb"
  let ?d = "bview s ?k"
  have lim: "unat (sb_size ?sb) < 4294967296" using unsigned_less [of "sb_size ?sb", where ?'a = nat] by simp
  from bi have x: "bi < BPB" "b + bi < unat (sb_size ?sb)" "block_free ?d bi" "\<And>j. j < bi \<Longrightarrow> \<not> block_free ?d j"
    by (auto simp: find_Some_iff)
  have ua: "unat (of_nat (b + j) :: u32) = b + j" if "j \<le> bi" for j using that x(2) lim by (intro unat_of_nat_u32) simp
  have ub: "unat (of_nat b :: u32) = b" using ua [of 0] by simp
  have same: "BBLOCK (of_nat (b + j)) ?sb = ?k" "unat (of_nat (b + j) :: u32) mod BPB = j" if "j \<le> bi" for j
  proof -
    have "(b + j) div BPB = b div BPB" "(b + j) mod BPB = j"
      using that x(1) b(2) by (auto simp: elim!: dvdE)
    then show "BBLOCK (of_nat (b + j)) ?sb = ?k" "unat (of_nat (b + j) :: u32) mod BPB = j"
      using ua [OF that] ub by (auto intro!: BBLOCK_eq)
  qed
  have aS: "unat a = b + bi" "BBLOCK a ?sb = ?k" "unat a mod BPB = bi" using ua same by (simp_all add: a_def)
  have used: "blk_used s (of_nat (b + j))" if "j < bi" for j
    using x(4) [OF that] same [of j] that by (simp add: blk_used_def)
  have free: "a \<in> free_blks s" using x(2,3) aS by (simp add: free_blks_def blk_used_def word_less_nat_alt)
  have C: "txn p H st sz B s" "bitmap_ok st sz s" "?k \<notin> held_blks H s" "a \<notin> held_blks H s" "card H + Suc (length B) < NBUF"
    "Suc (Suc (length B)) < unat sz"
    using c free b(1) ub by (auto simp: can_alloc_def word_less_nat_alt)
  have K: "?k < disksize s" "?k \<notin> log_area st sz" "a < disksize s" "a \<notin> log_area st sz" "?k \<noteq> a"
    using C(2) free b(1) ub by (auto simp: bitmap_ok_def word_less_nat_alt word_le_nat_alt free_blks_def)
  obtain bp s1 where r: "bread w 1 ?k s = Ok (bp, s1)" "b_data (bufs s1 ! bp) = ?d" "bio_same H s s1"
    "\<And>d. length d = BSIZE \<Longrightarrow> \<exists>s2 s3 B'. log_write bp (set_data bp d s1) = Ok s2 \<and> brelse bp s2 = Ok s3
      \<and> txn p H st sz B' s3 \<and> set B' = insert ?k (set B) \<and> length B' \<le> Suc (length B)
      \<and> bview s3 = (bview s)(?k := d) \<and> fs_step H s s3"
    using logged_update [OF g C(1) K(1) C(3) K(2)] C(5,6) by (metis Suc_lessD add_Suc_right)
  have ld: "length ?d = BSIZE" by (rule bview_len [OF txnD(2) [OF C(1)] K(1)])
  let ?m = "mark_used ?d bi"
  obtain s2 s3 B3 where m: "log_write bp (set_data bp ?m s1) = Ok s2" "brelse bp s2 = Ok s3" "txn p H st sz B3 s3"
    "set B3 = insert ?k (set B)" "length B3 \<le> Suc (length B)" "bview s3 = (bview s)(?k := ?m)" "fs_step H s s3"
    using r(4) [OF block_free_mark(3) [OF ld x(1)]] by blast
  note fr = fs_step_frame [OF m(7)]
  obtain s4 B4 where z: "bzero w 1 a s3 = Ok s4" "txn p H st sz B4 s4" "set B4 = insert a (set B3)" "length B4 \<le> Suc (length B3)"
    "bview s4 = (bview s3)(a := replicate BSIZE 0)" "fs_step H s3 s4"
    using bzero_spec [OF g m(3), of a] K(3,4) C(4-6) fr(4) fs_step_held [OF m(7)] m(5) by auto
  have run: "balloc_from w 1 b s = Ok (a, s4)"
    using b(1) r(1,2) bi m(1,2) z(1) fs_step_frame(1) [OF fs_step_same [OF r(3)]]
    by (subst balloc_from.simps) (simp add: a_def)
  show thesis
    using that [OF run free z(2) _ _ _ fs_step_trans [OF m(7) z(6)] aS(1) used] m z aS by (auto simp: after_balloc_def)
qed

lemma balloc_from_spec:
  assumes g: "good_world w"
  shows "can_alloc p H st sz B s \<Longrightarrow> f \<in> free_blks s \<Longrightarrow> BPB dvd b \<Longrightarrow> (\<And>c. c \<in> free_blks s \<Longrightarrow> b \<le> unat c) \<Longrightarrow>
    \<exists>a s' B'. balloc_from w 1 b s = Ok (a, s') \<and> a \<in> free_blks s \<and> (\<forall>c\<in>free_blks s. a \<le> c)
      \<and> txn p H st sz B' s' \<and> length B' \<le> length B + 2 \<and> set B' = set B \<union> {BBLOCK a (fs_sb s), a}
      \<and> bview s' = after_balloc s a \<and> fs_step H s s'"
proof (induction "unat (sb_size (fs_sb s)) - b" arbitrary: s b rule: less_induct)
  case less
  let ?sb = "fs_sb s"
  let ?k = "BBLOCK (of_nat b) ?sb"
  let ?N = "min BPB (unat (sb_size ?sb) - b)"
  have f: "unat f < unat (sb_size ?sb)" "b \<le> unat f" using less.prems(2,4) by (auto simp: free_blks_def word_less_nat_alt)
  have lim: "unat (sb_size ?sb) < 4294967296" using unsigned_less [of "sb_size ?sb", where ?'a = nat] by simp
  have b: "b < unat (sb_size ?sb)" using f by simp
  have ub: "unat (of_nat b :: u32) = b" using b lim by (intro unat_of_nat_u32) simp
  show ?case
  proof (cases "find (block_free (bview s ?k)) [0..<?N]")
    case (Some bi)
    define a where "a = (of_nat (b + bi) :: u32)"
    obtain s' B' where s': "balloc_from w 1 b s = Ok (a, s')" "a \<in> free_blks s" "txn p H st sz B' s'" "length B' \<le> length B + 2"
      "set B' = set B \<union> {BBLOCK a ?sb, a}" "bview s' = after_balloc s a" "fs_step H s s'" "unat a = b + bi"
      "\<And>j. j < bi \<Longrightarrow> blk_used s (of_nat (b + j))"
      using balloc_take [OF g less.prems(1) b less.prems(3) Some] unfolding a_def by metis
    have "a \<le> c" if c: "c \<in> free_blks s" for c
    proof (rule ccontr)
      assume "\<not> a \<le> c"
      then have "unat c - b < bi" "b \<le> unat c" using less.prems(4) [OF c] s'(8) by (auto simp: word_le_nat_alt)
      then have "blk_used s (of_nat (b + (unat c - b)))" using s'(9) by blast
      then have "blk_used s c" using \<open>b \<le> unat c\<close> by simp
      then show False using c by (simp add: free_blks_def)
    qed
    then show ?thesis using s'(1-7) by blast
  next
    case None
    have t: "txn p H st sz B s" and k: "?k < disksize s" "?k \<notin> held_blks H s" and room: "card H + length B < NBUF"
      using less.prems(1) b ub by (auto simp: can_alloc_def bitmap_ok_def word_less_nat_alt)
    obtain bp s1 s2 where r: "bread w 1 ?k s = Ok (bp, s1)" "b_data (bufs s1 ! bp) = bview s ?k" "bio_same H s s1"
      "brelse bp s1 = Ok s2" "cache_ok p H s2" "bio_same H s s2"
      using read_release [OF g txnD(2) [OF t] k] txn_room [OF t room] by metis
    note fr = fs_step_frame [OF fs_step_same [OF r(6)]] and c2 = can_alloc_same [OF less.prems(1) r(6,5)]
    have step: "b + BPB \<le> unat c" if c: "c \<in> free_blks s" for c
    proof (rule ccontr)
      assume "\<not> b + BPB \<le> unat c"
      then have j: "unat c - b < BPB" "b \<le> unat c" using less.prems(4) [OF c] by auto
      have "unat c div BPB = b div BPB" "unat c mod BPB = unat c - b"
        using j less.prems(3) by (auto elim!: dvdE simp: div_nat_eqI mod_nat_eqI)
      then have "BBLOCK c ?sb = ?k" "unat c mod BPB = unat c - b" using ub by (auto intro: BBLOCK_eq)
      moreover have "\<not> block_free (bview s ?k) (unat c - b)"
        using None j c by (auto simp: find_None_iff free_blks_def word_less_nat_alt)
      ultimately show False using c by (simp add: free_blks_def blk_used_def)
    qed
    have smaller: "unat (sb_size (fs_sb s2)) - (b + BPB) < unat (sb_size ?sb) - b" using b fr(1) by (simp add: BPB_def BSIZE_def)
    have eq: "balloc_from w 1 b s = balloc_from w 1 (b + BPB) s2"
      using b r(1,2,4) None fs_step_frame(1) [OF fs_step_same [OF r(3)]] by (subst balloc_from.simps) simp
    have ab: "after_balloc s2 = after_balloc s" using bio_sameD(2) [OF r(6)] fr(1) by (simp add: after_balloc_def fun_eq_iff)
    obtain a s' B' where s': "balloc_from w 1 (b + BPB) s2 = Ok (a, s')" "a \<in> free_blks s2" "\<forall>c\<in>free_blks s2. a \<le> c"
      "txn p H st sz B' s'" "length B' \<le> length B + 2" "set B' = set B \<union> {BBLOCK a (fs_sb s2), a}"
      "bview s' = after_balloc s2 a" "fs_step H s2 s'"
      using less.hyps [OF smaller c2(1)] less.prems(2,3) step unfolding c2(2) by auto
    then show ?thesis
      using eq ab c2(2) fr(1) fs_step_trans [OF fs_step_same [OF r(6)] s'(8)] by auto
  qed
qed

lemma BBLOCK_inj: "BBLOCK b sb = BBLOCK c sb \<Longrightarrow> unat b mod BPB = unat c mod BPB \<Longrightarrow> b = c"
proof -
  assume a: "BBLOCK b sb = BBLOCK c sb" "unat b mod BPB = unat c mod BPB"
  have "unat (x div of_nat BPB) = unat x div BPB" for x :: u32 by (simp add: unat_div unat_of_nat_u32 BPB_def BSIZE_def)
  then have "unat b div BPB = unat c div BPB" using a(1) by (metis BBLOCK_def add_right_cancel)
  then show "b = c" using a(2) by (metis div_mult_mod_eq word_unat_eq_iff)
qed

text \<open>Changing one bit of the bitmap, and any block that holds none of it.\<close>

lemma free_blks_update:
  assumes "fs_sb s' = fs_sb s" and v: "\<And>c. c < sb_size (fs_sb s) \<Longrightarrow> BBLOCK c (fs_sb s) \<noteq> BBLOCK a (fs_sb s) \<Longrightarrow>
      bview s' (BBLOCK c (fs_sb s)) = bview s (BBLOCK c (fs_sb s))"
    and m: "\<And>j. block_free (bview s' (BBLOCK a (fs_sb s))) j \<longleftrightarrow> (if j = unat a mod BPB then fr else block_free (bview s (BBLOCK a (fs_sb s))) j)"
    and a: "a < sb_size (fs_sb s)"
  shows "free_blks s' = (if fr then insert a (free_blks s) else free_blks s - {a})"
proof -
  have "c \<in> free_blks s' \<longleftrightarrow> (if c = a then fr else c \<in> free_blks s)" if c: "c < sb_size (fs_sb s)" for c
  proof (cases "BBLOCK c (fs_sb s) = BBLOCK a (fs_sb s)")
    case True
    then have "unat c mod BPB = unat a mod BPB \<longleftrightarrow> c = a" using BBLOCK_inj by blast
    then show ?thesis using m c True assms(1) by (auto simp: free_blks_def blk_used_def)
  next
    case False
    then have "c \<noteq> a" by auto
    then show ?thesis using v [OF c False] c assms(1) by (simp add: free_blks_def blk_used_def)
  qed
  moreover have "free_blks s' \<subseteq> {c. c < sb_size (fs_sb s)}" "free_blks s \<subseteq> {c. c < sb_size (fs_sb s)}"
    using assms(1) by (auto simp: free_blks_def)
  ultimately show ?thesis using a by (auto split: if_splits)
qed

lemma free_blks_balloc:
  assumes ok: "bitmap_ok st sz s" "cache_ok p H s" and a: "a \<in> free_blks s" and s': "fs_sb s' = fs_sb s" "bview s' = after_balloc s a"
  shows "free_blks s' = free_blks s - {a}"
proof -
  have b: "a < sb_size (fs_sb s)" "BBLOCK c (fs_sb s) \<noteq> a" if "c < sb_size (fs_sb s)" for c
    using ok(1) a that by (auto simp: bitmap_ok_def free_blks_def)
  have a': "a < sb_size (fs_sb s)" using a by (simp add: free_blks_def)
  have len: "length (bview s (BBLOCK a (fs_sb s))) = BSIZE" using ok(1) a' by (intro bview_len [OF ok(2)]) (simp add: bitmap_ok_def)
  have k: "BBLOCK a (fs_sb s) \<noteq> a" using b(2) a' by blast
  have "free_blks s' = (if False then insert a (free_blks s) else free_blks s - {a})"
  proof (rule free_blks_update [OF s'(1)])
    show "bview s' (BBLOCK c (fs_sb s)) = bview s (BBLOCK c (fs_sb s))" if "c < sb_size (fs_sb s)" "BBLOCK c (fs_sb s) \<noteq> BBLOCK a (fs_sb s)" for c
      using that b(2) [OF that(1)] by (simp add: s'(2) after_balloc_def)
    show "block_free (bview s' (BBLOCK a (fs_sb s))) j \<longleftrightarrow> (if j = unat a mod BPB then False else block_free (bview s (BBLOCK a (fs_sb s))) j)" for j
      using k block_free_mark(1) [OF len, of "unat a mod BPB" j] by (simp add: s'(2) after_balloc_def BPB_def BSIZE_def)
  qed (rule a')
  then show ?thesis by simp
qed

lemma bfree_spec:
  assumes g: "good_world w" and t: "txn p H st sz B s" and bm: "bitmap_ok st sz s" and b: "b < sb_size (fs_sb s)"
    and h: "BBLOCK b (fs_sb s) \<notin> held_blks H s" and room: "card H + length B < NBUF" "Suc (length B) < unat sz"
  shows "b \<in> free_blks s \<Longrightarrow> bfree w 1 b s = Panic ''freeing free block''"
    "b \<notin> free_blks s \<Longrightarrow> \<exists>s' B'. bfree w 1 b s = Ok s' \<and> txn p H st sz B' s' \<and> length B' \<le> Suc (length B)
       \<and> set B' = insert (BBLOCK b (fs_sb s)) (set B) \<and> free_blks s' = insert b (free_blks s)
       \<and> bview s' = (bview s)(BBLOCK b (fs_sb s) := mark_free (bview s (BBLOCK b (fs_sb s))) (unat b mod BPB)) \<and> fs_step H s s'"
proof -
  let ?k = "BBLOCK b (fs_sb s)" and ?i = "unat b mod BPB"
  let ?d = "bview s ?k"
  have k: "?k < disksize s" "?k \<notin> log_area st sz" using bm b by (simp_all add: bitmap_ok_def)
  have i: "?i < BPB" by (simp add: BPB_def BSIZE_def)
  have len: "length ?d = BSIZE" by (rule bview_len [OF txnD(2) [OF t] k(1)])
  obtain bp s1 where r: "bread w 1 ?k s = Ok (bp, s1)" "b_data (bufs s1 ! bp) = ?d" "bio_same H s s1"
    "\<And>d. length d = BSIZE \<Longrightarrow> \<exists>s2 s3 B'. log_write bp (set_data bp d s1) = Ok s2 \<and> brelse bp s2 = Ok s3
      \<and> txn p H st sz B' s3 \<and> set B' = insert ?k (set B) \<and> length B' \<le> Suc (length B)
      \<and> bview s3 = (bview s)(?k := d) \<and> fs_step H s s3"
    using logged_update [OF g t k(1) h k(2) room] by metis
  have u: "b \<in> free_blks s \<longleftrightarrow> block_free ?d ?i" using b by (simp add: free_blks_def blk_used_def)
  show "bfree w 1 b s = Panic ''freeing free block''" if "b \<in> free_blks s"
    using that u r(1,2) by (simp add: bfree_def)
  show "\<exists>s' B'. bfree w 1 b s = Ok s' \<and> txn p H st sz B' s' \<and> length B' \<le> Suc (length B)
       \<and> set B' = insert ?k (set B) \<and> free_blks s' = insert b (free_blks s)
       \<and> bview s' = (bview s)(?k := mark_free ?d ?i) \<and> fs_step H s s'" if nf: "b \<notin> free_blks s"
  proof -
    let ?m = "mark_free ?d ?i"
    obtain s2 s3 B' where m: "log_write bp (set_data bp ?m s1) = Ok s2" "brelse bp s2 = Ok s3" "txn p H st sz B' s3"
      "set B' = insert ?k (set B)" "length B' \<le> Suc (length B)" "bview s3 = (bview s)(?k := ?m)" "fs_step H s s3"
      using r(4) [OF block_free_mark(4) [OF len i]] by blast
    have run: "bfree w 1 b s = Ok s3" using nf u r(1,2) m(1,2) by (simp add: bfree_def)
    have "free_blks s3 = (if True then insert b (free_blks s) else free_blks s - {b})"
      using m(6) block_free_mark(2) [OF len i] b
      by (intro free_blks_update [OF fs_step_frame(1) [OF m(7)]]) auto
    then show ?thesis using run m by auto
  qed
qed

section \<open>Properties\<close>

text \<open>
  C35. Inside a transaction with room in the log, \<open>balloc\<close> takes the lowest free block, marks it in
  the bitmap and zeroes it, changing no other block; \<open>bfree\<close> of that block makes the free blocks
  what they were, and freeing a block that is free panics.
\<close>

theorem balloc_bfree:
  fixes s :: "'a fs_scheme"
  assumes g: "good_world w" and c: "can_alloc p {} st sz B s" and room: "length B + 3 < unat sz" and ne: "free_blks s \<noteq> {}"
  shows "\<exists>a s1 s2. balloc w 1 s = Ok (a, s1) \<and> a \<in> free_blks s \<and> (\<forall>c\<in>free_blks s. a \<le> c)
    \<and> bview s1 a = replicate BSIZE 0 \<and> free_blks s1 = free_blks s - {a}
    \<and> (\<forall>x. x \<noteq> a \<and> x \<noteq> BBLOCK a (fs_sb s) \<longrightarrow> bview s1 x = bview s x)
    \<and> bfree w 1 a s1 = Ok s2 \<and> free_blks s2 = free_blks s
    \<and> (\<forall>x\<in>free_blks s. bfree w 1 x s = Panic ''freeing free block'')"
proof -
  obtain f where "f \<in> free_blks s" using ne by blast
  then obtain a s1 B1 where a: "balloc w 1 s = Ok (a, s1)" "a \<in> free_blks s" "\<forall>c\<in>free_blks s. a \<le> c" "txn p {} st sz B1 s1"
    "length B1 \<le> length B + 2" "bview s1 = after_balloc s a" "fs_step {} s s1"
    using balloc_from_spec [OF g c, of f 0] by (auto simp: balloc_def)
  have t: "txn p {} st sz B s" and bm: "bitmap_ok st sz s" using c by (auto simp: can_alloc_def)
  note fr = fs_step_frame [OF a(7)]
  have f1: "free_blks s1 = free_blks s - {a}" by (rule free_blks_balloc [OF bm txnD(2) [OF t] a(2) fr(1) a(6)])
  have bm1: "bitmap_ok st sz s1" using bm f1 fr by (auto simp: bitmap_ok_def)
  have as: "a < sb_size (fs_sb s1)" "a \<notin> free_blks s1" using a(2) f1 fr by (auto simp: free_blks_def)
  have sz: "unat sz \<le> NBUF" using txnD(1) [OF t] by (simp add: log_inv_def LOGSIZE_def MAXOPBLOCKS_def NBUF_def)
  obtain s2 where s2: "bfree w 1 a s1 = Ok s2" "free_blks s2 = insert a (free_blks s1)"
    using bfree_spec(2) [OF g a(4) bm1 as(1) _ _ _ as(2)] a(5) room sz by auto
  have dbl: "bfree w 1 x s = Panic ''freeing free block''" if "x \<in> free_blks s" for x
    using bfree_spec(1) [OF g t bm _ _ _ _ that] that room sz by (simp add: free_blks_def)
  have ba: "BBLOCK a (fs_sb s) \<noteq> a" using bm a(2) by (auto simp: bitmap_ok_def free_blks_def)
  have "bview s1 a = replicate BSIZE 0" "\<forall>x. x \<noteq> a \<and> x \<noteq> BBLOCK a (fs_sb s) \<longrightarrow> bview s1 x = bview s x"
    using a(6) ba by (simp_all add: after_balloc_def)
  moreover have "free_blks s2 = free_blks s" using s2(2) f1 a(2) by auto
  ultimately show ?thesis using a(1-3) f1 s2(1) dbl by blast
qed

section \<open>An example\<close>

text \<open>
  The layout \<^verbatim>\<open>mkfs\<close> gives a file system of 1000 blocks: log from block 2, inodes from 32, bitmap in
  block 58. The root directory (inode 1) has its entries in block 59; the blocks from 60 on are free.
\<close>

definition bitmap_example :: block where
  "bitmap_example = replicate 7 255 @ 15 # replicate 504 0"

definition root_dinode :: "u8 list" where
  "root_dinode = [1, 0, 0, 0, 0, 0, 1, 0, 32, 0, 0, 0, 59, 0, 0, 0] @ replicate 48 0"

definition inodes_example :: block where
  "inodes_example = replicate 64 0 @ root_dinode @ replicate 384 0"

definition root_example :: block where
  "root_example = [1, 0, 46] @ replicate 13 0 @ [1, 0, 46, 46] @ replicate 12 0 @ replicate 480 0"

definition sb_example :: superblock where
  "sb_example = \<lparr>sb_size = 1000, sb_nblocks = 941, sb_ninodes = 200, sb_nlog = 30, sb_logstart = 2, sb_inodestart = 32, sb_bmapstart = 58\<rparr>"

definition inode_zero :: inode where
  "inode_zero = \<lparr>i_dev = 0, i_inum = 0, i_ref = 0, i_valid = False, i_type = 0, i_major = 0, i_minor = 0, i_nlink = 0, i_size = 0,
     i_addrs = replicate 13 0\<rparr>"

definition disk_example :: "u32 \<Rightarrow> block" where
  "disk_example b = (if b = 58 then bitmap_example else if b = 32 then inodes_example else if b = 59 then root_example else replicate BSIZE 0)"

definition lg_example :: lg where
  "lg_example = boot_example\<lparr>disk := (\<lambda>_. disk_example), log_st := (log_st boot_example)\<lparr>outstanding := 1\<rparr>\<rparr>"

definition fs_example :: fs where
  "fs_example = lg.extend lg_example \<lparr>fs_sb = sb_example, icache = replicate NINODE inode_zero\<rparr>"

definition fs_world :: "fs world" where
  "fs_world = \<lparr>w_fuel = 1, w_env = (\<lambda>s. s), w_iderw = memide_iderw\<rparr>"

lemma fs_world_good: "good_world fs_world"
  by (simp add: good_world_def fs_world_def memide.disk_driver_axioms)

lemma lg_extend_ok: "cache_ok p H (lg.extend s m) = cache_ok p H s" "dirty_blks (lg.extend s m) = dirty_blks s" "bview (lg.extend s m) = bview s"
  unfolding cache_ok_def in_proc_def wf_cpu_def buf_is_def dirty_blks_def dirty_bufs_def bview_def
  by (simp_all add: lg.defs fun_eq_iff split: option.split)

lemma disk_example_len: "length (disk_example b) = BSIZE"
  by (simp add: disk_example_def bitmap_example_def inodes_example_def root_dinode_def root_example_def BSIZE_def)

lemma lg_example_ok: "cache_ok 1 {} lg_example" "dirty_blks lg_example = {}" "bview lg_example = disk_example"
proof -
  have b: "i < NBUF \<Longrightarrow> b_flags (bufs boot_example ! i) = 0" for i
    by (simp add: boot_example_def bio.defs bio_example_def slk.defs)
  have o: "cache_ok 1 {} boot_example" "dirty_blks boot_example = {}" using boot_example_booted by (simp_all add: log_booted_def)
  have s: "bufs lg_example = bufs boot_example" "lru lg_example = lru boot_example" "sleeplocks lg_example = sleeplocks boot_example"
    "disksize lg_example = disksize boot_example" "disk lg_example = (\<lambda>_. disk_example)"
    "procs lg_example = procs boot_example" "buf_is lg_example = buf_is boot_example"
    by (simp_all add: lg_example_def buf_is_def fun_eq_iff)
  have ip: "in_proc 1 lg_example" using cache_okD(1) [OF o(1)] by (simp add: lg_example_def in_proc_def wf_cpu_def)
  show ok: "cache_ok 1 {} lg_example"
    by (rule cache_okI) (use ip cache_okD [OF o(1)] b disk_example_len in \<open>simp_all add: s\<close>)
  show "dirty_blks lg_example = {}" using b by (simp add: dirty_blks_def dirty_bufs_def s)
  then show "bview lg_example = disk_example" using bview_clean [OF ok] s(5) by (simp add: fun_eq_iff)
qed

lemma fs_example_txn: "txn 1 {} 2 30 [] fs_example"
proof -
  have l: "log_st fs_example = (log_st boot_example)\<lparr>outstanding := 1\<rparr>" "disksize fs_example = 1000"
    by (simp_all add: fs_example_def lg.defs lg_example_def boot_example_def bio.defs bio_example_def slk.defs)
  have c: "cache_ok 1 {} fs_example" "dirty_blks fs_example = {}"
    using lg_example_ok lg_extend_ok by (simp_all add: fs_example_def lg_extend_ok)
  show ?thesis
    unfolding txn_def log_inv_def using c l by (simp add: boot_example_def bio.defs LOGSIZE_def MAXOPBLOCKS_def blocks_ok_def)
qed

lemma fs_example_sel: "bview fs_example = disk_example" "fs_sb fs_example = sb_example" "disksize fs_example = 1000"
  "icache fs_example = replicate NINODE inode_zero"
  using lg_example_ok
  by (simp_all add: fs_example_def lg_extend_ok)
    (simp_all add: lg.defs lg_example_def boot_example_def bio.defs bio_example_def slk.defs)

lemma bitmap_example_free: "i < 1000 \<Longrightarrow> block_free bitmap_example i \<longleftrightarrow> 60 \<le> i"
proof -
  assume i: "i < 1000"
  have f: "(255 :: u8) = - 1" "(15 :: u8) = mask 4" by (simp_all add: mask_eq_exp_minus_1)
  consider "i div 8 < 7" | "i div 8 = 7" | "7 < i div 8" by linarith
  then show ?thesis
  proof cases
    case 1
    then show ?thesis by (simp add: block_free_bit bitmap_example_def nth_append f)
  next
    case 2
    then have "i = 56 + i mod 8" by (metis div_mult_mod_eq mult.commute numeral_times_numeral semiring_norm(13,14,15,16) mult_numeral_1 num_double)
    then show ?thesis using 2 by (auto simp: block_free_bit bitmap_example_def nth_append f bit_simps)
  next
    case 3
    then show ?thesis using i by (auto simp: block_free_bit bitmap_example_def nth_append nth_Cons')
  qed
qed

lemma sb_example_blk: "unat b < 1000 \<Longrightarrow> BBLOCK b sb_example = 58" "unat b < 1000 \<Longrightarrow> unat b mod BPB = unat b"
  "sb_size sb_example = 1000"
  using BBLOCK_eq [of b 0 sb_example] by (simp_all add: BBLOCK_def sb_example_def BPB_def BSIZE_def)

lemma fs_example_free: "free_blks fs_example = {b. 60 \<le> unat b \<and> unat b < 1000}"
proof -
  have "blk_used fs_example b \<longleftrightarrow> unat b < 60" if "unat b < 1000" for b
    unfolding blk_used_def fs_example_sel sb_example_blk(1,2) [OF that]
    using bitmap_example_free [OF that] by (simp add: disk_example_def not_le)
  then show ?thesis by (auto simp: free_blks_def fs_example_sel sb_example_blk(3) word_less_nat_alt not_less)
qed

lemma fs_example_bitmap: "bitmap_ok 2 30 fs_example" "can_alloc 1 {} 2 30 [] fs_example"
proof -
  show "bitmap_ok 2 30 fs_example"
    by (auto simp: bitmap_ok_def fs_example_free fs_example_sel log_area_def word_less_nat_alt word_le_nat_alt sb_example_blk)
  then show "can_alloc 1 {} 2 30 [] fs_example"
    using fs_example_txn by (simp add: can_alloc_def NBUF_def)
qed

theorem balloc_bfree_witness: "\<exists>s1. balloc fs_world 1 fs_example = Ok (60, s1) \<and> free_blks s1 = {b. 61 \<le> unat b \<and> unat b < 1000}"
proof -
  have f: "(60 :: u32) \<in> free_blks fs_example" by (simp add: fs_example_free)
  then have ne: "free_blks fs_example \<noteq> {}" by blast
  have room: "length ([] :: u32 list) + 3 < unat (30 :: u32)" by simp
  obtain a s1 where a: "balloc fs_world 1 fs_example = Ok (a, s1)" "a \<in> free_blks fs_example" "\<forall>c\<in>free_blks fs_example. a \<le> c"
    "free_blks s1 = free_blks fs_example - {a}"
    using balloc_bfree [OF fs_world_good fs_example_bitmap(2) room ne] by blast
  from f have "a \<le> 60" "60 \<le> unat a" using a(2,3) by (auto simp: fs_example_free)
  then have "a = 60" by (simp add: word_le_nat_alt word_unat_eq_iff)
  moreover have "{b :: u32. 60 \<le> unat b \<and> unat b < 1000} - {60} = {b. 61 \<le> unat b \<and> unat b < 1000}" (is "?l = ?r")
  proof (rule set_eqI)
    fix b :: u32
    have "b = 60 \<longleftrightarrow> unat b = 60" by (simp add: word_unat_eq_iff)
    then have "60 \<le> unat b \<and> b \<noteq> 60 \<longleftrightarrow> 61 \<le> unat b" by linarith
    then show "b \<in> ?l \<longleftrightarrow> b \<in> ?r" by auto
  qed
  ultimately show ?thesis using a(1,4) fs_example_free by simp
qed

end
