(* ===== verification/Inode.thy ===== *)
theory Inode
  imports Balloc Proc_List
begin

text \<open>
  The inode layer of \<^verbatim>\<open>fs.c\<close>: the inode cache, inodes on disk, the map from file offsets to disk
  blocks, and reading and writing file contents. An inode pointer is an index into \<^verbatim>\<open>icache.inode\<close>
  and a null pointer is \<open>None\<close>.

  Data is moved between a caller's buffer and the file as a list of bytes: \<open>readi\<close> returns the
  bytes it copies to \<^verbatim>\<open>dst\<close>, \<open>writei\<close> takes the bytes at \<^verbatim>\<open>src\<close>. The device switch \<^verbatim>\<open>devsw\<close> is part of
  the parameter \<open>w\<close>: for a major number the device's read and write functions, if registered.
\<close>

section \<open>Definitions\<close>

record 's fsworld = "'s world" +
  dev_read :: "u16 \<Rightarrow> (nat \<Rightarrow> u32 \<Rightarrow> 's \<Rightarrow> ((u32 \<times> u8 list) \<times> 's) res) option"
  dev_write :: "u16 \<Rightarrow> (nat \<Rightarrow> u8 list \<Rightarrow> u32 \<Rightarrow> 's \<Rightarrow> (u32 \<times> 's) res) option"

definition NDEV :: int where "NDEV = 10"
definition ROOTDEV :: u32 where "ROOTDEV = 1"
definition ROOTINO :: u32 where "ROOTINO = 1"
definition T_DIR :: u16 where "T_DIR = 1"
definition T_FILE :: u16 where "T_FILE = 2"
definition T_DEV :: u16 where "T_DEV = 3"

definition DINODE_SIZE :: nat where "DINODE_SIZE = 64"
definition IPB :: nat where "IPB = BSIZE div DINODE_SIZE"

definition IBLOCK :: "u32 \<Rightarrow> superblock \<Rightarrow> u32" where
  "IBLOCK i sb = i div of_nat IPB + sb_inodestart sb"

definition dinode_off :: "u32 \<Rightarrow> nat" where
  "dinode_off inum = unat inum mod IPB * DINODE_SIZE"

record stat =
  st_type :: u16
  st_dev :: u32
  st_ino :: u32
  st_nlink :: u16
  st_size :: u32

definition splice :: "u8 list \<Rightarrow> nat \<Rightarrow> u8 list \<Rightarrow> u8 list" where
  "splice d i x = take i d @ x @ drop (i + length x) d"

definition upd_inode :: "nat \<Rightarrow> (inode \<Rightarrow> inode) \<Rightarrow> 'a fs_scheme \<Rightarrow> 'a fs_scheme" where
  "upd_inode ip f s = s\<lparr>icache := (icache s)[ip := f (icache s ! ip)]\<rparr>"

subsection \<open>The inode cache\<close>

primrec iinit_locks :: "nat \<Rightarrow> 'a slk_scheme \<Rightarrow> 'a slk_scheme" where
  "iinit_locks 0 s = s"
| "iinit_locks (Suc n) s = initsleeplock (INODE_SLEEP n) (iinit_locks n s)"

definition iinit :: "('a fs_scheme, 'w) world_scheme \<Rightarrow> u32 \<Rightarrow> 'a fs_scheme \<Rightarrow> 'a fs_scheme res" where
  "iinit w dev s =
     andThen (readsb w dev (iinit_locks NINODE (initlock ICACHE_LOCK s))) (\<lambda>(sb, s).
       let s = s\<lparr>fs_sb := sb\<rparr> in
       cprintf (''sb: size %d nblocks %d ninodes %d nlog %d logstart %d inodestart %d bmap start %d'' @ [CHR 0x0A])
         [ANum (sb_size sb), ANum (sb_nblocks sb), ANum (sb_ninodes sb), ANum (sb_nlog sb), ANum (sb_logstart sb),
          ANum (sb_inodestart sb), ANum (sb_bmapstart sb)] s)"

definition iget :: "u32 \<Rightarrow> u32 \<Rightarrow> 'a fs_scheme \<Rightarrow> (nat \<times> 'a fs_scheme) res" where
  "iget dev inum s =
     andThen (acquire ICACHE_LOCK s) (\<lambda>s.
       case find_idx (\<lambda>ip. 0 < sint (i_ref ip) \<and> i_dev ip = dev \<and> i_inum ip = inum) (icache s) of
         Some i \<Rightarrow>
           andThen (release ICACHE_LOCK (upd_inode i (\<lambda>ip. ip\<lparr>i_ref := i_ref ip + 1\<rparr>) s)) (\<lambda>s. Ok (i, s))
       | None \<Rightarrow>
           (case find_idx (\<lambda>ip. i_ref ip = 0) (icache s) of
              None \<Rightarrow> Panic ''iget: no inodes''
            | Some i \<Rightarrow>
                andThen (release ICACHE_LOCK (upd_inode i
                  (\<lambda>ip. ip\<lparr>i_dev := dev, i_inum := inum, i_ref := 1, i_valid := False\<rparr>) s)) (\<lambda>s. Ok (i, s))))"

definition idup :: "nat \<Rightarrow> 'a fs_scheme \<Rightarrow> (nat \<times> 'a fs_scheme) res" where
  "idup i s =
     andThen (acquire ICACHE_LOCK s) (\<lambda>s.
     andThen (release ICACHE_LOCK (upd_inode i (\<lambda>ip. ip\<lparr>i_ref := i_ref ip + 1\<rparr>) s)) (\<lambda>s. Ok (i, s)))"

function ialloc_from :: "('a fs_scheme, 'w) world_scheme \<Rightarrow> u32 \<Rightarrow> u16 \<Rightarrow> nat \<Rightarrow> 'a fs_scheme \<Rightarrow> (nat \<times> 'a fs_scheme) res" where
  "ialloc_from w dev ty inum s =
     (if inum < unat (sb_ninodes (fs_sb s)) then
        andThen (bread w dev (IBLOCK (of_nat inum) (fs_sb s)) s) (\<lambda>(bp, s).
          let d = b_data (bufs s ! bp); off = dinode_off (of_nat inum) in
          if get16 d off = 0 then
            andThen (log_write bp (set_data bp (put16 (splice d off (replicate DINODE_SIZE 0)) off ty) s)) (\<lambda>s.
            andThen (brelse bp s) (iget dev (of_nat inum)))
          else andThen (brelse bp s) (\<lambda>s. ialloc_from w dev ty (Suc inum) s))
      else Panic ''ialloc: no inodes'')"
  by pat_completeness auto
termination
proof (relation "measure (\<lambda>(w, dev, ty, inum, s). 4294967296 - inum)", goal_cases)
  case (2 w dev ty inum s)
  then show ?case using unsigned_less [of "sb_ninodes (fs_sb s)", where ?'a = nat] by simp
qed simp

declare ialloc_from.simps [simp del]

definition ialloc :: "('a fs_scheme, 'w) world_scheme \<Rightarrow> u32 \<Rightarrow> u16 \<Rightarrow> 'a fs_scheme \<Rightarrow> (nat \<times> 'a fs_scheme) res" where
  "ialloc w dev ty s = ialloc_from w dev ty 1 s"

definition put_dinode :: "inode \<Rightarrow> nat \<Rightarrow> block \<Rightarrow> block" where
  "put_dinode ip off d =
     put32s (put32 (put16 (put16 (put16 (put16 d off (i_type ip)) (off + 2) (i_major ip)) (off + 4) (i_minor ip)) (off + 6) (i_nlink ip))
       (off + 8) (i_size ip)) (off + 12) (i_addrs ip)"

definition get_dinode :: "block \<Rightarrow> nat \<Rightarrow> inode \<Rightarrow> inode" where
  "get_dinode d off ip = ip\<lparr>i_type := get16 d off, i_major := get16 d (off + 2), i_minor := get16 d (off + 4),
     i_nlink := get16 d (off + 6), i_size := get32 d (off + 8), i_addrs := get32s d (off + 12) (NDIRECT + 1)\<rparr>"

definition iupdate :: "('a fs_scheme, 'w) world_scheme \<Rightarrow> nat \<Rightarrow> 'a fs_scheme \<Rightarrow> 'a fs_scheme res" where
  "iupdate w i s =
     (let ip = icache s ! i in
      andThen (bread w (i_dev ip) (IBLOCK (i_inum ip) (fs_sb s)) s) (\<lambda>(bp, s).
        let ip = icache s ! i in
        andThen (log_write bp (set_data bp (put_dinode ip (dinode_off (i_inum ip)) (b_data (bufs s ! bp))) s)) (brelse bp)))"

definition ilock :: "('a fs_scheme, 'w) world_scheme \<Rightarrow> nat option \<Rightarrow> 'a fs_scheme \<Rightarrow> 'a fs_scheme res" where
  "ilock w p s =
     (case p of
        None \<Rightarrow> Panic ''ilock''
      | Some i \<Rightarrow>
          if sint (i_ref (icache s ! i)) < 1 then Panic ''ilock''
          else
            andThen (acquiresleep (w_fuel w) (w_env w) (INODE_SLEEP i) s) (\<lambda>s.
              if i_valid (icache s ! i) then Ok s
              else
                andThen (bread w (i_dev (icache s ! i)) (IBLOCK (i_inum (icache s ! i)) (fs_sb s)) s) (\<lambda>(bp, s).
                let s = upd_inode i (get_dinode (b_data (bufs s ! bp)) (dinode_off (i_inum (icache s ! i)))) s in
                andThen (brelse bp s) (\<lambda>s.
                let s = upd_inode i (\<lambda>ip. ip\<lparr>i_valid := True\<rparr>) s in
                if i_type (icache s ! i) = 0 then Panic ''ilock: no type'' else Ok s))))"

definition iunlock :: "nat option \<Rightarrow> 'a fs_scheme \<Rightarrow> 'a fs_scheme res" where
  "iunlock p s =
     (case p of
        None \<Rightarrow> Panic ''iunlock''
      | Some i \<Rightarrow>
          andThen (holdingsleep (INODE_SLEEP i) s) (\<lambda>(h, s).
            if \<not> h \<or> sint (i_ref (icache s ! i)) < 1 then Panic ''iunlock''
            else releasesleep (INODE_SLEEP i) s))"

subsection \<open>Contents\<close>

definition bmap :: "('a fs_scheme, 'w) world_scheme \<Rightarrow> nat \<Rightarrow> u32 \<Rightarrow> 'a fs_scheme \<Rightarrow> (u32 \<times> 'a fs_scheme) res" where
  "bmap w i bn s =
     (if bn < of_nat NDIRECT then
        let addr = i_addrs (icache s ! i) ! unat bn in
        if addr = 0 then
          andThen (balloc w (i_dev (icache s ! i)) s) (\<lambda>(addr, s).
          Ok (addr, upd_inode i (\<lambda>ip. ip\<lparr>i_addrs := (i_addrs ip)[unat bn := addr]\<rparr>) s))
        else Ok (addr, s)
      else
        let bn = bn - of_nat NDIRECT in
        if bn < of_nat NINDIRECT then
          andThen
            (let addr = i_addrs (icache s ! i) ! NDIRECT in
             if addr = 0 then
               andThen (balloc w (i_dev (icache s ! i)) s) (\<lambda>(addr, s).
               Ok (addr, upd_inode i (\<lambda>ip. ip\<lparr>i_addrs := (i_addrs ip)[NDIRECT := addr]\<rparr>) s))
             else Ok (addr, s)) (\<lambda>(addr, s).
          andThen (bread w (i_dev (icache s ! i)) addr s) (\<lambda>(bp, s).
          andThen
            (let addr = get32 (b_data (bufs s ! bp)) (4 * unat bn) in
             if addr = 0 then
               andThen (balloc w (i_dev (icache s ! i)) s) (\<lambda>(addr, s).
               andThen (log_write bp (set_data bp (put32 (b_data (bufs s ! bp)) (4 * unat bn) addr) s)) (\<lambda>s. Ok (addr, s)))
             else Ok (addr, s)) (\<lambda>(addr, s).
          andThen (brelse bp s) (\<lambda>s. Ok (addr, s)))))
        else Panic ''bmap: out of range'')"

primrec itrunc_direct :: "('a fs_scheme, 'w) world_scheme \<Rightarrow> nat \<Rightarrow> nat list \<Rightarrow> 'a fs_scheme \<Rightarrow> 'a fs_scheme res" where
  "itrunc_direct w i [] s = Ok s"
| "itrunc_direct w i (k # ks) s =
     andThen
       (if i_addrs (icache s ! i) ! k \<noteq> 0
        then andThen (bfree w (i_dev (icache s ! i)) (i_addrs (icache s ! i) ! k) s) (\<lambda>s.
               Ok (upd_inode i (\<lambda>ip. ip\<lparr>i_addrs := (i_addrs ip)[k := 0]\<rparr>) s))
        else Ok s) (itrunc_direct w i ks)"

primrec itrunc_indirect :: "('a fs_scheme, 'w) world_scheme \<Rightarrow> nat \<Rightarrow> nat \<Rightarrow> nat list \<Rightarrow> 'a fs_scheme \<Rightarrow> 'a fs_scheme res" where
  "itrunc_indirect w i bp [] s = Ok s"
| "itrunc_indirect w i bp (j # js) s =
     andThen
       (let a = get32 (b_data (bufs s ! bp)) (4 * j) in
        if a \<noteq> 0 then bfree w (i_dev (icache s ! i)) a s else Ok s) (itrunc_indirect w i bp js)"

definition itrunc :: "('a fs_scheme, 'w) world_scheme \<Rightarrow> nat \<Rightarrow> 'a fs_scheme \<Rightarrow> 'a fs_scheme res" where
  "itrunc w i s =
     andThen (itrunc_direct w i [0..<NDIRECT] s) (\<lambda>s.
     andThen
       (if i_addrs (icache s ! i) ! NDIRECT \<noteq> 0 then
          andThen (bread w (i_dev (icache s ! i)) (i_addrs (icache s ! i) ! NDIRECT) s) (\<lambda>(bp, s).
          andThen (itrunc_indirect w i bp [0..<NINDIRECT] s) (\<lambda>s.
          andThen (brelse bp s) (\<lambda>s.
          andThen (bfree w (i_dev (icache s ! i)) (i_addrs (icache s ! i) ! NDIRECT) s) (\<lambda>s.
          Ok (upd_inode i (\<lambda>ip. ip\<lparr>i_addrs := (i_addrs ip)[NDIRECT := 0]\<rparr>) s)))))
        else Ok s) (\<lambda>s.
     iupdate w i (upd_inode i (\<lambda>ip. ip\<lparr>i_size := 0\<rparr>) s)))"

definition iput :: "('a fs_scheme, 'w) world_scheme \<Rightarrow> nat \<Rightarrow> 'a fs_scheme \<Rightarrow> 'a fs_scheme res" where
  "iput w i s =
     andThen (acquiresleep (w_fuel w) (w_env w) (INODE_SLEEP i) s) (\<lambda>s.
     andThen
       (if i_valid (icache s ! i) \<and> i_nlink (icache s ! i) = 0 then
          andThen (acquire ICACHE_LOCK s) (\<lambda>s.
            let r = i_ref (icache s ! i) in
            andThen (release ICACHE_LOCK s) (\<lambda>s.
            if r = 1 then
              andThen (itrunc w i s) (\<lambda>s.
              andThen (iupdate w i (upd_inode i (\<lambda>ip. ip\<lparr>i_type := 0\<rparr>) s)) (\<lambda>s.
              Ok (upd_inode i (\<lambda>ip. ip\<lparr>i_valid := False\<rparr>) s)))
            else Ok s))
        else Ok s) (\<lambda>s.
     andThen (releasesleep (INODE_SLEEP i) s) (\<lambda>s.
     andThen (acquire ICACHE_LOCK s) (\<lambda>s.
     release ICACHE_LOCK (upd_inode i (\<lambda>ip. ip\<lparr>i_ref := i_ref ip - 1\<rparr>) s)))))"

definition iunlockput :: "('a fs_scheme, 'w) world_scheme \<Rightarrow> nat \<Rightarrow> 'a fs_scheme \<Rightarrow> 'a fs_scheme res" where
  "iunlockput w i s = andThen (iunlock (Some i) s) (iput w i)"

definition stati :: "nat \<Rightarrow> 'a fs_scheme \<Rightarrow> stat" where
  "stati i s = (let ip = icache s ! i in
     \<lparr>st_type = i_type ip, st_dev = i_dev ip, st_ino = i_inum ip, st_nlink = i_nlink ip, st_size = i_size ip\<rparr>)"

text \<open>\<open>left\<close> is \<^verbatim>\<open>n - tot\<close>, the number of bytes still to copy.\<close>

function readi_loop :: "('a fs_scheme, 'w) world_scheme \<Rightarrow> nat \<Rightarrow> u32 \<Rightarrow> nat \<Rightarrow> 'a fs_scheme \<Rightarrow> (u8 list \<times> 'a fs_scheme) res" where
  "readi_loop w i off left s =
     (if left = 0 then Ok ([], s)
      else
        andThen (bmap w i (off div of_nat BSIZE) s) (\<lambda>(addr, s).
        andThen (bread w (i_dev (icache s ! i)) addr s) (\<lambda>(bp, s).
        let o' = unat off mod BSIZE;
            m = min left (BSIZE - o');
            bytes = take m (drop o' (b_data (bufs s ! bp))) in
        andThen (brelse bp s) (\<lambda>s.
        andThen (readi_loop w i (off + of_nat m) (left - m) s) (\<lambda>(rest, s). Ok (bytes @ rest, s))))))"
  by pat_completeness auto
termination
  by (relation "measure (\<lambda>(w, i, off, left, s). left)") (auto simp: BSIZE_def min_def)

declare readi_loop.simps [simp del]

definition readi :: "('a fs_scheme, 'w) fsworld_scheme \<Rightarrow> nat \<Rightarrow> u32 \<Rightarrow> u32 \<Rightarrow> 'a fs_scheme \<Rightarrow> ((u32 \<times> u8 list) \<times> 'a fs_scheme) res" where
  "readi w i off n s =
     (let ip = icache s ! i in
      if i_type ip = T_DEV then
        (if sint (i_major ip) < 0 \<or> sint (i_major ip) \<ge> NDEV then Ok ((- 1, []), s)
         else case dev_read w (i_major ip) of None \<Rightarrow> Ok ((- 1, []), s) | Some f \<Rightarrow> f i n s)
      else if off > i_size ip \<or> off + n < off then Ok ((- 1, []), s)
      else
        let n = (if off + n > i_size ip then i_size ip - off else n) in
        andThen (readi_loop w i off (unat n) s) (\<lambda>(bytes, s). Ok ((n, bytes), s)))"

function writei_loop :: "('a fs_scheme, 'w) world_scheme \<Rightarrow> nat \<Rightarrow> u8 list \<Rightarrow> u32 \<Rightarrow> nat \<Rightarrow> 'a fs_scheme \<Rightarrow> (u32 \<times> 'a fs_scheme) res" where
  "writei_loop w i src off left s =
     (if left = 0 then Ok (off, s)
      else
        andThen (bmap w i (off div of_nat BSIZE) s) (\<lambda>(addr, s).
        andThen (bread w (i_dev (icache s ! i)) addr s) (\<lambda>(bp, s).
        let o' = unat off mod BSIZE;
            m = min left (BSIZE - o') in
        andThen (log_write bp (set_data bp (splice (b_data (bufs s ! bp)) o' (take m src)) s)) (\<lambda>s.
        andThen (brelse bp s) (\<lambda>s.
        writei_loop w i (drop m src) (off + of_nat m) (left - m) s)))))"
  by pat_completeness auto
termination
  by (relation "measure (\<lambda>(w, i, src, off, left, s). left)") (auto simp: BSIZE_def min_def)

declare writei_loop.simps [simp del]

definition writei :: "('a fs_scheme, 'w) fsworld_scheme \<Rightarrow> nat \<Rightarrow> u8 list \<Rightarrow> u32 \<Rightarrow> u32 \<Rightarrow> 'a fs_scheme \<Rightarrow> (u32 \<times> 'a fs_scheme) res" where
  "writei w i src off n s =
     (let ip = icache s ! i in
      if i_type ip = T_DEV then
        (if sint (i_major ip) < 0 \<or> sint (i_major ip) \<ge> NDEV then Ok (- 1, s)
         else case dev_write w (i_major ip) of None \<Rightarrow> Ok (- 1, s) | Some f \<Rightarrow> f i src n s)
      else if off > i_size ip \<or> off + n < off then Ok (- 1, s)
      else if off + n > of_nat (MAXFILE * BSIZE) then Ok (- 1, s)
      else
        andThen (writei_loop w i src off (unat n) s) (\<lambda>(off, s).
        andThen
          (if n > 0 \<and> off > i_size (icache s ! i)
           then iupdate w i (upd_inode i (\<lambda>ip. ip\<lparr>i_size := off\<rparr>) s) else Ok s) (\<lambda>s.
        Ok (n, s))))"

section \<open>The inode cache as a table of references\<close>

definition icache_ok :: "'a fs_scheme \<Rightarrow> bool" where
  "icache_ok s \<longleftrightarrow> length (icache s) = NINODE
     \<and> (\<forall>i<NINODE. 0 \<le> sint (i_ref (icache s ! i)))
     \<and> (\<forall>i<NINODE. \<forall>j<NINODE. 0 < sint (i_ref (icache s ! i)) \<and> 0 < sint (i_ref (icache s ! j))
         \<and> i_dev (icache s ! i) = i_dev (icache s ! j) \<and> i_inum (icache s ! i) = i_inum (icache s ! j) \<longrightarrow> i = j)"

text \<open>The entry that \<open>iget\<close> chooses and what it becomes.\<close>

definition icache_hit :: "u32 \<Rightarrow> u32 \<Rightarrow> inode \<Rightarrow> bool" where
  "icache_hit dev inum ip \<longleftrightarrow> 0 < sint (i_ref ip) \<and> i_dev ip = dev \<and> i_inum ip = inum"

definition iget_slot :: "u32 \<Rightarrow> u32 \<Rightarrow> inode list \<Rightarrow> (nat \<times> inode) option" where
  "iget_slot dev inum tab =
     (case find_idx (icache_hit dev inum) tab of
        Some i \<Rightarrow> Some (i, (tab ! i)\<lparr>i_ref := i_ref (tab ! i) + 1\<rparr>)
      | None \<Rightarrow>
          (case find_idx (\<lambda>ip. i_ref ip = 0) tab of
             None \<Rightarrow> None
           | Some i \<Rightarrow> Some (i, (tab ! i)\<lparr>i_dev := dev, i_inum := inum, i_ref := 1, i_valid := False\<rparr>)))"

lemma upd_inode_sel [simp]:
  "thiscpu (upd_inode i f s) = thiscpu s" "fl_if (upd_inode i f s) = fl_if s" "held (upd_inode i f s) = held s"
  "icache (upd_inode i f s) = (icache s)[i := f (icache s ! i)]"
  by (simp_all add: upd_inode_def)

lemma icache_section:
  fixes s :: "'a fs_scheme"
  assumes "wf_cpu s" "\<not> held s ICACHE_LOCK"
  shows "acquire ICACHE_LOCK s = Ok (s\<lparr>fl_if := False, thiscpu := cpu_push (fl_if s) (thiscpu s), held := (held s)(ICACHE_LOCK := True)\<rparr>)"
    "release ICACHE_LOCK (upd_inode i f (s\<lparr>fl_if := False, thiscpu := cpu_push (fl_if s) (thiscpu s), held := (held s)(ICACHE_LOCK := True)\<rparr>))
      = Ok ((upd_inode i f s)\<lparr>thiscpu := settled s\<rparr>)"
proof -
  show "acquire ICACHE_LOCK s = Ok (s\<lparr>fl_if := False, thiscpu := cpu_push (fl_if s) (thiscpu s), held := (held s)(ICACHE_LOCK := True)\<rparr>)"
    using assms by (simp add: acquire_eq)
  have "ncli (cpu_push (fl_if s) (thiscpu s)) = 1 \<and> intena (cpu_push (fl_if s) (thiscpu s)) \<longleftrightarrow> fl_if s"
    using assms(1) by (auto simp: wf_cpu_def cpu_push_def)
  then show "release ICACHE_LOCK (upd_inode i f (s\<lparr>fl_if := False, thiscpu := cpu_push (fl_if s) (thiscpu s), held := (held s)(ICACHE_LOCK := True)\<rparr>))
      = Ok ((upd_inode i f s)\<lparr>thiscpu := settled s\<rparr>)"
    using assms by (subst release_eq) (auto simp: wf_cpu_def upd_inode_def)
qed

lemma iget_eq:
  assumes "wf_cpu s" "\<not> held s ICACHE_LOCK"
  shows "iget dev inum s =
    (case iget_slot dev inum (icache s) of
       None \<Rightarrow> Panic ''iget: no inodes''
     | Some (i, ip) \<Rightarrow> Ok (i, s\<lparr>icache := (icache s)[i := ip], thiscpu := settled s\<rparr>))"
  unfolding iget_def icache_section(1) [OF assms] iget_slot_def
  by (simp add: icache_section(2) [OF assms] icache_hit_def [abs_def] split: option.split) (simp add: upd_inode_def)

lemma iget_slot_spec:
  assumes len: "length tab = NINODE" and slot: "iget_slot dev inum tab = Some (i, ip)"
  shows "i < NINODE" "i_dev ip = dev" "i_inum ip = inum"
    "icache_hit dev inum (tab ! i) \<and> i_ref ip = i_ref (tab ! i) + 1
     \<or> (\<forall>j<NINODE. \<not> icache_hit dev inum (tab ! j)) \<and> i_ref (tab ! i) = 0 \<and> i_ref ip = 1"
proof -
  have "i < NINODE \<and> i_dev ip = dev \<and> i_inum ip = inum \<and> (icache_hit dev inum (tab ! i) \<and> i_ref ip = i_ref (tab ! i) + 1
     \<or> (\<forall>j<NINODE. \<not> icache_hit dev inum (tab ! j)) \<and> i_ref (tab ! i) = 0 \<and> i_ref ip = 1)"
  proof (cases "find_idx (icache_hit dev inum) tab")
    case None
    then have "\<forall>j<NINODE. \<not> icache_hit dev inum (tab ! j)" using len find_idx_None_iff by (metis nth_mem)
    then show ?thesis using slot None len by (auto simp: iget_slot_def dest: find_idx_SomeD split: option.splits)
  next
    case (Some j)
    then show ?thesis using slot len find_idx_SomeD [OF Some] by (auto simp: iget_slot_def icache_hit_def)
  qed
  then show "i < NINODE" "i_dev ip = dev" "i_inum ip = inum"
    "icache_hit dev inum (tab ! i) \<and> i_ref ip = i_ref (tab ! i) + 1
     \<or> (\<forall>j<NINODE. \<not> icache_hit dev inum (tab ! j)) \<and> i_ref (tab ! i) = 0 \<and> i_ref ip = 1" by blast+
qed


lemma sint_succ: "0 \<le> sint (r :: u32) \<Longrightarrow> sint r < 2147483647 \<Longrightarrow> sint (r + 1) = sint r + 1"
proof -
  assume a: "0 \<le> sint r" "sint r < 2147483647"
  have i: "int (unat r) = sint r" using sint_nonneg_unat a(1) by blast
  then have "unat r < 2147483647" using a(2) by linarith
  then have n: "unat (r + 1) = unat r + 1" by (subst unat_add_lem [THEN iffD1]) auto
  have ge: "- 2147483648 \<le> sint (r + 1)" using sint_ge [of "r + 1"] by simp
  show ?thesis
  proof (cases "r + 1" rule: sint_u32_cases)
    case 1
    then show ?thesis using n i by linarith
  next
    case 2
    then show ?thesis using n i ge a(2) by linarith
  qed
qed

text \<open>A table stays a table of distinct references when one entry becomes a reference no other entry is.\<close>

lemma icache_ok_upd:
  fixes s :: "'a fs_scheme"
  assumes ok: "icache_ok s" and i: "i < NINODE" and r: "0 \<le> sint (i_ref ip)"
    and u: "\<And>j. j < NINODE \<Longrightarrow> j \<noteq> i \<Longrightarrow> \<not> icache_hit (i_dev ip) (i_inum ip) (icache s ! j)"
  shows "icache_ok (s\<lparr>icache := (icache s)[i := ip], thiscpu := c\<rparr>)"
proof -
  have l: "length (icache s) = NINODE" and p: "\<And>j. j < NINODE \<Longrightarrow> 0 \<le> sint (i_ref (icache s ! j))"
    and inj: "\<And>j k. j < NINODE \<Longrightarrow> k < NINODE \<Longrightarrow> icache_hit (i_dev (icache s ! j)) (i_inum (icache s ! j)) (icache s ! k)
      \<Longrightarrow> 0 < sint (i_ref (icache s ! j)) \<Longrightarrow> j = k"
    using ok by (auto simp: icache_ok_def icache_hit_def)
  show ?thesis unfolding icache_ok_def using i r l p inj u by (auto simp: nth_list_update icache_hit_def) metis
qed

lemma iget_ok:
  fixes s :: "'a fs_scheme"
  assumes ok: "icache_ok s" and c: "wf_cpu s" "\<not> held s ICACHE_LOCK"
    and few: "\<And>i. i < NINODE \<Longrightarrow> sint (i_ref (icache s ! i)) < 2147483647"
    and slot: "iget_slot dev inum (icache s) = Some (i, ip)"
  obtains s1 where "iget dev inum s = Ok (i, s1)" "icache s1 = (icache s)[i := ip]" "icache_ok s1" "wf_cpu s1" "\<not> held s1 ICACHE_LOCK"
    "icache_hit dev inum ip" "sint (i_ref ip) = (if icache_hit dev inum (icache s ! i) then sint (i_ref (icache s ! i)) + 1 else 1)"
    "i < NINODE"
proof -
  have len: "length (icache s) = NINODE" and pos: "\<And>j. j < NINODE \<Longrightarrow> 0 \<le> sint (i_ref (icache s ! j))"
    using ok by (auto simp: icache_ok_def)
  note sp = iget_slot_spec [OF len slot]
  let ?s = "s\<lparr>icache := (icache s)[i := ip], thiscpu := settled s\<rparr>"
  have ref: "sint (i_ref ip) = (if icache_hit dev inum (icache s ! i) then sint (i_ref (icache s ! i)) + 1 else 1)"
    using sp(1,4) sint_succ [OF pos few] by (auto simp: icache_hit_def)
  have hit: "icache_hit dev inum ip" using ref sp(2,3) pos [OF sp(1)] by (auto simp: icache_hit_def split: if_splits)
  have "icache_ok ?s"
  proof (rule icache_ok_upd [OF ok sp(1)])
    show "0 \<le> sint (i_ref ip)" using hit by (simp add: icache_hit_def)
    show "\<not> icache_hit (i_dev ip) (i_inum ip) (icache s ! j)" if j: "j < NINODE" "j \<noteq> i" for j
      using sp(1-4) j ok by (auto simp: icache_ok_def icache_hit_def)
  qed
  then show ?thesis using that [of ?s] iget_eq [OF c, of dev inum] slot c ref hit sp(1) by (simp add: wf_cpu_def)
qed

text \<open>
  C39. The inode cache holds at most one referenced entry for each inode: \<open>iget\<close> keeps it so, returns an
  entry for the inode that was asked for with one reference more and touches no other entry, asking again
  gives the same entry, and it panics exactly when neither the inode nor a free entry is in the table.
\<close>

theorem iget_shares:
  fixes s :: "'a fs_scheme"
  assumes ok: "icache_ok s" and c: "wf_cpu s" "\<not> held s ICACHE_LOCK"
    and few: "\<forall>i<NINODE. sint (i_ref (icache s ! i)) < 2147483646"
  shows "if \<exists>i<NINODE. icache_hit dev inum (icache s ! i) \<or> i_ref (icache s ! i) = 0
    then \<exists>i s1 s2. iget dev inum s = Ok (i, s1) \<and> i < NINODE \<and> icache_ok s1 \<and> icache_hit dev inum (icache s1 ! i)
      \<and> sint (i_ref (icache s1 ! i)) = (if icache_hit dev inum (icache s ! i) then sint (i_ref (icache s ! i)) + 1 else 1)
      \<and> (\<forall>j. j \<noteq> i \<longrightarrow> icache s1 ! j = icache s ! j) \<and> iget dev inum s1 = Ok (i, s2) \<and> icache_ok s2
    else iget dev inum s = Panic ''iget: no inodes''"
proof -
  have len: "length (icache s) = NINODE" using ok by (simp add: icache_ok_def)
  have ex: "(\<exists>i<NINODE. icache_hit dev inum (icache s ! i) \<or> i_ref (icache s ! i) = 0) \<longleftrightarrow> iget_slot dev inum (icache s) \<noteq> None"
  proof -
    have "iget_slot dev inum (icache s) = None \<longleftrightarrow> find_idx (icache_hit dev inum) (icache s) = None \<and> find_idx (\<lambda>ip. i_ref ip = 0) (icache s) = None"
      by (auto simp: iget_slot_def split: option.splits)
    then have n: "iget_slot dev inum (icache s) = None \<longleftrightarrow>
        (\<forall>i<NINODE. \<not> icache_hit dev inum (icache s ! i)) \<and> (\<forall>i<NINODE. i_ref (icache s ! i) \<noteq> 0)"
      unfolding find_idx_None_iff all_set_conv_all_nth len .
    show ?thesis unfolding n by blast
  qed
  show ?thesis
  proof (cases "iget_slot dev inum (icache s)")
    case None
    then show ?thesis using ex iget_eq [OF c, of dev inum] by simp
  next
    case (Some r)
    obtain i ip where r: "iget_slot dev inum (icache s) = Some (i, ip)" using Some by (cases r) auto
    have few0: "\<And>i. i < NINODE \<Longrightarrow> sint (i_ref (icache s ! i)) < 2147483647" using few by fastforce
    obtain s1 where s1: "iget dev inum s = Ok (i, s1)" "icache s1 = (icache s)[i := ip]" "icache_ok s1" "wf_cpu s1" "\<not> held s1 ICACHE_LOCK"
      "icache_hit dev inum ip" "sint (i_ref ip) = (if icache_hit dev inum (icache s ! i) then sint (i_ref (icache s ! i)) + 1 else 1)" "i < NINODE"
      using iget_ok [OF ok c few0 r] by metis
    have h: "icache_hit dev inum (icache s1 ! i)" using s1(2,6,8) len by simp
    have few1: "sint (i_ref (icache s1 ! j)) < 2147483647" if "j < NINODE" for j
      using few that s1(2,7,8) len by (cases "j = i") (force split: if_splits)+
    have "j = i" if "j < NINODE" "icache_hit dev inum (icache s1 ! j)" for j
      using s1(3,8) h that unfolding icache_ok_def icache_hit_def by metis
    then have "find_idx (icache_hit dev inum) (icache s1) = Some j \<Longrightarrow> j = i" for j
      using find_idx_SomeD [of "icache_hit dev inum" "icache s1" j] s1(2) len by simp
    moreover have "find_idx (icache_hit dev inum) (icache s1) \<noteq> None"
      using h s1(2,8) len unfolding find_idx_None_iff by (metis length_list_update nth_mem)
    ultimately obtain ip2 where "iget_slot dev inum (icache s1) = Some (i, ip2)" by (force simp: iget_slot_def)
    from iget_ok [OF s1(3,4,5) few1 this] obtain s2 where "iget dev inum s1 = Ok (i, s2)" "icache_ok s2" by metis
    then show ?thesis using ex Some s1 h len by auto
  qed
qed


theorem iget_shares_witness:
  "\<exists>i s1 s2. iget 1 1 fs_example = Ok (i, s1) \<and> icache_ok s1 \<and> sint (i_ref (icache s1 ! i)) = 1 \<and> iget 1 1 s1 = Ok (i, s2)"
proof -
  have n: "i < NINODE \<Longrightarrow> icache fs_example ! i = inode_zero" for i by (simp add: fs_example_sel)
  have z: "i_ref inode_zero = 0" "\<not> icache_hit 1 1 inode_zero" by (simp_all add: inode_zero_def icache_hit_def)
  have ok: "icache_ok fs_example" using n by (simp add: icache_ok_def fs_example_sel z)
  have c: "wf_cpu fs_example" "\<not> held fs_example ICACHE_LOCK"
    using cache_okD(1) [OF log_invD(1) [OF txnD(1) [OF fs_example_txn]]] by (auto simp: in_proc_def)
  have few: "\<forall>i<NINODE. sint (i_ref (icache fs_example ! i)) < 2147483646" using n z by simp
  have ex: "\<exists>i<NINODE. icache_hit 1 1 (icache fs_example ! i) \<or> i_ref (icache fs_example ! i) = 0"
    using n [of 0] z by (intro exI [of _ 0]) (simp add: NINODE_def)
  obtain i s1 s2 where i: "iget 1 1 fs_example = Ok (i, s1)" "i < NINODE" "icache_ok s1"
    "sint (i_ref (icache s1 ! i)) = (if icache_hit 1 1 (icache fs_example ! i) then sint (i_ref (icache fs_example ! i)) + 1 else 1)"
    "iget 1 1 s1 = Ok (i, s2)"
    using iget_shares [OF ok c few, of 1 1] ex by auto
  moreover have "\<not> icache_hit 1 1 (icache fs_example ! i)" using n [OF i(2)] z by simp
  ultimately show ?thesis by auto
qed

end
