(* ===== verification/File_Data.thy ===== *)
theory File_Data
  imports Inode
begin

text \<open>
  The contents of a file as a sequence of bytes over the block cache: which disk block holds which part
  of a file, what \<open>readi\<close> returns and what \<open>writei\<close> changes (\<^verbatim>\<open>fs.c\<close>).
\<close>

section \<open>File contents\<close>

text \<open>The disk block of block \<open>bn\<close> of a file, and byte \<open>k\<close> of the file as the block cache shows it.\<close>

definition file_blk :: "'a fs_scheme \<Rightarrow> nat \<Rightarrow> nat \<Rightarrow> u32" where
  "file_blk s i bn =
     (if bn < NDIRECT then i_addrs (icache s ! i) ! bn
      else get32 (bview s (i_addrs (icache s ! i) ! NDIRECT)) (4 * (bn - NDIRECT)))"

definition file_byte :: "'a fs_scheme \<Rightarrow> nat \<Rightarrow> nat \<Rightarrow> u8" where
  "file_byte s i k = bview s (file_blk s i (k div BSIZE)) ! (k mod BSIZE)"

definition file_size :: "'a fs_scheme \<Rightarrow> nat \<Rightarrow> nat" where
  "file_size s i = unat (i_size (icache s ! i))"

text \<open>
  A file whose blocks are all allocated: data blocks are distinct, and neither the log nor the
  indirect block is among them.
\<close>

definition file_ok :: "u32 \<Rightarrow> u32 \<Rightarrow> 'a fs_scheme \<Rightarrow> nat \<Rightarrow> bool" where
  "file_ok st sz s i \<longleftrightarrow> i_dev (icache s ! i) = 1 \<and> file_size s i \<le> MAXFILE * BSIZE
     \<and> (\<forall>bn. bn * BSIZE < file_size s i \<longrightarrow> file_blk s i bn \<noteq> 0 \<and> file_blk s i bn < disksize s \<and> file_blk s i bn \<notin> log_area st sz
          \<and> (NDIRECT * BSIZE < file_size s i \<longrightarrow> file_blk s i bn \<noteq> i_addrs (icache s ! i) ! NDIRECT))
     \<and> (\<forall>b c. b * BSIZE < file_size s i \<and> c * BSIZE < file_size s i \<and> file_blk s i b = file_blk s i c \<longrightarrow> b = c)
     \<and> (NDIRECT * BSIZE < file_size s i \<longrightarrow> i_addrs (icache s ! i) ! NDIRECT \<noteq> 0 \<and> i_addrs (icache s ! i) ! NDIRECT < disksize s)"

lemma file_okD:
  assumes "file_ok st sz s i"
  shows "i_dev (icache s ! i) = 1" "file_size s i \<le> MAXFILE * BSIZE"
    "bn * BSIZE < file_size s i \<Longrightarrow> file_blk s i bn \<noteq> 0 \<and> file_blk s i bn < disksize s \<and> file_blk s i bn \<notin> log_area st sz"
    "bn * BSIZE < file_size s i \<Longrightarrow> NDIRECT * BSIZE < file_size s i \<Longrightarrow> file_blk s i bn \<noteq> i_addrs (icache s ! i) ! NDIRECT"
    "b * BSIZE < file_size s i \<Longrightarrow> c * BSIZE < file_size s i \<Longrightarrow> file_blk s i b = file_blk s i c \<Longrightarrow> b = c"
    "NDIRECT * BSIZE < file_size s i \<Longrightarrow> i_addrs (icache s ! i) ! NDIRECT \<noteq> 0 \<and> i_addrs (icache s ! i) ! NDIRECT < disksize s"
  using assms unfolding file_ok_def by blast+

lemma file_same:
  assumes "bio_same H s s'" "icache s' = icache (s :: 'a fs_scheme)"
  shows "file_blk s' i = file_blk s i" "file_byte s' i = file_byte s i" "file_size s' i = file_size s i"
    "file_ok st sz s' i = file_ok st sz s i"
proof -
  have v: "bview s' = bview s" "disksize s' = disksize s" using bio_sameD [OF assms(1)] by auto
  show b: "file_blk s' i = file_blk s i" "file_size s' i = file_size s i"
    using v assms(2) by (simp_all add: fun_eq_iff file_blk_def file_size_def)
  then show "file_byte s' i = file_byte s i" using v by (simp add: fun_eq_iff file_byte_def)
  show "file_ok st sz s' i = file_ok st sz s i" unfolding file_ok_def b v(2) assms(2) ..
qed

lemma bio_same_trans: "bio_same {} s s' \<Longrightarrow> bio_same {} s' s'' \<Longrightarrow> bio_same {} s (s'' :: 'a bio_scheme)"
  by (auto simp: bio_same_def intro: bio_step_trans)

lemma fs_same_frame: "bio_same H s s' \<Longrightarrow> icache s' = icache (s :: 'a fs_scheme)"
  using fs_step_frame(2) fs_step_same by blast

text \<open>A file block that is allocated is found without changing anything.\<close>

lemma bmap_mapped:
  fixes s :: "'a fs_scheme"
  assumes g: "good_world w" and ok: "cache_ok p {} s" and room: "card (dirty_blks s) < NBUF"
    and f: "file_ok st sz s i" and bn: "bn * BSIZE < file_size s i"
  obtains s' where "bmap w i (of_nat bn) s = Ok (file_blk s i bn, s')" "cache_ok p {} s'" "bio_same {} s s'"
proof (cases "bn < NDIRECT")
  case True
  then have "unat (of_nat bn :: u32) = bn" "(of_nat bn :: u32) < of_nat NDIRECT" by (simp_all add: NDIRECT_def unat_of_nat word_less_nat_alt)
  then have "bmap w i (of_nat bn) s = Ok (file_blk s i bn, s)"
    using file_okD(3) [OF f bn] True by (simp add: bmap_def file_blk_def)
  moreover have "bio_same {} s s" by (simp add: bio_same_def)
  ultimately show thesis using that ok by blast
next
  case False
  have mx: "bn < NDIRECT + NINDIRECT" using bn file_okD(2) [OF f] by (simp add: MAXFILE_def BSIZE_def)
  have ns: "\<not> (of_nat bn :: u32) < of_nat NDIRECT" "(of_nat bn - of_nat NDIRECT :: u32) < of_nat NINDIRECT"
    "unat (of_nat bn - of_nat NDIRECT :: u32) = bn - NDIRECT"
  proof -
    have u: "unat (of_nat bn :: u32) = bn" "unat (of_nat NDIRECT :: u32) = NDIRECT" "unat (of_nat NINDIRECT :: u32) = NINDIRECT"
      using mx by (simp_all add: NDIRECT_def NINDIRECT_def BSIZE_def unat_of_nat)
    show n: "\<not> (of_nat bn :: u32) < of_nat NDIRECT" using False u by (simp add: word_less_nat_alt)
    then show d: "unat (of_nat bn - of_nat NDIRECT :: u32) = bn - NDIRECT" using u by (simp add: unat_sub not_less)
    then show "(of_nat bn - of_nat NDIRECT :: u32) < of_nat NINDIRECT" using mx False u by (simp add: word_less_nat_alt)
  qed
  let ?a = "i_addrs (icache s ! i) ! NDIRECT"
  have big: "NDIRECT * BSIZE < file_size s i" using bn False by (auto simp: not_less BSIZE_def intro: le_less_trans)
  note ia = file_okD(6) [OF f big]
  obtain bp s1 s2 where r: "bread w 1 ?a s = Ok (bp, s1)" "b_data (bufs s1 ! bp) = bview s ?a" "bio_same {} s s1"
    "brelse bp s1 = Ok s2" "cache_ok p {} s2" "bio_same {} s s2"
    using read_release [OF g ok, of ?a] ia room by (auto simp: held_blks_def)
  have "bmap w i (of_nat bn) s = Ok (file_blk s i bn, s2)"
    using ns ia r(1,2,4) file_okD(1) [OF f] file_okD(3) [OF f bn] False by (simp add: bmap_def Let_def file_blk_def)
  then show thesis using that r by blast
qed


lemma same_block:
  assumes "a mod BSIZE + j < BSIZE"
  shows "(a + j) div BSIZE = a div BSIZE" "(a + j) mod BSIZE = a mod BSIZE + j"
proof -
  have e: "a + j = (a mod BSIZE + j) + a div BSIZE * BSIZE" by simp
  have "(a + j) div BSIZE = a div BSIZE + (a mod BSIZE + j) div BSIZE"
    unfolding e by (subst div_mult_self1) (simp_all add: BSIZE_def)
  then show "(a + j) div BSIZE = a div BSIZE" using assms by simp
  have "(a + j) mod BSIZE = (a mod BSIZE + j) mod BSIZE" by (simp add: mod_add_left_eq)
  then show "(a + j) mod BSIZE = a mod BSIZE + j" using assms by simp
qed

lemma chunk_bytes:
  assumes "m \<le> BSIZE - a mod BSIZE" "length (bview s (file_blk s i (a div BSIZE))) = BSIZE"
  shows "take m (drop (a mod BSIZE) (bview s (file_blk s i (a div BSIZE)))) = map (file_byte s i) [a..<a + m]"
proof (rule nth_equalityI)
  fix j assume "j < length (take m (drop (a mod BSIZE) (bview s (file_blk s i (a div BSIZE)))))"
  then have j: "j < m" "a mod BSIZE + j < BSIZE" using assms by (auto simp: BSIZE_def)
  then have "(a + j) div BSIZE = a div BSIZE" "(a + j) mod BSIZE = a mod BSIZE + j" by (simp_all add: same_block)
  then show "take m (drop (a mod BSIZE) (bview s (file_blk s i (a div BSIZE)))) ! j = map (file_byte s i) [a..<a + m] ! j"
    using j assms by (simp add: file_byte_def)
qed (use assms in auto)

lemma off_word:
  assumes "a + l \<le> MAXFILE * BSIZE"
  shows "unat (of_nat a :: u32) = a" "(of_nat a :: u32) div of_nat BSIZE = of_nat (a div BSIZE)"
proof -
  show u: "unat (of_nat a :: u32) = a" using assms by (simp add: MAXFILE_def NDIRECT_def NINDIRECT_def BSIZE_def unat_of_nat)
  have "unat (of_nat BSIZE :: u32) = BSIZE" by (simp add: BSIZE_def)
  then show "(of_nat a :: u32) div of_nat BSIZE = of_nat (a div BSIZE)" unfolding word_arith_nat_div u by simp
qed

lemma readi_loop_bytes:
  fixes s :: "'a fs_scheme"
  assumes g: "good_world w" and ok: "cache_ok p {} s" and room: "card (dirty_blks s) < NBUF"
    and f: "file_ok st sz s i" and le: "a + left \<le> file_size s i"
  shows "\<exists>s'. readi_loop w i (of_nat a) left s = Ok (map (file_byte s i) [a..<a + left], s') \<and> cache_ok p {} s' \<and> bio_same {} s s'"
  using ok room f le
proof (induction left arbitrary: a s rule: less_induct)
  case (less left)
  show ?case
  proof (cases "left = 0")
    case True
    then show ?thesis using less.prems by (simp add: readi_loop.simps bio_same_def)
  next
    case False
    define m where "m = min left (BSIZE - a mod BSIZE)"
    have m: "0 < m" "m \<le> left" "m \<le> BSIZE - a mod BSIZE" using False by (auto simp: m_def BSIZE_def)
    have bn: "a div BSIZE * BSIZE < file_size s i" using less.prems(4) False by (simp add: BSIZE_def)
    have mx: "a + left \<le> MAXFILE * BSIZE" using less.prems(4) file_okD(2) [OF less.prems(3)] by simp
    obtain s1 where b: "bmap w i (of_nat (a div BSIZE)) s = Ok (file_blk s i (a div BSIZE), s1)" "cache_ok p {} s1" "bio_same {} s s1"
      using bmap_mapped [OF g less.prems(1-3) bn] .
    note s1 = bio_sameD [OF b(3)] fs_same_frame [OF b(3)]
    have blk: "file_blk s i (a div BSIZE) < disksize s1" using file_okD(3) [OF less.prems(3) bn] s1 by simp
    obtain bp s2 s3 where r: "bread w 1 (file_blk s i (a div BSIZE)) s1 = Ok (bp, s2)"
      "b_data (bufs s2 ! bp) = bview s1 (file_blk s i (a div BSIZE))" "bio_same {} s1 s2"
      "brelse bp s2 = Ok s3" "cache_ok p {} s3" "bio_same {} s1 s3"
      using read_release [OF g b(2) blk] less.prems(2) s1 by (auto simp: held_blks_def)
    have s3: "bio_same {} s s3" using b(3) r(6) by (rule bio_same_trans)
    note e3 = file_same [OF s3 fs_same_frame [OF s3]]
    obtain s4 where ih: "readi_loop w i (of_nat (a + m)) (left - m) s3 = Ok (map (file_byte s i) [a + m..<a + left], s4)"
      "cache_ok p {} s4" "bio_same {} s3 s4"
      using less.IH [of "left - m" s3 "a + m"] m r(5) less.prems e3 bio_sameD(5) [OF s3] by auto
    have "take m (drop (a mod BSIZE) (b_data (bufs s2 ! bp))) = map (file_byte s i) [a..<a + m]"
      using chunk_bytes [OF m(3), of s i] r(2) s1 bview_len [OF less.prems(1)] blk by simp
    then have "readi_loop w i (of_nat a) left s = Ok (map (file_byte s i) [a..<a + m] @ map (file_byte s i) [a + m..<a + left], s4)"
      using ih(1) r(1,4) b(1) off_word [OF mx] False s1 file_okD(1) [OF less.prems(3)]
      by (subst readi_loop.simps) (simp add: Let_def m_def)
    moreover have "map (file_byte s i) [a..<a + m] @ map (file_byte s i) [a + m..<a + left] = map (file_byte s i) [a..<a + left]"
      using m(2) upt_add_eq_append [of a "a + m" "left - m"] by (simp flip: map_append)
    ultimately show ?thesis using ih bio_same_trans [OF s3 ih(3)] by auto
  qed
qed

text \<open>Overwriting one data block of a file.\<close>

lemma file_block_update:
  fixes s :: "'a fs_scheme"
  assumes f: "file_ok st sz s i" and bn: "bn * BSIZE < file_size s i"
    and v: "bview s' = (bview s)(file_blk s i bn := d)" and e: "icache s' = icache s" "disksize s' = disksize s"
  shows "b * BSIZE < file_size s i \<Longrightarrow> file_blk s' i b = file_blk s i b" "file_size s' i = file_size s i" "file_ok st sz s' i"
    "k < file_size s i \<Longrightarrow> file_byte s' i k = (if k div BSIZE = bn then d ! (k mod BSIZE) else file_byte s i k)"
proof -
  show sz: "file_size s' i = file_size s i" by (simp add: file_size_def e)
  have blk: "file_blk s' i b = file_blk s i b" if b: "b * BSIZE < file_size s i" for b
  proof (cases "b < NDIRECT")
    case False
    then have "NDIRECT * BSIZE < file_size s i" using b by (simp add: BSIZE_def)
    then have "bview s' (i_addrs (icache s ! i) ! NDIRECT) = bview s (i_addrs (icache s ! i) ! NDIRECT)"
      using file_okD(4) [OF f bn] v by auto
    then show ?thesis by (simp add: file_blk_def e)
  qed (simp add: file_blk_def e)
  then show "b * BSIZE < file_size s i \<Longrightarrow> file_blk s' i b = file_blk s i b" .
  show "file_ok st sz s' i" using f blk unfolding file_ok_def e sz by (auto simp: blk)
  assume k: "k < file_size s i"
  then have kb: "k div BSIZE * BSIZE < file_size s i" by (rule le_less_trans [rotated]) simp
  then show "file_byte s' i k = (if k div BSIZE = bn then d ! (k mod BSIZE) else file_byte s i k)"
    using file_okD(5) [OF f kb bn] by (auto simp: file_byte_def blk v)
qed

lemma splice_nth:
  assumes "o' + length x \<le> length d" "j < length d"
  shows "splice d o' x ! j = (if o' \<le> j \<and> j < o' + length x then x ! (j - o') else d ! j)"
  using assms by (auto simp: splice_def nth_append min_def)

lemma splice_length: "o' + length x \<le> length d \<Longrightarrow> length (splice d o' x) = length d"
  by (simp add: splice_def)

text \<open>Byte \<open>k\<close> after one round of the loop: the round covers \<open>[a, a + m)\<close>.\<close>

lemma chunk_covers:
  assumes "m \<le> BSIZE - a mod BSIZE" "k div BSIZE = a div BSIZE"
  shows "a mod BSIZE \<le> k mod BSIZE \<and> k mod BSIZE < a mod BSIZE + m \<longleftrightarrow> a \<le> k \<and> k < a + m"
    "a \<le> k \<Longrightarrow> k mod BSIZE - a mod BSIZE = k - a"
proof -
  have "k = a div BSIZE * BSIZE + k mod BSIZE" "a = a div BSIZE * BSIZE + a mod BSIZE" using assms(2) by (metis div_mult_mod_eq)+
  then show "a mod BSIZE \<le> k mod BSIZE \<and> k mod BSIZE < a mod BSIZE + m \<longleftrightarrow> a \<le> k \<and> k < a + m"
    "a \<le> k \<Longrightarrow> k mod BSIZE - a mod BSIZE = k - a" by linarith+
qed

definition chunks :: "nat \<Rightarrow> nat \<Rightarrow> nat" where
  "chunks a n = (a + n + BSIZE - 1) div BSIZE - a div BSIZE"

lemma chunks_step:
  assumes "0 < left" "m = min left (BSIZE - a mod BSIZE)"
  shows "0 < chunks a left" "m < left \<Longrightarrow> Suc (chunks (a + m) (left - m)) = chunks a left"
proof -
  have a: "a = a div BSIZE * BSIZE + a mod BSIZE" by simp
  have r: "a mod BSIZE < BSIZE" by (simp add: BSIZE_def)
  have "a div BSIZE + 1 = (a div BSIZE * BSIZE + BSIZE) div BSIZE" by (simp add: BSIZE_def)
  also have "\<dots> \<le> (a + left + BSIZE - 1) div BSIZE" using assms(1) a by (intro div_le_mono) linarith
  finally show g: "0 < chunks a left" by (simp add: chunks_def)
  assume lt: "m < left"
  then have m: "m = BSIZE - a mod BSIZE" using assms(2) by (simp add: min_def split: if_splits)
  then have "a + m = a div BSIZE * BSIZE + BSIZE" using a r by linarith
  then have "a + m = (a div BSIZE + 1) * BSIZE" by simp
  then have "(a + m) div BSIZE = a div BSIZE + 1" by (simp add: BSIZE_def)
  then show "Suc (chunks (a + m) (left - m)) = chunks a left" using g lt by (simp add: chunks_def)
qed


text \<open>One round of the writing loop.\<close>

lemma write_chunk:
  fixes s :: "'a fs_scheme"
  assumes g: "good_world w" and t: "txn p {} st sz B s" and f: "file_ok st sz s i"
    and le: "a < file_size s i" and m: "m \<le> BSIZE - a mod BSIZE" and src: "length xs = m"
    and room: "length B < NBUF" "Suc (length B) < unat sz"
  obtains s1 bp s2 s3 s4 B' where "bmap w i (of_nat (a div BSIZE)) s = Ok (file_blk s i (a div BSIZE), s1)" "icache s1 = icache s"
    "bread w 1 (file_blk s i (a div BSIZE)) s1 = Ok (bp, s2)"
    "log_write bp (set_data bp (splice (b_data (bufs s2 ! bp)) (a mod BSIZE) xs) s2) = Ok s3" "brelse bp s3 = Ok s4"
    "txn p {} st sz B' s4" "length B' \<le> Suc (length B)" "fs_step {} s s4" "file_ok st sz s4 i"
    "\<forall>k<file_size s i. file_byte s4 i k = (if a \<le> k \<and> k < a + m then xs ! (k - a) else file_byte s i k)"
    "\<forall>b. b * BSIZE < file_size s i \<longrightarrow> file_blk s4 i b = file_blk s i b" "\<forall>b. b \<noteq> file_blk s i (a div BSIZE) \<longrightarrow> bview s4 b = bview s b"
proof -
  let ?blk = "file_blk s i (a div BSIZE)"
  have bn: "a div BSIZE * BSIZE < file_size s i" using le by (rule le_less_trans [rotated]) simp
  note ok = txnD(2) [OF t] and blk = file_okD(3) [OF f bn]
  have card: "card (dirty_blks s) < NBUF" using txn_room [OF t] room by simp
  obtain s1 where b: "bmap w i (of_nat (a div BSIZE)) s = Ok (?blk, s1)" "cache_ok p {} s1" "bio_same {} s s1"
    using bmap_mapped [OF g ok card f bn] .
  note s1 = bio_sameD [OF b(3)] fs_same_frame [OF b(3)]
  have t1: "txn p {} st sz B s1" by (rule txn_same [OF t b(3,2)])
  have c1: "?blk < disksize s1" "?blk \<notin> held_blks {} s1" "card ({} :: nat set) + length B < NBUF"
    using blk room s1 by (simp_all add: held_blks_def)
  obtain bp s2 where r: "bread w 1 ?blk s1 = Ok (bp, s2)" "b_data (bufs s2 ! bp) = bview s1 ?blk"
    "\<And>d. length d = BSIZE \<Longrightarrow> \<exists>s3 s4 B'. log_write bp (set_data bp d s2) = Ok s3 \<and> brelse bp s3 = Ok s4
      \<and> txn p {} st sz B' s4 \<and> set B' = insert ?blk (set B) \<and> length B' \<le> Suc (length B)
      \<and> bview s4 = (bview s1)(?blk := d) \<and> fs_step {} s1 s4 \<and> fs_step {} s1 s3"
    using logged_update [OF g t1 c1(1,2) _ c1(3) room(2)] blk by metis
  let ?d = "splice (bview s ?blk) (a mod BSIZE) xs"
  have len: "length (bview s ?blk) = BSIZE" "a mod BSIZE + m \<le> BSIZE" using bview_len [OF ok] blk m by (auto simp: BSIZE_def)
  then have ld: "length ?d = BSIZE" using splice_length src by simp
  obtain s3 s4 B' where u: "log_write bp (set_data bp ?d s2) = Ok s3" "brelse bp s3 = Ok s4"
    "txn p {} st sz B' s4" "length B' \<le> Suc (length B)" "bview s4 = (bview s1)(?blk := ?d)" "fs_step {} s1 s4"
    using r(3) [OF ld] by blast
  have step: "fs_step {} s s4" using fs_step_trans [OF fs_step_same [OF b(3)] u(6)] .
  have v4: "bview s4 = (bview s)(?blk := ?d)" using u(5) s1 by simp
  note up = file_block_update [OF f bn v4 fs_step_frame(2,4) [OF step]]
  have byte: "file_byte s4 i k = (if a \<le> k \<and> k < a + m then xs ! (k - a) else file_byte s i k)" if k: "k < file_size s i" for k
  proof (cases "k div BSIZE = a div BSIZE")
    case True
    then show ?thesis using up(4) [OF k] chunk_covers [OF m True] splice_nth [of "a mod BSIZE" xs "bview s ?blk" "k mod BSIZE"] len src
      by (auto simp: file_byte_def BSIZE_def)
  next
    case False
    have "\<not> (a \<le> k \<and> k < a + m)"
    proof
      assume k: "a \<le> k \<and> k < a + m"
      then have "a mod BSIZE + (k - a) < BSIZE" using m len(2) by linarith
      then show False using same_block(1) [of a "k - a"] k False by simp
    qed
    then show ?thesis using up(4) [OF k] False by auto
  qed
  have "log_write bp (set_data bp (splice (b_data (bufs s2 ! bp)) (a mod BSIZE) xs) s2) = Ok s3" using u(1) r(2) s1 by simp
  then show thesis using that [OF b(1) _ r(1) _ u(2,3,4) step up(3)] byte up(1) s1 v4 by auto
qed


text \<open>The writing loop over a range inside the file.\<close>

lemma writei_loop_bytes:
  fixes s :: "'a fs_scheme"
  assumes g: "good_world w" and t: "txn p {} st sz B s" and f: "file_ok st sz s i"
    and le: "a + left \<le> file_size s i" and src: "length src = left"
    and room: "left = 0 \<or> length B + chunks a left \<le> NBUF \<and> length B + chunks a left < unat sz"
  shows "\<exists>s' B'. writei_loop w i src (of_nat a) left s = Ok (of_nat (a + left), s') \<and> txn p {} st sz B' s' \<and> file_ok st sz s' i
    \<and> fs_step {} s s' \<and> length B' \<le> length B + (if left = 0 then 0 else chunks a left)
    \<and> (\<forall>k<file_size s i. file_byte s' i k = (if a \<le> k \<and> k < a + left then src ! (k - a) else file_byte s i k))
    \<and> (\<forall>b. b * BSIZE < file_size s i \<longrightarrow> file_blk s' i b = file_blk s i b)
    \<and> (\<forall>b. (\<forall>bn. bn * BSIZE < file_size s i \<longrightarrow> b \<noteq> file_blk s i bn) \<longrightarrow> bview s' b = bview s b)"
  using t f le src room
proof (induction left arbitrary: a s B src rule: less_induct)
  case (less left)
  show ?case
  proof (cases "left = 0")
    case True
    then show ?thesis using less.prems by (intro exI [of _ s] exI [of _ B]) (auto simp: writei_loop.simps)
  next
    case False
    define m where "m = min left (BSIZE - a mod BSIZE)"
    have m: "0 < m" "m \<le> left" "m \<le> BSIZE - a mod BSIZE" using False by (auto simp: m_def BSIZE_def)
    note c = chunks_step [of left m a, OF _ m_def]
    have a: "a < file_size s i" and mx: "a + left \<le> MAXFILE * BSIZE" using less.prems(3) False file_okD(2) [OF less.prems(2)] by simp_all
    have rm: "length B < NBUF" "Suc (length B) < unat sz" using less.prems(5) False c(1) by auto
    have tk: "length (take m src) = m" using m(2) less.prems(4) by simp
    obtain s1 bp s2 s3 s4 B' where u: "bmap w i (of_nat (a div BSIZE)) s = Ok (file_blk s i (a div BSIZE), s1)" "icache s1 = icache s"
      "bread w 1 (file_blk s i (a div BSIZE)) s1 = Ok (bp, s2)"
      "log_write bp (set_data bp (splice (b_data (bufs s2 ! bp)) (a mod BSIZE) (take m src)) s2) = Ok s3" "brelse bp s3 = Ok s4"
      and u4: "txn p {} st sz B' s4" "length B' \<le> Suc (length B)" "fs_step {} s s4" "file_ok st sz s4 i"
      "\<forall>k<file_size s i. file_byte s4 i k = (if a \<le> k \<and> k < a + m then take m src ! (k - a) else file_byte s i k)"
      "\<forall>b. b * BSIZE < file_size s i \<longrightarrow> file_blk s4 i b = file_blk s i b" "\<forall>b. b \<noteq> file_blk s i (a div BSIZE) \<longrightarrow> bview s4 b = bview s b"
      using write_chunk [OF g less.prems(1,2) a m(3) tk rm] .
    have sz4: "file_size s4 i = file_size s i" using fs_step_frame(2) [OF u4(3)] by (simp add: file_size_def)
    have step: "writei_loop w i src (of_nat a) left s = writei_loop w i (drop m src) (of_nat (a + m)) (left - m) s4"
      using u off_word [OF mx] False file_okD(1) [OF less.prems(2)] by (subst writei_loop.simps) (simp add: Let_def m_def)
    have r4: "left - m = 0 \<or> length B' + chunks (a + m) (left - m) \<le> NBUF \<and> length B' + chunks (a + m) (left - m) < unat sz"
      using less.prems(5) False c(2) u4(2) by auto
    obtain s' B'' where ih: "writei_loop w i (drop m src) (of_nat (a + m)) (left - m) s4 = Ok (of_nat (a + left), s')"
      "txn p {} st sz B'' s'" "file_ok st sz s' i" "fs_step {} s4 s'"
      "length B'' \<le> length B' + (if left - m = 0 then 0 else chunks (a + m) (left - m))"
      "\<forall>k<file_size s i. file_byte s' i k = (if a + m \<le> k \<and> k < a + left then drop m src ! (k - (a + m)) else file_byte s4 i k)"
      "\<forall>b. b * BSIZE < file_size s i \<longrightarrow> file_blk s' i b = file_blk s4 i b"
      "\<forall>b. (\<forall>bn. bn * BSIZE < file_size s i \<longrightarrow> b \<noteq> file_blk s4 i bn) \<longrightarrow> bview s' b = bview s4 b"
      using less.IH [OF _ u4(1,4) _ _ r4, of "drop m src"] m less.prems(3,4) sz4 by auto
    have bytes: "\<forall>k<file_size s i. file_byte s' i k = (if a \<le> k \<and> k < a + left then src ! (k - a) else file_byte s i k)"
      using ih(6) u4(5) m(2) less.prems(4) by auto
    have "a div BSIZE * BSIZE < file_size s i" using a by (rule le_less_trans [rotated]) simp
    then have frame: "\<forall>b. (\<forall>bn. bn * BSIZE < file_size s i \<longrightarrow> b \<noteq> file_blk s i bn) \<longrightarrow> bview s' b = bview s b"
      using ih(8) u4(6,7) by metis
    have "length B'' \<le> length B + chunks a left" using ih(5) u4(2) c m(2) False by (cases "m = left") auto
    then show ?thesis using step ih(1-4,7) fs_step_trans [OF u4(3) ih(4)] u4(6) bytes frame False by auto
  qed
qed


definition file_data :: "'a fs_scheme \<Rightarrow> nat \<Rightarrow> u8 list" where
  "file_data s i = map (file_byte s i) [0..<file_size s i]"

lemma file_data_range: "a + n \<le> file_size s i \<Longrightarrow> map (file_byte s i) [a..<a + n] = take n (drop a (file_data s i))"
  by (simp add: file_data_def drop_map take_map)

lemma file_data_update:
  assumes "file_size s' i = file_size s i" "a + length xs \<le> file_size s i"
    "\<forall>k<file_size s i. file_byte s' i k = (if a \<le> k \<and> k < a + length xs then xs ! (k - a) else file_byte s i k)"
  shows "file_data s' i = splice (file_data s i) a xs"
proof (rule nth_equalityI)
  show "length (file_data s' i) = length (splice (file_data s i) a xs)"
    using assms splice_length [of a xs "file_data s i"] by (simp add: file_data_def)
  fix k assume "k < length (file_data s' i)"
  then show "file_data s' i ! k = splice (file_data s i) a xs ! k"
    using assms splice_nth [of a xs "file_data s i" k] by (simp add: file_data_def)
qed

text \<open>Reading any range returns the bytes of the file there, cut at its end.\<close>

lemma readi_data:
  fixes s :: "'a fs_scheme"
  assumes g: "good_world w" and ok: "cache_ok p {} s" and room: "card (dirty_blks s) < NBUF"
    and f: "file_ok st sz s i" and ty: "i_type (icache s ! i) \<noteq> T_DEV"
    and off: "unat off \<le> file_size s i" "unat off + unat n < 4294967296" and k: "k = min (unat n) (file_size s i - unat off)"
  shows "\<exists>s'. readi w i off n s = Ok ((of_nat k, take k (drop (unat off) (file_data s i))), s') \<and> bio_same {} s s'"
proof -
  let ?sz = "i_size (icache s ! i)"
  have sum: "unat (off + n) = unat off + unat n" using off(2) by (simp add: unat_word_ariths)
  have g1: "\<not> (off > ?sz \<or> off + n < off)" using off(1) sum by (simp add: word_less_nat_alt file_size_def not_less)
  define m where "m = (if off + n > ?sz then ?sz - off else n)"
  have m: "unat m = k"
    using sum off(1) k by (auto simp: m_def word_less_nat_alt file_size_def unat_sub word_le_nat_alt)
  have le: "unat off + k \<le> file_size s i" using off k by simp
  obtain s' where r: "readi_loop w i (of_nat (unat off)) k s = Ok (map (file_byte s i) [unat off..<unat off + k], s')" "bio_same {} s s'"
    using readi_loop_bytes [OF g ok room f le] by blast
  have "readi w i off n s = Ok ((m, map (file_byte s i) [unat off..<unat off + k]), s')"
    using r(1) g1 ty m by (simp add: readi_def Let_def m_def)
  moreover have "m = of_nat k" using m by auto
  ultimately show ?thesis using r(2) file_data_range [OF le] by auto
qed


text \<open>
  C4. Writing inside a file and reading it back. In a transaction with room for the blocks touched,
  \<open>writei\<close> of \<open>n\<close> bytes at \<open>off\<close> inside a file returns \<open>n\<close> and replaces exactly these bytes of the file's
  contents: reading any range afterwards, across block boundaries and through the indirect block, returns
  the new contents there, cut at the end of the file. The inode and every block that is not a data block
  of the file keep their contents, and the transaction goes on.
\<close>

theorem writei_readi:
  fixes s :: "'a fs_scheme"
  assumes g: "good_world w" and t: "txn p {} st sz B s" and f: "file_ok st sz s i" and ty: "i_type (icache s ! i) \<noteq> T_DEV"
    and src: "length src = unat n" and le: "unat off + unat n \<le> file_size s i"
    and room: "length B + chunks (unat off) (unat n) < min NBUF (unat sz)"
  shows "\<exists>s1 B1. writei w i src off n s = Ok (n, s1) \<and> txn p {} st sz B1 s1 \<and> icache s1 = icache s
    \<and> (\<forall>b. (\<forall>bn. bn * BSIZE < file_size s i \<longrightarrow> b \<noteq> file_blk s i bn) \<longrightarrow> bview s1 b = bview s b)
    \<and> (\<forall>off' n' k. unat off' \<le> file_size s i \<and> unat off' + unat n' < 4294967296 \<and> k = min (unat n') (file_size s i - unat off') \<longrightarrow>
         (\<exists>s2. readi w i off' n' s1 = Ok ((of_nat k, take k (drop (unat off') (splice (file_data s i) (unat off) src))), s2)
            \<and> bio_same {} s1 s2))"
proof -
  note mx = file_okD(2) [OF f]
  have lt: "unat off + unat n < 4294967296" using le mx by (simp add: MAXFILE_def NDIRECT_def NINDIRECT_def BSIZE_def)
  have sum: "unat (off + n) = unat off + unat n" using lt by (simp add: unat_word_ariths)
  obtain s1 B1 where r: "writei_loop w i src off (unat n) s = Ok (off + n, s1)" "txn p {} st sz B1 s1" "file_ok st sz s1 i"
    "fs_step {} s s1" "length B1 < NBUF"
    "\<forall>k<file_size s i. file_byte s1 i k = (if unat off \<le> k \<and> k < unat off + length src then src ! (k - unat off) else file_byte s i k)"
    "\<forall>b. (\<forall>bn. bn * BSIZE < file_size s i \<longrightarrow> b \<noteq> file_blk s i bn) \<longrightarrow> bview s1 b = bview s b"
  proof -
    have rm: "unat n = 0 \<or> length B + chunks (unat off) (unat n) \<le> NBUF \<and> length B + chunks (unat off) (unat n) < unat sz" using room by simp
    have w: "of_nat (unat off) = off" "of_nat (unat off + unat n) = off + n" by simp_all
    have b: "x < NBUF" if "x \<le> length B + (if unat n = 0 then 0 else chunks (unat off) (unat n))" for x
      using that room by (simp split: if_splits)
    show thesis using writei_loop_bytes [OF g t f le src rm] that b unfolding w src by blast
  qed
  have e: "icache s1 = icache s" "file_size s1 i = file_size s i" using fs_step_frame(2) [OF r(4)] by (simp_all add: file_size_def)
  have "writei w i src off n s = Ok (n, s1)"
  proof -
    have "\<not> (off > i_size (icache s ! i) \<or> off + n < off)" "\<not> off + n > of_nat (MAXFILE * BSIZE)" "\<not> off + n > i_size (icache s ! i)"
      using le mx sum by (simp_all add: word_less_nat_alt file_size_def not_less MAXFILE_def NDIRECT_def NINDIRECT_def BSIZE_def)
    then show ?thesis using r(1) ty e by (simp add: writei_def Let_def)
  qed
  moreover have "\<exists>s2. readi w i off' n' s1 = Ok ((of_nat k, take k (drop (unat off') (splice (file_data s i) (unat off) src))), s2)
      \<and> bio_same {} s1 s2"
    if "unat off' \<le> file_size s i" "unat off' + unat n' < 4294967296" "k = min (unat n') (file_size s i - unat off')" for off' n' k
  proof -
    have c: "cache_ok p {} s1" "card (dirty_blks s1) < NBUF" using txnD(2) [OF r(2)] txn_room [OF r(2)] r(5) by simp_all
    have "file_data s1 i = splice (file_data s i) (unat off) src" using file_data_update [OF e(2) _ r(6)] le src by simp
    then show ?thesis using readi_data [OF g c r(3), of off' n' k] ty e that by simp
  qed
  ultimately show ?thesis using r(2,7) e(1) by blast
qed


definition file_example :: fs where
  "file_example = fs_example\<lparr>icache := (replicate NINODE inode_zero)
     [0 := inode_zero\<lparr>i_dev := 1, i_inum := 2, i_ref := 1, i_valid := True, i_type := T_FILE, i_nlink := 1, i_size := 600,
        i_addrs := 60 # 61 # replicate 11 0\<rparr>]\<rparr>"

definition fsdev_world :: "fs fsworld" where
  "fsdev_world = world.extend fs_world \<lparr>dev_read = (\<lambda>_. None), dev_write = (\<lambda>_. None)\<rparr>"

lemma fsdev_world_good: "good_world fsdev_world"
  using fs_world_good by (simp add: good_world_def fsdev_world_def world.defs)

lemma icache_upd_cache:
  fixes s :: "'a fs_scheme"
  shows "cache_ok p H (s\<lparr>icache := x\<rparr>) = cache_ok p H s" "dirty_blks (s\<lparr>icache := x\<rparr>) = dirty_blks s" "bview (s\<lparr>icache := x\<rparr>) = bview s"
  unfolding cache_ok_def in_proc_def wf_cpu_def buf_is_def dirty_blks_def dirty_bufs_def bview_def
  by (simp_all add: fun_eq_iff split: option.split)

lemma txn_icache: "txn p H st sz B (s\<lparr>icache := x\<rparr>) = txn p H st sz B (s :: 'a fs_scheme)"
  by (simp add: txn_def log_inv_def icache_upd_cache)

lemma file_example_sel:
  "file_size file_example 0 = 600" "file_blk file_example 0 0 = 60" "file_blk file_example 0 (Suc 0) = 61"
  "bview file_example = disk_example" "disksize file_example = 1000" "i_dev (icache file_example ! 0) = 1"
  "i_type (icache file_example ! 0) = T_FILE"
  using fs_example_sel
  by (simp_all add: file_example_def file_size_def file_blk_def icache_upd_cache NINODE_def NDIRECT_def)

lemma file_example_ok: "file_ok 2 30 file_example 0"
proof -
  have b: "bn * BSIZE < 600 \<longleftrightarrow> bn = 0 \<or> bn = Suc 0" for bn by (auto simp: BSIZE_def)
  have "(60 :: u32) \<notin> log_area 2 30" "(61 :: u32) \<notin> log_area 2 30" by (simp_all add: log_area_def word_le_nat_alt word_less_nat_alt)
  then show ?thesis unfolding file_ok_def file_example_sel b
    by (auto simp: file_example_sel b MAXFILE_def NDIRECT_def NINDIRECT_def BSIZE_def)
qed

lemma file_example_data: "file_data file_example 0 = replicate 600 0"
proof (rule nth_equalityI)
  show "length (file_data file_example 0) = length (replicate 600 (0 :: u8))" by (simp add: file_data_def file_example_sel)
  fix k assume "k < length (file_data file_example 0)"
  then have k: "k < 600" by (simp add: file_data_def file_example_sel)
  then have "k div BSIZE = 0 \<or> k div BSIZE = Suc 0" by (auto simp: BSIZE_def)
  then have "file_byte file_example 0 k = 0"
    by (auto simp: file_byte_def file_example_sel disk_example_def BSIZE_def)
  then show "file_data file_example 0 ! k = replicate 600 0 ! k" using k by (simp add: file_data_def file_example_sel)
qed

text \<open>Four bytes written across the boundary between the two blocks of the file, read back with their neighbours.\<close>

theorem writei_readi_witness:
  "\<exists>s1 s2. writei fsdev_world 0 [1, 2, 3, 4] 510 4 file_example = Ok (4, s1)
     \<and> readi fsdev_world 0 509 6 s1 = Ok ((6, [0, 1, 2, 3, 4, 0]), s2)"
proof -
  have t: "txn 1 {} 2 30 [] file_example" using fs_example_txn by (simp add: file_example_def txn_icache)
  have ty: "i_type (icache file_example ! 0) \<noteq> T_DEV" by (simp add: file_example_sel T_FILE_def T_DEV_def)
  have c: "length [] + chunks (unat (510 :: u32)) (unat (4 :: u32)) < min NBUF (unat (30 :: u32))"
    by (simp add: chunks_def BSIZE_def NBUF_def)
  have len: "length [1, 2, 3, 4 :: u8] = unat (4 :: u32)" "unat (510 :: u32) + unat (4 :: u32) \<le> file_size file_example 0"
    by (simp_all add: file_example_sel)
  obtain s1 where w: "writei fsdev_world 0 [1, 2, 3, 4] 510 4 file_example = Ok (4, s1)"
    and rd: "\<forall>off' n' k. unat off' \<le> file_size file_example 0 \<and> unat off' + unat n' < 4294967296 \<and> k = min (unat n') (file_size file_example 0 - unat off') \<longrightarrow>
       (\<exists>s2. readi fsdev_world 0 off' n' s1 = Ok ((of_nat k, take k (drop (unat off') (splice (file_data file_example 0) (unat (510 :: u32)) [1, 2, 3, 4]))), s2)
          \<and> bio_same {} s1 s2)"
    using writei_readi [OF fsdev_world_good t file_example_ok ty len c] by blast
  have "take 6 (drop 509 (splice (file_data file_example 0) (unat (510 :: u32)) [1, 2, 3, 4])) = [0, 1, 2, 3, 4, 0]"
    by (simp add: file_example_data splice_def)
  then show ?thesis using w rd [rule_format, of 509 6 6] by (auto simp: file_example_sel)
qed


end
