(* ===== verification/Directory.thy ===== *)
theory Directory
  imports Inode
begin

text \<open>
  Directories and path names (\<^verbatim>\<open>fs.c\<close>). A path or a name is the list of its bytes before the
  terminating NUL; the buffer \<^verbatim>\<open>name[DIRSIZ]\<close> that \<open>skipelem\<close> fills is the name it holds, at most
  \<^verbatim>\<open>DIRSIZ\<close> bytes.
\<close>

section \<open>Definitions\<close>

definition DIRSIZ :: nat where "DIRSIZ = 14"
definition DIRENT_SIZE :: nat where "DIRENT_SIZE = 16"
definition SLASH :: u8 where "SLASH = 47"

fun strncmp_bytes :: "nat \<Rightarrow> u8 list \<Rightarrow> u8 list \<Rightarrow> int" where
  "strncmp_bytes 0 p q = 0"
| "strncmp_bytes (Suc n) p q =
     (let a = (case p of [] \<Rightarrow> 0 | x # _ \<Rightarrow> x); b = (case q of [] \<Rightarrow> 0 | x # _ \<Rightarrow> x) in
      if a \<noteq> 0 \<and> a = b then strncmp_bytes n (tl p) (tl q) else uint a - uint b)"

definition namecmp :: "u8 list \<Rightarrow> u8 list \<Rightarrow> int" where
  "namecmp s t = strncmp_bytes DIRSIZ s t"

text \<open>
  The offset \<open>off\<close> cannot wrap: \<open>readi\<close> fails, and the loop panics, before \<^verbatim>\<open>off + sizeof(de)\<close> would.
\<close>

function dirlookup_from :: "('a fs_scheme, 'w) fsworld_scheme \<Rightarrow> nat \<Rightarrow> u8 list \<Rightarrow> nat \<Rightarrow> 'a fs_scheme \<Rightarrow> ((nat \<times> u32) option \<times> 'a fs_scheme) res" where
  "dirlookup_from w dp name off s =
     (if off < unat (i_size (icache s ! dp)) then
        andThen (readi w dp (of_nat off) (of_nat DIRENT_SIZE) s) (\<lambda>((r, de), s).
          if r \<noteq> of_nat DIRENT_SIZE then Panic ''dirlookup read''
          else if get16 de 0 = 0 then dirlookup_from w dp name (off + DIRENT_SIZE) s
          else if namecmp name (drop 2 de) = 0 then
            andThen (iget (i_dev (icache s ! dp)) (ucast (get16 de 0)) s) (\<lambda>(i, s). Ok (Some (i, of_nat off), s))
          else dirlookup_from w dp name (off + DIRENT_SIZE) s)
      else Ok (None, s))"
  by pat_completeness auto
termination
proof (relation "measure (\<lambda>(w, dp, name, off, s). 4294967296 - off)", goal_cases)
  case (2 w dp name off s)
  then show ?case using unsigned_less [of "i_size (icache s ! dp)", where ?'a = nat] by (simp add: DIRENT_SIZE_def)
next
  case (3 w dp name off s)
  then show ?case using unsigned_less [of "i_size (icache s ! dp)", where ?'a = nat] by (simp add: DIRENT_SIZE_def)
qed simp

declare dirlookup_from.simps [simp del]

definition dirlookup :: "('a fs_scheme, 'w) fsworld_scheme \<Rightarrow> nat \<Rightarrow> u8 list \<Rightarrow> 'a fs_scheme \<Rightarrow> ((nat \<times> u32) option \<times> 'a fs_scheme) res" where
  "dirlookup w dp name s =
     (if i_type (icache s ! dp) \<noteq> T_DIR then Panic ''dirlookup not DIR'' else dirlookup_from w dp name 0 s)"

function dirlink_slot :: "('a fs_scheme, 'w) fsworld_scheme \<Rightarrow> nat \<Rightarrow> nat \<Rightarrow> 'a fs_scheme \<Rightarrow> (nat \<times> 'a fs_scheme) res" where
  "dirlink_slot w dp off s =
     (if off < unat (i_size (icache s ! dp)) then
        andThen (readi w dp (of_nat off) (of_nat DIRENT_SIZE) s) (\<lambda>((r, de), s).
          if r \<noteq> of_nat DIRENT_SIZE then Panic ''dirlink read''
          else if get16 de 0 = 0 then Ok (off, s)
          else dirlink_slot w dp (off + DIRENT_SIZE) s)
      else Ok (off, s))"
  by pat_completeness auto
termination
proof (relation "measure (\<lambda>(w, dp, off, s). 4294967296 - off)", goal_cases)
  case (2 w dp off s)
  then show ?case using unsigned_less [of "i_size (icache s ! dp)", where ?'a = nat] by (simp add: DIRENT_SIZE_def)
qed simp

declare dirlink_slot.simps [simp del]

definition enc_dirent :: "u8 list \<Rightarrow> u32 \<Rightarrow> u8 list" where
  "enc_dirent name inum = put16 (replicate 2 0) 0 (ucast inum) @ take DIRSIZ (name @ replicate DIRSIZ 0)"

definition dirlink :: "('a fs_scheme, 'w) fsworld_scheme \<Rightarrow> nat \<Rightarrow> u8 list \<Rightarrow> u32 \<Rightarrow> 'a fs_scheme \<Rightarrow> (u32 \<times> 'a fs_scheme) res" where
  "dirlink w dp name inum s =
     andThen (dirlookup w dp name s) (\<lambda>(r, s).
       case r of
         Some (i, off) \<Rightarrow> andThen (iput w i s) (\<lambda>s. Ok (- 1, s))
       | None \<Rightarrow>
           andThen (dirlink_slot w dp 0 s) (\<lambda>(off, s).
           andThen (writei w dp (enc_dirent name inum) (of_nat off) (of_nat DIRENT_SIZE) s) (\<lambda>(r, s).
             if r \<noteq> of_nat DIRENT_SIZE then Panic ''dirlink'' else Ok (0, s))))"

definition skipelem :: "u8 list \<Rightarrow> (u8 list \<times> u8 list) option" where
  "skipelem path =
     (let path = dropWhile (\<lambda>c. c = SLASH) path in
      if path = [] then None
      else
        let elem = takeWhile (\<lambda>c. c \<noteq> SLASH) path;
            path = dropWhile (\<lambda>c. c \<noteq> SLASH) path;
            name = (if length elem \<ge> DIRSIZ then take DIRSIZ elem else elem) in
        Some (dropWhile (\<lambda>c. c = SLASH) path, name))"

lemma skipelem_shorter: "skipelem path = Some (rest, name) \<Longrightarrow> length rest < length path"
proof -
  assume a: "skipelem path = Some (rest, name)"
  define p where "p = dropWhile (\<lambda>c. c = SLASH) path"
  have p: "p \<noteq> []" "rest = dropWhile (\<lambda>c. c = SLASH) (dropWhile (\<lambda>c. c \<noteq> SLASH) p)"
    using a by (auto simp: skipelem_def Let_def p_def split: if_splits)
  then obtain c cs where c: "p = c # cs" by (cases p) auto
  have "c \<noteq> SLASH" using hd_dropWhile [of "\<lambda>c. c = SLASH" path] p(1) c unfolding p_def by simp
  then have "length (dropWhile (\<lambda>c. c \<noteq> SLASH) p) < length p" using c length_dropWhile_le [of "\<lambda>c. c \<noteq> SLASH" cs] by simp
  moreover have "length p \<le> length path" unfolding p_def by (rule length_dropWhile_le)
  ultimately show ?thesis unfolding p(2)
    using length_dropWhile_le [of "\<lambda>c. c = SLASH" "dropWhile (\<lambda>c. c \<noteq> SLASH) p"] by linarith
qed

text \<open>The loop of \<open>namex\<close> with the current inode and the rest of the path.\<close>

function namex_loop ::
    "('a fs_scheme, 'w) fsworld_scheme \<Rightarrow> bool \<Rightarrow> nat \<Rightarrow> u8 list \<Rightarrow> 'a fs_scheme \<Rightarrow> ((nat \<times> u8 list) option \<times> 'a fs_scheme) res" where
  "namex_loop w parent ip path s =
     (case skipelem path of
        None \<Rightarrow> if parent then andThen (iput w ip s) (\<lambda>s. Ok (None, s)) else Ok (Some (ip, []), s)
      | Some (path, name) \<Rightarrow>
          andThen (ilock w (Some ip) s) (\<lambda>s.
            if i_type (icache s ! ip) \<noteq> T_DIR then andThen (iunlockput w ip s) (\<lambda>s. Ok (None, s))
            else if parent \<and> path = [] then andThen (iunlock (Some ip) s) (\<lambda>s. Ok (Some (ip, name), s))
            else
              andThen (dirlookup w ip name s) (\<lambda>(r, s).
                case r of
                  None \<Rightarrow> andThen (iunlockput w ip s) (\<lambda>s. Ok (None, s))
                | Some (nxt, off) \<Rightarrow> andThen (iunlockput w ip s) (\<lambda>s. namex_loop w parent nxt path s))))"
  by pat_completeness auto
termination
  by (relation "measure (\<lambda>(w, parent, ip, path, s). length path)") (auto dest: skipelem_shorter)

declare namex_loop.simps [simp del]

definition namex :: "('a fs_scheme, 'w) fsworld_scheme \<Rightarrow> u8 list \<Rightarrow> bool \<Rightarrow> 'a fs_scheme \<Rightarrow> ((nat \<times> u8 list) option \<times> 'a fs_scheme) res" where
  "namex w path parent s =
     andThen
       (if path \<noteq> [] \<and> hd path = SLASH then iget ROOTDEV ROOTINO s
        else
          andThen (myproc s) (\<lambda>(p, s).
            case p of None \<Rightarrow> Fault 0
            | Some i \<Rightarrow> (case p_cwd (procs s ! i) of None \<Rightarrow> Fault 0 | Some c \<Rightarrow> idup c s))) (\<lambda>(ip, s).
     namex_loop w parent ip path s)"

definition namei :: "('a fs_scheme, 'w) fsworld_scheme \<Rightarrow> u8 list \<Rightarrow> 'a fs_scheme \<Rightarrow> (nat option \<times> 'a fs_scheme) res" where
  "namei w path s = andThen (namex w path False s) (\<lambda>(r, s). Ok (map_option fst r, s))"

definition nameiparent :: "('a fs_scheme, 'w) fsworld_scheme \<Rightarrow> u8 list \<Rightarrow> 'a fs_scheme \<Rightarrow> ((nat \<times> u8 list) option \<times> 'a fs_scheme) res" where
  "nameiparent w path s = namex w path True s"

end
