(* ===== verification/Pipe.thy ===== *)
theory Pipe
  imports Directory Queue_Spec
begin

text \<open>
  Memory as the kernel reaches it through the page table in use, and pipes (\<^verbatim>\<open>pipe.c\<close>). The pipe
  that lives in an allocated page is an entry of the table \<open>pipes\<close> at the page's address. A process
  blocked on a pipe sleeps with the environment of \<open>w\<close>, and is woken at most \<open>w_fuel w\<close> times.
\<close>

section \<open>Access through the page table\<close>

text \<open>
  A kernel address is reached directly. A user address needs a present page, and to be written a
  writable one, because \<^verbatim>\<open>CR0_WP\<close> is set.
\<close>

definition vaddr :: "bool \<Rightarrow> u32 \<Rightarrow> 'a vm_scheme \<Rightarrow> u32 res" where
  "vaddr write va s =
     (if va \<ge> KERNBASE then Ok va
      else case translate (mem s) (P2V (cr3 s)) va of
        None \<Rightarrow> Fault va
      | Some (pa, flags) \<Rightarrow> if write \<and> flags AND PTE_W = 0 then Fault va else Ok (P2V pa + (va AND 0xFFF)))"

definition vload :: "u32 \<Rightarrow> 'a vm_scheme \<Rightarrow> u8 res" where
  "vload va s = andThen (vaddr False va s) (\<lambda>a. Ok (mem s a))"

definition vstore :: "u32 \<Rightarrow> u8 \<Rightarrow> 'a vm_scheme \<Rightarrow> 'a vm_scheme res" where
  "vstore va x s = andThen (vaddr True va s) (\<lambda>a. Ok (s\<lparr>mem := (mem s)(a := x)\<rparr>))"

primrec vloads :: "u32 \<Rightarrow> nat \<Rightarrow> 'a vm_scheme \<Rightarrow> u8 list res" where
  "vloads va 0 s = Ok []"
| "vloads va (Suc n) s = andThen (vload va s) (\<lambda>x. andThen (vloads (va + 1) n s) (\<lambda>xs. Ok (x # xs)))"

primrec vstores :: "u32 \<Rightarrow> u8 list \<Rightarrow> 'a vm_scheme \<Rightarrow> 'a vm_scheme res" where
  "vstores va [] s = Ok s"
| "vstores va (x # xs) s = andThen (vstore va x s) (vstores (va + 1) xs)"

section \<open>State\<close>

definition PIPESIZE :: nat where "PIPESIZE = 512"
definition NFILE :: nat where "NFILE = 100"

record pipe =
  pi_data :: "u8 list"
  pi_nread :: u32
  pi_nwrite :: u32
  pi_readopen :: bool
  pi_writeopen :: bool

datatype ftype = FD_NONE | FD_PIPE | FD_INODE

record file_t =
  f_type :: ftype
  f_ref :: u32
  f_readable :: bool
  f_writable :: bool
  f_pipe :: u32
  f_ip :: nat
  f_off :: u32

record fil = fs +
  ftable :: "file_t list"
  pipes :: "u32 \<Rightarrow> pipe"

definition upd_pipe :: "u32 \<Rightarrow> (pipe \<Rightarrow> pipe) \<Rightarrow> 'a fil_scheme \<Rightarrow> 'a fil_scheme" where
  "upd_pipe p f s = s\<lparr>pipes := (pipes s)(p := f (pipes s p))\<rparr>"

section \<open>Operations\<close>

definition my_killed :: "'a ptab_scheme \<Rightarrow> (bool \<times> 'a ptab_scheme) res" where
  "my_killed s = andThen (myproc s) (\<lambda>(p, s).
     case p of None \<Rightarrow> Fault 0 | Some i \<Rightarrow> Ok (p_killed (procs s ! i), s))"

definition pipeclose :: "u32 \<Rightarrow> bool \<Rightarrow> 'a fil_scheme \<Rightarrow> 'a fil_scheme res" where
  "pipeclose p writable s =
     andThen (acquire (PIPE_LOCK p) s) (\<lambda>s.
     andThen
       (if writable then wakeup (CHAN_NREAD p) (upd_pipe p (\<lambda>q. q\<lparr>pi_writeopen := False\<rparr>) s)
        else wakeup (CHAN_NWRITE p) (upd_pipe p (\<lambda>q. q\<lparr>pi_readopen := False\<rparr>) s)) (\<lambda>s.
     if \<not> pi_readopen (pipes s p) \<and> \<not> pi_writeopen (pipes s p)
     then andThen (release (PIPE_LOCK p) s) (kfree p)
     else release (PIPE_LOCK p) s))"

definition pipe_full :: "pipe \<Rightarrow> bool" where
  "pipe_full q \<longleftrightarrow> pi_nwrite q = pi_nread q + of_nat PIPESIZE"

definition pipe_empty :: "pipe \<Rightarrow> bool" where
  "pipe_empty q \<longleftrightarrow> pi_nread q = pi_nwrite q"

definition pipe_get :: "pipe \<Rightarrow> u8 \<times> pipe" where
  "pipe_get q = (pi_data q ! (unat (pi_nread q) mod PIPESIZE), q\<lparr>pi_nread := pi_nread q + 1\<rparr>)"

text \<open>Waiting for room; the flag says that the writer must give up.\<close>

fun pipewrite_wait :: "nat \<Rightarrow> ('a fil_scheme \<Rightarrow> 'a fil_scheme) \<Rightarrow> u32 \<Rightarrow> 'a fil_scheme \<Rightarrow> (bool \<times> 'a fil_scheme) res" where
  "pipewrite_wait 0 env p s = Hangs"
| "pipewrite_wait (Suc fuel) env p s =
     (if pipe_full (pipes s p) then
        andThen (if \<not> pi_readopen (pipes s p) then Ok (True, s) else my_killed s) (\<lambda>(stop, s).
          if stop then Ok (True, s)
          else
            andThen (wakeup (CHAN_NREAD p) s) (\<lambda>s.
            andThen (sleep env (CHAN_NWRITE p) (Some (PIPE_LOCK p)) s) (pipewrite_wait fuel env p)))
      else Ok (False, s))"

definition pipe_put :: "u8 \<Rightarrow> pipe \<Rightarrow> pipe" where
  "pipe_put x q = q\<lparr>pi_data := (pi_data q)[unat (pi_nwrite q) mod PIPESIZE := x], pi_nwrite := pi_nwrite q + 1\<rparr>"

primrec pipewrite_loop ::
    "('a fil_scheme, 'w) world_scheme \<Rightarrow> u32 \<Rightarrow> u32 \<Rightarrow> nat \<Rightarrow> nat \<Rightarrow> 'a fil_scheme \<Rightarrow> (bool \<times> 'a fil_scheme) res" where
  "pipewrite_loop w p addr i 0 s = Ok (False, s)"
| "pipewrite_loop w p addr i (Suc left) s =
     andThen (pipewrite_wait (w_fuel w) (w_env w) p s) (\<lambda>(stop, s).
       if stop then Ok (True, s)
       else
         andThen (vload (addr + of_nat i) s) (\<lambda>x.
         pipewrite_loop w p addr (Suc i) left (upd_pipe p (pipe_put x) s)))"

definition pipewrite :: "('a fil_scheme, 'w) world_scheme \<Rightarrow> u32 \<Rightarrow> u32 \<Rightarrow> u32 \<Rightarrow> 'a fil_scheme \<Rightarrow> (u32 \<times> 'a fil_scheme) res" where
  "pipewrite w p addr n s =
     andThen (acquire (PIPE_LOCK p) s) (\<lambda>s.
     andThen (pipewrite_loop w p addr 0 (nat (sint n)) s) (\<lambda>(stop, s).
       if stop then andThen (release (PIPE_LOCK p) s) (\<lambda>s. Ok (- 1, s))
       else
         andThen (wakeup (CHAN_NREAD p) s) (\<lambda>s.
         andThen (release (PIPE_LOCK p) s) (\<lambda>s. Ok (n, s)))))"

fun piperead_wait :: "nat \<Rightarrow> ('a fil_scheme \<Rightarrow> 'a fil_scheme) \<Rightarrow> u32 \<Rightarrow> 'a fil_scheme \<Rightarrow> (bool \<times> 'a fil_scheme) res" where
  "piperead_wait 0 env p s = Hangs"
| "piperead_wait (Suc fuel) env p s =
     (if pipe_empty (pipes s p) \<and> pi_writeopen (pipes s p) then
        andThen (my_killed s) (\<lambda>(stop, s).
          if stop then Ok (True, s)
          else andThen (sleep env (CHAN_NREAD p) (Some (PIPE_LOCK p)) s) (piperead_wait fuel env p))
      else Ok (False, s))"

primrec piperead_loop :: "u32 \<Rightarrow> u32 \<Rightarrow> nat \<Rightarrow> nat \<Rightarrow> 'a fil_scheme \<Rightarrow> (nat \<times> 'a fil_scheme) res" where
  "piperead_loop p addr i 0 s = Ok (i, s)"
| "piperead_loop p addr i (Suc left) s =
     (if pipe_empty (pipes s p) then Ok (i, s)
      else
        let x = fst (pipe_get (pipes s p));
            s = upd_pipe p (\<lambda>q. snd (pipe_get q)) s in
        andThen (vstore (addr + of_nat i) x s) (piperead_loop p addr (Suc i) left))"

definition piperead :: "('a fil_scheme, 'w) world_scheme \<Rightarrow> u32 \<Rightarrow> u32 \<Rightarrow> u32 \<Rightarrow> 'a fil_scheme \<Rightarrow> (u32 \<times> 'a fil_scheme) res" where
  "piperead w p addr n s =
     andThen (acquire (PIPE_LOCK p) s) (\<lambda>s.
     andThen (piperead_wait (w_fuel w) (w_env w) p s) (\<lambda>(stop, s).
       if stop then andThen (release (PIPE_LOCK p) s) (\<lambda>s. Ok (- 1, s))
       else
         andThen (piperead_loop p addr 0 (nat (sint n)) s) (\<lambda>(i, s).
         andThen (wakeup (CHAN_NWRITE p) s) (\<lambda>s.
         andThen (release (PIPE_LOCK p) s) (\<lambda>s. Ok (of_nat i, s))))))"

section \<open>The ring as a queue\<close>

definition pipe_ok :: "pipe \<Rightarrow> bool" where
  "pipe_ok q \<longleftrightarrow> ring_ok PIPESIZE (pi_data q) (pi_nread q) (pi_nwrite q)"

definition pipe_bytes :: "pipe \<Rightarrow> u8 list" where
  "pipe_bytes q = ring_list (pi_data q) (pi_nread q) (pi_nwrite q)"

lemma PIPESIZE_ring: "ring_len PIPESIZE"
  by (simp add: ring_len_def PIPESIZE_def)

interpretation pipe_queue: fifo pipe_ok pipe_bytes PIPESIZE pipe_full pipe_empty pipe_put pipe_get
proof
  fix q :: pipe and x :: u8
  assume ok: "pipe_ok q"
  then have d: "length (pi_data q) = PIPESIZE" and le: "unat (pi_nwrite q - pi_nread q) \<le> PIPESIZE"
    by (auto simp: pipe_ok_def ring_ok_def)
  show "length (pipe_bytes q) \<le> PIPESIZE" using le by (simp add: pipe_bytes_def)
  show full: "pipe_full q \<longleftrightarrow> length (pipe_bytes q) = PIPESIZE"
    using ring_full [OF PIPESIZE_ring] by (simp add: pipe_full_def pipe_bytes_def)
  show "pipe_empty q \<longleftrightarrow> pipe_bytes q = []" by (simp add: pipe_empty_def pipe_bytes_def ring_empty)
  show "pipe_ok (pipe_put x q) \<and> pipe_bytes (pipe_put x q) = pipe_bytes q @ [x]" if "\<not> pipe_full q"
    using ring_put(1) [OF PIPESIZE_ring d, of "pi_nwrite q" "pi_nread q"] ring_put(2) [OF PIPESIZE_ring d, of "pi_nwrite q" "pi_nread q" x] full that le d
    by (simp add: pipe_ok_def ring_ok_def pipe_bytes_def pipe_put_def)
  show "pipe_ok (snd (pipe_get q)) \<and> pipe_bytes q = fst (pipe_get q) # pipe_bytes (snd (pipe_get q))" if "\<not> pipe_empty q"
    using ring_get [OF PIPESIZE_ring d, of "pi_nread q" "pi_nwrite q"] that le d
    by (simp add: pipe_ok_def ring_ok_def pipe_bytes_def pipe_get_def pipe_empty_def)
qed

section \<open>Memory and pipes\<close>

lemma upd_pipe_sel [simp]:
  "mem (upd_pipe p f s) = mem s" "cr3 (upd_pipe p f s) = cr3 s" "pipes (upd_pipe p f s) = (pipes s)(p := f (pipes s p))"
  "thiscpu (upd_pipe p f s) = thiscpu s" "fl_if (upd_pipe p f s) = fl_if s" "held (upd_pipe p f s) = held s"
  "procs (upd_pipe p f s) = procs s"
  by (simp_all add: upd_pipe_def)

lemma upd_pipe_comp: "upd_pipe p g (upd_pipe p f s) = upd_pipe p (\<lambda>q. g (f q)) s"
  by (simp add: upd_pipe_def)

lemma upd_pipe_id: "f (pipes s p) = pipes s p \<Longrightarrow> upd_pipe p f s = s"
  by (simp add: upd_pipe_def)

lemma upd_pipe_cong: "f (pipes s p) = g (pipes s p) \<Longrightarrow> upd_pipe p f s = upd_pipe p g s"
  by (simp add: upd_pipe_def)

text \<open>A read depends only on the memory and the page table register.\<close>

lemma vaddr_cong: "mem s = mem t \<Longrightarrow> cr3 s = cr3 t \<Longrightarrow> vaddr b a s = vaddr b a t"
  by (simp add: vaddr_def)

lemma vloads_cong: "mem s = mem t \<Longrightarrow> cr3 s = cr3 t \<Longrightarrow> vloads a n s = vloads a n t"
proof (induction n arbitrary: a)
  case (Suc n)
  then show ?case using vaddr_cong [of s t] by (simp add: vload_def)
qed simp

lemma length_vloads: "vloads a n s = Ok xs \<Longrightarrow> length xs = n"
  by (induction n arbitrary: a xs) (auto simp: andThen_eq_Ok_iff)

lemma vstore_upd_pipe: "vstore a x (upd_pipe p f s) = andThen (vstore a x s) (\<lambda>s. Ok (upd_pipe p f s))"
proof -
  have "vaddr True a (upd_pipe p f s) = vaddr True a s" by (rule vaddr_cong) simp_all
  then show ?thesis by (cases "vaddr True a s") (simp_all add: vstore_def upd_pipe_def)
qed

lemma vstore_pipes: "vstore a x s = Ok s' \<Longrightarrow> pipes s' = pipes (s :: 'a fil_scheme)"
  by (auto simp: vstore_def andThen_eq_Ok_iff)

lemma vstores_frame:
  "vstores a xs s = Ok s' \<Longrightarrow> \<exists>m. s' = s\<lparr>mem := m\<rparr>"
proof (induction xs arbitrary: a s)
  case Nil
  then show ?case by (metis res.inject(1) vstores.simps(1) kmem.surjective kmem.update_convs(1))
next
  case (Cons x xs)
  then obtain s1 where 1: "vstore a x s = Ok s1" "vstores (a + 1) xs s1 = Ok s'" by (auto simp: andThen_eq_Ok_iff)
  then obtain m where "s1 = s\<lparr>mem := m\<rparr>" by (auto simp: vstore_def andThen_eq_Ok_iff)
  with Cons.IH [OF 1(2)] show ?case by auto
qed

section \<open>Reading and writing\<close>

lemma pipewrite_loop_room:
  fixes s :: "'a fil_scheme"
  assumes "0 < w_fuel w"
  shows "pipe_ok (pipes s p) \<Longrightarrow> length (pipe_bytes (pipes s p)) + n \<le> PIPESIZE \<Longrightarrow> vloads (addr + of_nat i) n s = Ok xs \<Longrightarrow>
    pipewrite_loop w p addr i n s = Ok (False, upd_pipe p (fold pipe_put xs) s)"
proof (induction n arbitrary: i xs s)
  case 0
  then show ?case by (simp add: upd_pipe_id)
next
  case (Suc n)
  obtain f where f: "w_fuel w = Suc f" using assms by (cases "w_fuel w") auto
  have nf: "\<not> pipe_full (pipes s p)" using Suc.prems by (intro pipe_queue.put_not_full) auto
  obtain x ys where x: "vload (addr + of_nat i) s = Ok x" "vloads (addr + of_nat (Suc i)) n s = Ok ys" "xs = x # ys"
    using Suc.prems(3) by (auto simp: andThen_eq_Ok_iff algebra_simps)
  let ?t = "upd_pipe p (pipe_put x) s"
  have q: "pipe_ok (pipes ?t p)" "length (pipe_bytes (pipes ?t p)) + n \<le> PIPESIZE"
    using pipe_queue.put_ok [OF Suc.prems(1) nf, of x] Suc.prems(2) by simp_all
  have "vloads (addr + of_nat (Suc i)) n ?t = Ok ys" using x(2) vloads_cong [of ?t s] by simp
  from Suc.IH [OF q this] show ?case using nf f x by (simp add: upd_pipe_comp o_def)
qed

lemma piperead_loop_eq:
  fixes s :: "'a fil_scheme"
  shows "pipe_ok (pipes s p) \<Longrightarrow> vstores (addr + of_nat i) (take n (pipe_bytes (pipes s p))) s = Ok t \<Longrightarrow>
    piperead_loop p addr i n s = Ok (i + min n (length (pipe_bytes (pipes s p))),
      upd_pipe p (\<lambda>q. snd (get_n pipe_get (min n (length (pipe_bytes (pipes s p)))) q)) t)"
proof (induction n arbitrary: i s t)
  case 0
  then show ?case by (simp add: upd_pipe_id)
next
  case (Suc n)
  show ?case
  proof (cases "pipe_empty (pipes s p)")
    case True
    then have "pipe_bytes (pipes s p) = []" using pipe_queue.emp_iff [OF Suc.prems(1)] by simp
    then show ?thesis using Suc.prems(2) True by (simp add: upd_pipe_id)
  next
    case False
    obtain x q where g: "pipe_get (pipes s p) = (x, q)" by force
    have b: "pipe_bytes (pipes s p) = x # pipe_bytes q" "pipe_ok q" using pipe_queue.get_ok [OF Suc.prems(1) False] g by auto
    let ?f = "\<lambda>q. snd (pipe_get q)"
    obtain s1 where s1: "vstore (addr + of_nat i) x s = Ok s1"
      "vstores (addr + of_nat (Suc i)) (take n (pipe_bytes q)) s1 = Ok t"
      using Suc.prems(2) b by (auto simp: andThen_eq_Ok_iff algebra_simps)
    obtain m where m: "t = s1\<lparr>mem := m\<rparr>" using vstores_frame [OF s1(2)] by blast
    have p1: "pipes s1 = pipes s" using vstore_pipes [OF s1(1)] .
    let ?u = "upd_pipe p ?f s1"
    have u: "pipes ?u p = q" using p1 g by simp
    have "vstores a xs (upd_pipe p ?f s') = andThen (vstores a xs s') (\<lambda>s. Ok (upd_pipe p ?f s))" for a xs and s' :: "'a fil_scheme"
      by (induction xs arbitrary: a s') (auto simp: vstore_upd_pipe res_simps)
    then have vs: "vstores (addr + of_nat (Suc i)) (take n (pipe_bytes (pipes ?u p))) ?u = Ok (upd_pipe p ?f t)"
      using s1(2) u by simp
    have "piperead_loop p addr i (Suc n) s = piperead_loop p addr (Suc i) n ?u"
      using False g s1(1) by (simp add: vstore_upd_pipe)
    also have "\<dots> = Ok (Suc i + min n (length (pipe_bytes q)),
        upd_pipe p (\<lambda>q'. snd (get_n pipe_get (min n (length (pipe_bytes q))) q')) (upd_pipe p ?f t))"
      using Suc.IH [OF _ vs] u b(2) by simp
    finally show ?thesis using b g p1 m
      by (simp add: upd_pipe_comp) (intro upd_pipe_cong, simp add: Let_def split: prod.split)
  qed
qed

lemma vstores_mem:
  "vstores a xs s = Ok t \<Longrightarrow> mem s1 = mem s \<Longrightarrow> cr3 s1 = cr3 s \<Longrightarrow> vstores a xs s1 = Ok (s1\<lparr>mem := mem t\<rparr>)"
proof (induction xs arbitrary: a s s1)
  case Nil
  then show ?case by auto
next
  case (Cons x xs)
  then obtain b where b: "vaddr True a s = Ok b" "vstores (a + 1) xs (s\<lparr>mem := (mem s)(b := x)\<rparr>) = Ok t"
    by (auto simp: vstore_def andThen_eq_Ok_iff)
  have "vaddr True a s1 = Ok b" using b(1) vaddr_cong [of s1 s] Cons.prems by simp
  then show ?case using Cons.IH [OF b(2), of "s1\<lparr>mem := (mem s1)(b := x)\<rparr>"] Cons.prems by (simp add: vstore_def)
qed

text \<open>Leaving a critical section puts the interrupt flag back.\<close>

lemma release_pushed:
  assumes "thiscpu x = cpu_push f c" "\<not> fl_if x" "held x l" "0 \<le> ncli c" "f \<longrightarrow> ncli c = 0"
  shows "release l x = Ok (x\<lparr>held := (held x)(l := False), thiscpu := cpu_settle f c, fl_if := f\<rparr>)"
proof -
  have "ncli (thiscpu x) = 1 \<and> intena (thiscpu x) \<longleftrightarrow> f" using assms by (auto simp: cpu_push_def)
  then show ?thesis using assms by (subst release_eq) (auto simp: wf_cpu_def)
qed

lemma pipewrite_spec:
  fixes s :: "'a fil_scheme"
  assumes c: "in_proc c s" and q: "pipe_ok (pipes s p)" and room: "length (pipe_bytes (pipes s p)) + nat (sint n) \<le> PIPESIZE"
    and xs: "vloads addr (nat (sint n)) s = Ok xs" and w: "0 < w_fuel w"
  shows "pipewrite w p addr n s = Ok (n, (upd_pipe p (fold pipe_put xs) (wakeup1 (CHAN_NREAD p) s))\<lparr>thiscpu := settled s\<rparr>)"
proof -
  have wf: "wf_cpu s" and nl: "\<not> held s (PIPE_LOCK p)" "\<not> held s PTABLE_LOCK" using c by (auto simp: in_proc_def)
  let ?a = "s\<lparr>fl_if := False, thiscpu := cpu_push (fl_if s) (thiscpu s), held := (held s)(PIPE_LOCK p := True)\<rparr>"
  have ac: "acquire (PIPE_LOCK p) s = Ok ?a" using wf nl by (simp add: acquire_eq)
  have "vloads (addr + of_nat 0) (nat (sint n)) ?a = Ok xs" using xs vloads_cong [of ?a s] by simp
  then have lp: "pipewrite_loop w p addr 0 (nat (sint n)) ?a = Ok (False, upd_pipe p (fold pipe_put xs) ?a)"
    using q room w by (intro pipewrite_loop_room) simp_all
  let ?b = "upd_pipe p (fold pipe_put xs) ?a"
  have wb: "wf_cpu ?b" "\<not> held ?b PTABLE_LOCK" using wf nl by (simp_all add: wf_cpu_def)
  have st: "settled ?b = cpu_push (fl_if s) (thiscpu s)" using wf by (simp add: wf_cpu_def)
  have wk: "wakeup (CHAN_NREAD p) ?b = Ok (wakeup1 (CHAN_NREAD p) ?b)"
    using wakeup_eq [OF wb] st by (simp add: wakeup1_def upd_pipe_def)
  have "release (PIPE_LOCK p) (wakeup1 (CHAN_NREAD p) ?b) = Ok ((upd_pipe p (fold pipe_put xs) (wakeup1 (CHAN_NREAD p) s))\<lparr>thiscpu := settled s\<rparr>)"
    using wf nl
    by (subst release_pushed [where f = "fl_if s" and c = "thiscpu s"]) (auto simp: wf_cpu_def wakeup1_def upd_pipe_def intro!: fil.equality)
  then show ?thesis using ac lp wk by (simp add: pipewrite_def)
qed

lemma piperead_spec:
  fixes s :: "'a fil_scheme"
  assumes c: "in_proc c s" and q: "pipe_ok (pipes s p)" and av: "pipe_bytes (pipes s p) \<noteq> [] \<or> \<not> pi_writeopen (pipes s p)"
    and t: "vstores addr (take (nat (sint n)) (pipe_bytes (pipes s p))) s = Ok t" and w: "0 < w_fuel w"
    and k: "k = min (nat (sint n)) (length (pipe_bytes (pipes s p)))"
  shows "piperead w p addr n s = Ok (of_nat k,
    (upd_pipe p (\<lambda>q. snd (get_n pipe_get k q)) (wakeup1 (CHAN_NWRITE p) t))\<lparr>thiscpu := settled s\<rparr>)"
proof -
  have wf: "wf_cpu s" and nl: "\<not> held s (PIPE_LOCK p)" "\<not> held s PTABLE_LOCK" using c by (auto simp: in_proc_def)
  obtain m where m: "t = s\<lparr>mem := m\<rparr>" using vstores_frame [OF t] by blast
  let ?a = "s\<lparr>fl_if := False, thiscpu := cpu_push (fl_if s) (thiscpu s), held := (held s)(PIPE_LOCK p := True)\<rparr>"
  have ac: "acquire (PIPE_LOCK p) s = Ok ?a" using wf nl by (simp add: acquire_eq)
  obtain f where f: "w_fuel w = Suc f" using w by (cases "w_fuel w") auto
  have wt: "piperead_wait (w_fuel w) (w_env w) p ?a = Ok (False, ?a)"
    using av pipe_queue.emp_iff [OF q] f by auto
  have "vstores (addr + of_nat 0) (take (nat (sint n)) (pipe_bytes (pipes ?a p))) ?a = Ok (?a\<lparr>mem := m\<rparr>)"
    using vstores_mem [OF t, of ?a] m by simp
  from piperead_loop_eq [OF _ this]
  have lp: "piperead_loop p addr 0 (nat (sint n)) ?a = Ok (k, upd_pipe p (\<lambda>q. snd (get_n pipe_get k q)) (?a\<lparr>mem := m\<rparr>))"
    using q k by simp
  let ?b = "upd_pipe p (\<lambda>q. snd (get_n pipe_get k q)) (?a\<lparr>mem := m\<rparr>)"
  have wb: "wf_cpu ?b" "\<not> held ?b PTABLE_LOCK" using wf nl by (simp_all add: wf_cpu_def)
  have wk: "wakeup (CHAN_NWRITE p) ?b = Ok (wakeup1 (CHAN_NWRITE p) ?b)"
    using wakeup_eq [OF wb] wf by (simp add: wakeup1_def upd_pipe_def wf_cpu_def)
  have "release (PIPE_LOCK p) (wakeup1 (CHAN_NWRITE p) ?b)
      = Ok ((upd_pipe p (\<lambda>q. snd (get_n pipe_get k q)) (wakeup1 (CHAN_NWRITE p) t))\<lparr>thiscpu := settled s\<rparr>)"
    using wf nl m
    by (subst release_pushed [where f = "fl_if s" and c = "thiscpu s"]) (auto simp: wf_cpu_def wakeup1_def upd_pipe_def intro!: fil.equality)
  then show ?thesis using ac wt lp wk by (simp add: piperead_def)
qed


lemma in_proc_fil: "in_proc c (s\<lparr>pipes := x\<rparr>) = in_proc c s" "in_proc c (s\<lparr>thiscpu := settled s, procs := procs (wakeup1 ch s)\<rparr>) = in_proc c s"
  by (simp_all add: in_proc_def wf_cpu_def wakeup1_def)

text \<open>
  C9. A pipe is a first-in first-out queue. A write that fits returns its length and appends the bytes
  it finds at the user address; a following read stores the oldest bytes, as many as were asked for and
  are there, at the reader's address, returns their number and leaves the rest, in order, also when the
  indices of the ring wrap. No other pipe changes.
\<close>

theorem pipe_fifo:
  fixes s :: "'a fil_scheme"
  assumes c: "in_proc c s" and q: "pipe_ok (pipes s p)" and w: "0 < w_fuel w"
    and room: "length (pipe_bytes (pipes s p)) + nat (sint n) \<le> PIPESIZE"
    and xs: "vloads addr (nat (sint n)) s = Ok xs"
    and bs: "bs = pipe_bytes (pipes s p) @ xs" "bs \<noteq> []" and k: "k = min (nat (sint m)) (length bs)"
    and t: "vstores dst (take k bs) s = Ok t"
  shows "\<exists>s1 s2. pipewrite w p addr n s = Ok (n, s1) \<and> pipe_bytes (pipes s1 p) = bs \<and> mem s1 = mem s
    \<and> piperead w p dst m s1 = Ok (of_nat k, s2) \<and> mem s2 = mem t \<and> pipe_bytes (pipes s2 p) = drop k bs
    \<and> pipe_ok (pipes s2 p) \<and> (\<forall>p'. p' \<noteq> p \<longrightarrow> pipes s2 p' = pipes s p')"
proof -
  define s1 where "s1 = (upd_pipe p (fold pipe_put xs) (wakeup1 (CHAN_NREAD p) s))\<lparr>thiscpu := settled s\<rparr>"
  have w1: "pipewrite w p addr n s = Ok (n, s1)" unfolding s1_def by (rule pipewrite_spec [OF c q room xs w])
  have p1: "pipes s1 = (pipes s)(p := fold pipe_put xs (pipes s p))" "mem s1 = mem s" "cr3 s1 = cr3 s"
    by (simp_all add: s1_def upd_pipe_def wakeup1_def)
  have q1: "pipe_ok (pipes s1 p)" "pipe_bytes (pipes s1 p) = bs"
    using pipe_queue.put_all [OF q, of xs] room length_vloads [OF xs] bs(1) by (simp_all add: p1)
  have c1: "in_proc c s1" using c by (simp add: s1_def in_proc_def wf_cpu_def wakeup1_def)
  have tk: "take (nat (sint m)) (pipe_bytes (pipes s1 p)) = take k bs" using q1 k by (simp add: min_def)
  define t1 where "t1 = s1\<lparr>mem := mem t\<rparr>"
  have t1: "vstores dst (take (nat (sint m)) (pipe_bytes (pipes s1 p))) s1 = Ok t1"
    unfolding tk t1_def using t p1 by (intro vstores_mem) simp_all
  define s2 where "s2 = (upd_pipe p (\<lambda>q. snd (get_n pipe_get k q)) (wakeup1 (CHAN_NWRITE p) t1))\<lparr>thiscpu := settled s1\<rparr>"
  have r: "piperead w p dst m s1 = Ok (of_nat k, s2)"
    unfolding s2_def using bs(2) q1 k by (intro piperead_spec [OF c1 q1(1) _ t1 w]) simp_all
  have p2: "pipes s2 = (pipes s1)(p := snd (get_n pipe_get k (pipes s1 p)))" "mem s2 = mem t"
    by (simp_all add: s2_def t1_def upd_pipe_def wakeup1_def)
  have "pipe_ok (pipes s2 p)" "pipe_bytes (pipes s2 p) = drop k bs"
    using pipe_queue.get_all [OF q1(1), of k] q1(2) k by (simp_all add: p2)
  then show ?thesis using w1 r q1 p1 p2 by auto
qed

section \<open>An example\<close>

definition pipe_zero :: pipe where
  "pipe_zero = \<lparr>pi_data = replicate PIPESIZE 0, pi_nread = 0, pi_nwrite = 0, pi_readopen = True, pi_writeopen = True\<rparr>"

definition file_zero :: file_t where
  "file_zero = \<lparr>f_type = FD_NONE, f_ref = 0, f_readable = False, f_writable = False, f_pipe = 0, f_ip = 0, f_off = 0\<rparr>"

definition fil_example :: fil where
  "fil_example = fs.extend (fs_example\<lparr>mem := (\<lambda>_. 7)\<rparr>) \<lparr>ftable = replicate NFILE file_zero, pipes = (\<lambda>_. pipe_zero)\<rparr>"

definition fil_world :: "fil fsworld" where
  "fil_world = \<lparr>w_fuel = 1, w_env = (\<lambda>s. s), w_iderw = memide_iderw, dev_read = (\<lambda>_. None), dev_write = (\<lambda>_. None)\<rparr>"

lemma fil_example_ok: "in_proc 1 fil_example" "mem fil_example = (\<lambda>_. 7)" "pipes fil_example = (\<lambda>_. pipe_zero)"
proof -
  have "in_proc 1 fs_example" using cache_okD(1) [OF log_invD(1) [OF txnD(1) [OF fs_example_txn]]] .
  then show "in_proc 1 fil_example" by (simp add: fil_example_def fs.defs in_proc_def wf_cpu_def)
  show "mem fil_example = (\<lambda>_. 7)" "pipes fil_example = (\<lambda>_. pipe_zero)" by (simp_all add: fil_example_def fs.defs)
qed

theorem pipe_fifo_witness:
  "\<exists>s1 s2. pipewrite fil_world 0x80400000 0x80100000 3 fil_example = Ok (3, s1)
     \<and> piperead fil_world 0x80400000 0x80200000 2 s1 = Ok (2, s2) \<and> pipe_bytes (pipes s2 0x80400000) = [7]"
proof -
  let ?p = "0x80400000 :: u32"
  have z: "pipe_bytes pipe_zero = []" "pipe_ok pipe_zero"
    by (simp_all add: pipe_bytes_def pipe_ok_def pipe_zero_def ring_list_def ring_ok_def)
  have n: "nat (sint (3 :: u32)) = Suc (Suc (Suc 0))" by simp
  have ld: "vloads 0x80100000 (nat (sint (3 :: u32))) fil_example = Ok [7, 7, 7]"
    unfolding n by (simp add: vload_def vaddr_def KERNBASE_def fil_example_ok)
  obtain t where st: "vstores 0x80200000 (take 2 [7, 7, 7]) fil_example = Ok t"
    by (simp add: vstore_def vaddr_def KERNBASE_def)
  have q: "pipe_ok (pipes fil_example ?p)" "pipe_bytes (pipes fil_example ?p) = []" by (simp_all add: z fil_example_ok)
  have w: "0 < w_fuel fil_world" by (simp add: fil_world_def)
  have room: "length (pipe_bytes (pipes fil_example ?p)) + nat (sint (3 :: u32)) \<le> PIPESIZE" by (simp add: q PIPESIZE_def)
  have bs: "[7, 7, 7] = pipe_bytes (pipes fil_example ?p) @ [7, 7, 7]" by (simp add: q)
  have k: "2 = min (nat (sint (2 :: u32))) (length [7, 7, 7 :: u8])" by simp
  from pipe_fifo [OF fil_example_ok(1) q(1) w room ld bs _ k st]
  obtain s1 s2 where "pipewrite fil_world ?p 0x80100000 3 fil_example = Ok (3, s1)"
    "piperead fil_world ?p 0x80200000 2 s1 = Ok (of_nat 2, s2)" "pipe_bytes (pipes s2 ?p) = drop 2 [7, 7, 7]" by blast
  then show ?thesis by auto
qed


end
