(* ===== verification/File.thy ===== *)
theory File
  imports Pipe
begin

text \<open>
  \<^verbatim>\<open>file.c\<close>: the open-file table, and \<open>pipealloc\<close> of \<^verbatim>\<open>pipe.c\<close>, which fills two entries of it. A file
  pointer is an index into \<^verbatim>\<open>ftable.file\<close>; a null pointer is \<open>None\<close>. Bytes to be written are fetched
  from the caller's memory chunk by chunk, and bytes read are stored there.
\<close>

section \<open>Definitions\<close>

definition upd_file :: "nat \<Rightarrow> (file_t \<Rightarrow> file_t) \<Rightarrow> 'a fil_scheme \<Rightarrow> 'a fil_scheme" where
  "upd_file f g s = s\<lparr>ftable := (ftable s)[f := g (ftable s ! f)]\<rparr>"

definition fileinit :: "'a fil_scheme \<Rightarrow> 'a fil_scheme" where
  "fileinit s = initlock FTABLE_LOCK s"

definition filealloc :: "'a fil_scheme \<Rightarrow> (nat option \<times> 'a fil_scheme) res" where
  "filealloc s =
     andThen (acquire FTABLE_LOCK s) (\<lambda>s.
       case find_idx (\<lambda>f. f_ref f = 0) (ftable s) of
         Some f \<Rightarrow> andThen (release FTABLE_LOCK (upd_file f (\<lambda>f. f\<lparr>f_ref := 1\<rparr>) s)) (\<lambda>s. Ok (Some f, s))
       | None \<Rightarrow> andThen (release FTABLE_LOCK s) (\<lambda>s. Ok (None, s)))"

definition filedup :: "nat \<Rightarrow> 'a fil_scheme \<Rightarrow> (nat \<times> 'a fil_scheme) res" where
  "filedup f s =
     andThen (acquire FTABLE_LOCK s) (\<lambda>s.
       if sint (f_ref (ftable s ! f)) < 1 then Panic ''filedup''
       else andThen (release FTABLE_LOCK (upd_file f (\<lambda>f. f\<lparr>f_ref := f_ref f + 1\<rparr>) s)) (\<lambda>s. Ok (f, s)))"

definition fileclose :: "('a fil_scheme, 'w) world_scheme \<Rightarrow> nat \<Rightarrow> 'a fil_scheme \<Rightarrow> 'a fil_scheme res" where
  "fileclose w f s =
     andThen (acquire FTABLE_LOCK s) (\<lambda>s.
       if sint (f_ref (ftable s ! f)) < 1 then Panic ''fileclose''
       else
         let s = upd_file f (\<lambda>f. f\<lparr>f_ref := f_ref f - 1\<rparr>) s in
         if 0 < sint (f_ref (ftable s ! f)) then release FTABLE_LOCK s
         else
           let ff = ftable s ! f;
               s = upd_file f (\<lambda>f. f\<lparr>f_ref := 0, f_type := FD_NONE\<rparr>) s in
           andThen (release FTABLE_LOCK s) (\<lambda>s.
             case f_type ff of
               FD_PIPE \<Rightarrow> pipeclose (f_pipe ff) (f_writable ff) s
             | FD_INODE \<Rightarrow>
                 andThen (begin_op w s) (\<lambda>s. andThen (iput w (f_ip ff) s) (end_op w))
             | FD_NONE \<Rightarrow> Ok s))"

definition store_stat :: "u32 \<Rightarrow> stat \<Rightarrow> 'a vm_scheme \<Rightarrow> 'a vm_scheme res" where
  "store_stat addr st s =
     andThen (vstores (addr + 4) (put32 (replicate 4 0) 0 (st_dev st)) s) (\<lambda>s.
     andThen (vstores (addr + 8) (put32 (replicate 4 0) 0 (st_ino st)) s) (\<lambda>s.
     andThen (vstores addr (put16 (replicate 2 0) 0 (st_type st)) s) (\<lambda>s.
     andThen (vstores (addr + 12) (put16 (replicate 2 0) 0 (st_nlink st)) s) (\<lambda>s.
     vstores (addr + 16) (put32 (replicate 4 0) 0 (st_size st)) s))))"

definition filestat :: "('a fil_scheme, 'w) world_scheme \<Rightarrow> nat \<Rightarrow> u32 \<Rightarrow> 'a fil_scheme \<Rightarrow> (u32 \<times> 'a fil_scheme) res" where
  "filestat w f addr s =
     (if f_type (ftable s ! f) = FD_INODE then
        andThen (ilock w (Some (f_ip (ftable s ! f))) s) (\<lambda>s.
        andThen (store_stat addr (stati (f_ip (ftable s ! f)) s) s) (\<lambda>s.
        andThen (iunlock (Some (f_ip (ftable s ! f))) s) (\<lambda>s. Ok (0, s))))
      else Ok (- 1, s))"

definition fileread :: "('a fil_scheme, 'w) fsworld_scheme \<Rightarrow> nat \<Rightarrow> u32 \<Rightarrow> u32 \<Rightarrow> 'a fil_scheme \<Rightarrow> (u32 \<times> 'a fil_scheme) res" where
  "fileread w f addr n s =
     (if \<not> f_readable (ftable s ! f) then Ok (- 1, s)
      else case f_type (ftable s ! f) of
        FD_PIPE \<Rightarrow> piperead w (f_pipe (ftable s ! f)) addr n s
      | FD_INODE \<Rightarrow>
          andThen (ilock w (Some (f_ip (ftable s ! f))) s) (\<lambda>s.
          andThen (readi w (f_ip (ftable s ! f)) (f_off (ftable s ! f)) n s) (\<lambda>((r, bytes), s).
          andThen (vstores addr bytes s) (\<lambda>s.
            let s = (if 0 < sint r then upd_file f (\<lambda>f. f\<lparr>f_off := f_off f + r\<rparr>) s else s) in
            andThen (iunlock (Some (f_ip (ftable s ! f))) s) (\<lambda>s. Ok (r, s)))))
      | FD_NONE \<Rightarrow> Panic ''fileread'')"

definition FILEWRITE_MAX :: u32 where
  "FILEWRITE_MAX = of_nat ((MAXOPBLOCKS - 1 - 1 - 2) div 2 * 512)"

text \<open>The loop over chunks; every chunk but the last has \<^verbatim>\<open>max\<close> bytes, which bounds the number of rounds.\<close>

fun filewrite_loop :: "('a fil_scheme, 'w) fsworld_scheme \<Rightarrow> nat \<Rightarrow> nat \<Rightarrow> u32 \<Rightarrow> u32 \<Rightarrow> u32 \<Rightarrow> 'a fil_scheme \<Rightarrow> (u32 \<times> 'a fil_scheme) res" where
  "filewrite_loop w 0 f addr n i s = Hangs"
| "filewrite_loop w (Suc rounds) f addr n i s =
     (if \<not> sint i < sint n then Ok (if i = n then n else - 1, s)
      else
        let n1 = (if sint (n - i) > sint FILEWRITE_MAX then FILEWRITE_MAX else n - i) in
        andThen (begin_op w s) (\<lambda>s.
        andThen (ilock w (Some (f_ip (ftable s ! f))) s) (\<lambda>s.
        andThen (vloads (addr + i) (unat n1) s) (\<lambda>src.
        andThen (writei w (f_ip (ftable s ! f)) src (f_off (ftable s ! f)) n1 s) (\<lambda>(r, s).
          let s = (if 0 < sint r then upd_file f (\<lambda>f. f\<lparr>f_off := f_off f + r\<rparr>) s else s) in
          andThen (iunlock (Some (f_ip (ftable s ! f))) s) (\<lambda>s.
          andThen (end_op w s) (\<lambda>s.
            if sint r < 0 then Ok (if i = n then n else - 1, s)
            else if r \<noteq> n1 then Panic ''short filewrite''
            else filewrite_loop w rounds f addr n (i + r) s)))))))"

definition filewrite :: "('a fil_scheme, 'w) fsworld_scheme \<Rightarrow> nat \<Rightarrow> u32 \<Rightarrow> u32 \<Rightarrow> 'a fil_scheme \<Rightarrow> (u32 \<times> 'a fil_scheme) res" where
  "filewrite w f addr n s =
     (if \<not> f_writable (ftable s ! f) then Ok (- 1, s)
      else case f_type (ftable s ! f) of
        FD_PIPE \<Rightarrow> pipewrite w (f_pipe (ftable s ! f)) addr n s
      | FD_INODE \<Rightarrow> filewrite_loop w (Suc (unat n)) f addr n 0 s
      | FD_NONE \<Rightarrow> Panic ''filewrite'')"

definition new_pipe :: "pipe \<Rightarrow> pipe" where
  "new_pipe q = q\<lparr>pi_readopen := True, pi_writeopen := True, pi_nwrite := 0, pi_nread := 0\<rparr>"

definition pipe_bad :: "('a fil_scheme, 'w) world_scheme \<Rightarrow> nat option \<Rightarrow> nat option \<Rightarrow> 'a fil_scheme \<Rightarrow> ((nat \<times> nat) option \<times> 'a fil_scheme) res" where
  "pipe_bad w f0 f1 s =
     andThen (case f0 of Some f \<Rightarrow> fileclose w f s | None \<Rightarrow> Ok s) (\<lambda>s.
     andThen (case f1 of Some f \<Rightarrow> fileclose w f s | None \<Rightarrow> Ok s) (\<lambda>s. Ok (None, s)))"

definition pipealloc :: "('a fil_scheme, 'w) world_scheme \<Rightarrow> 'a fil_scheme \<Rightarrow> ((nat \<times> nat) option \<times> 'a fil_scheme) res" where
  "pipealloc w s =
     andThen (filealloc s) (\<lambda>(f0, s).
       case f0 of
         None \<Rightarrow> pipe_bad w None None s
       | Some r \<Rightarrow>
           andThen (filealloc s) (\<lambda>(f1, s).
             case f1 of
               None \<Rightarrow> pipe_bad w (Some r) None s
             | Some wr \<Rightarrow>
                 andThen (kalloc s) (\<lambda>(p, s).
                   if p = 0 then pipe_bad w (Some r) (Some wr) s
                   else
                     let s = initlock (PIPE_LOCK p) (upd_pipe p new_pipe s);
                         s = upd_file r (\<lambda>f. f\<lparr>f_type := FD_PIPE, f_readable := True, f_writable := False, f_pipe := p\<rparr>) s;
                         s = upd_file wr (\<lambda>f. f\<lparr>f_type := FD_PIPE, f_readable := False, f_writable := True, f_pipe := p\<rparr>) s in
                     Ok (Some (r, wr), s))))"

end
