(* ===== verification/Lifecycle.thy ===== *)
theory Lifecycle
  imports File
begin

text \<open>
  The life of a process (\<^verbatim>\<open>proc.c\<close>): the first process, growing memory, \<open>fork\<close>, \<open>exit\<close>, \<open>wait\<close> and the
  first return to user space.

  The parameter \<open>w\<close> of the kernel gives what the hardware answers: \<open>w_inb\<close> and \<open>w_inl\<close> read an I/O port,
  \<open>w_cr2\<close> the faulting address, \<open>w_lapicr\<close> and \<open>w_ioapicr\<close> a register of an interrupt controller. What the
  kernel sends to them is recorded in order in \<open>port_out\<close>, \<open>lapic_out\<close> and \<open>ioapic_out\<close>.

  \<open>exit\<close> prints the name and pid found one past the end of the process table; what memory holds
  there is the component \<open>w_past\<close> of the parameter \<open>w\<close>. The steps of \<open>exit\<close> before it gives up the CPU
  for good are the separate definition \<open>exit_prep\<close>.
\<close>

section \<open>Definitions\<close>

record 's kworld = "'s fsworld" +
  w_past :: proc
  w_inb :: "u16 \<Rightarrow> 's \<Rightarrow> u8 \<times> 's"
  w_inl :: "u16 \<Rightarrow> 's \<Rightarrow> u32 \<times> 's"
  w_cr2 :: "'s \<Rightarrow> u32"
  w_lapicr :: "u32 \<Rightarrow> 's \<Rightarrow> u32"
  w_ioapicr :: "u32 \<Rightarrow> 's \<Rightarrow> u32"

record krn = fil +
  forkret_first :: bool
  input_buf :: "u8 list"
  input_r :: u32
  input_w :: u32
  input_e :: u32
  kbd_shift :: u32
  idequeue :: "nat list"
  havedisk1 :: bool
  port_out :: "(u16 \<times> u32) list"
  lapic :: u32
  lapic_out :: "(u32 \<times> u32) list"
  ioapicid :: u8
  ioapic_out :: "(u32 \<times> u32) list"
  idt :: "gatedesc list"
  cpus :: "cpu list"

definition chars :: "u8 list \<Rightarrow> string" where
  "chars bs = map (\<lambda>b. char_of (unat b)) bs"


definition store16 :: "(u32 \<Rightarrow> u8) \<Rightarrow> u32 \<Rightarrow> u16 \<Rightarrow> (u32 \<Rightarrow> u8)" where
  "store16 m a v = m(a := ucast v, a + 1 := ucast (drop_bit 8 v))"

definition curproc :: "'a ptab_scheme \<Rightarrow> (nat \<times> 'a ptab_scheme) res" where
  "curproc s = andThen (myproc s) (\<lambda>(p, s). case p of None \<Rightarrow> Fault 0 | Some i \<Rightarrow> Ok (i, s))"

definition init_tf :: "u32 \<Rightarrow> (u32 \<Rightarrow> u8) \<Rightarrow> (u32 \<Rightarrow> u8)" where
  "init_tf tf m =
     (let m = memset m tf 0 TF_SIZE;
          ucode = of_nat (SEG_UCODE * 8) OR 3; udata = of_nat (SEG_UDATA * 8) OR 3;
          m = store16 m (tf + TF_cs) ucode;
          m = store16 m (tf + TF_ds) udata;
          m = store16 m (tf + TF_es) udata;
          m = store16 m (tf + TF_ss) udata;
          m = store32 m (tf + TF_eflags) FL_IF;
          m = store32 m (tf + TF_esp) PGSIZE in
      store32 m (tf + TF_eip) 0)"

definition userinit :: "('a fs_scheme, 'w) fsworld_scheme \<Rightarrow> u32 \<Rightarrow> u32 \<Rightarrow> 'a fs_scheme \<Rightarrow> 'a fs_scheme res" where
  "userinit w initcode initcode_size s =
     andThen (allocproc s) (\<lambda>(p, s).
       let s = s\<lparr>initproc := p\<rparr> in
       case p of
         None \<Rightarrow> Fault 0
       | Some i \<Rightarrow>
           andThen (setupkvm s) (\<lambda>(pgdir, s).
             let s = upd_proc i (\<lambda>q. q\<lparr>p_pgdir := pgdir\<rparr>) s in
             if pgdir = 0 then Panic ''userinit: out of memory?''
             else
               andThen (inituvm pgdir initcode initcode_size s) (\<lambda>s.
                 let s = upd_proc i (\<lambda>q. q\<lparr>p_sz := PGSIZE\<rparr>) s;
                     s = s\<lparr>mem := init_tf (p_tf (procs s ! i)) (mem s)\<rparr>;
                     s = upd_proc i (\<lambda>q. q\<lparr>p_name := ''initcode''\<rparr>) s in
                 andThen (namei w [SLASH] s) (\<lambda>(d, s).
                   let s = upd_proc i (\<lambda>q. q\<lparr>p_cwd := d\<rparr>) s in
                   andThen (acquire PTABLE_LOCK s) (\<lambda>s.
                   release PTABLE_LOCK (upd_proc i (\<lambda>q. q\<lparr>p_state := RUNNABLE\<rparr>) s))))))"

definition growproc :: "u32 \<Rightarrow> 'a ptab_scheme \<Rightarrow> (u32 \<times> 'a ptab_scheme) res" where
  "growproc n s =
     andThen (curproc s) (\<lambda>(i, s).
       let sz = p_sz (procs s ! i); pgdir = p_pgdir (procs s ! i) in
       andThen
         (if 0 < sint n then andThen (allocuvm pgdir sz (sz + n) s) (\<lambda>(sz, s). Ok (if sz = 0 then None else Some sz, s))
          else if sint n < 0 then andThen (deallocuvm pgdir sz (sz + n) s) (\<lambda>(sz, s). Ok (if sz = 0 then None else Some sz, s))
          else Ok (Some sz, s)) (\<lambda>(r, s).
       case r of
         None \<Rightarrow> Ok (- 1, s)
       | Some sz \<Rightarrow>
           let s = upd_proc i (\<lambda>q. q\<lparr>p_sz := sz\<rparr>) s in
           andThen (switchuvm (p_kstack (procs s ! i)) (p_pgdir (procs s ! i)) s) (\<lambda>s. Ok (0, s))))"

primrec fork_files :: "nat \<Rightarrow> nat \<Rightarrow> nat list \<Rightarrow> 'a fil_scheme \<Rightarrow> 'a fil_scheme res" where
  "fork_files cur np [] s = Ok s"
| "fork_files cur np (i # is) s =
     andThen
       (case p_ofile (procs s ! cur) ! i of
          None \<Rightarrow> Ok s
        | Some f \<Rightarrow> andThen (filedup f s) (\<lambda>(f, s). Ok (upd_proc np (\<lambda>q. q\<lparr>p_ofile := (p_ofile q)[i := Some f]\<rparr>) s)))
       (fork_files cur np is)"

definition fork :: "'a fil_scheme \<Rightarrow> (u32 \<times> 'a fil_scheme) res" where
  "fork s =
     andThen (curproc s) (\<lambda>(cur, s).
     andThen (allocproc s) (\<lambda>(np, s).
       case np of
         None \<Rightarrow> Ok (- 1, s)
       | Some n \<Rightarrow>
           andThen (copyuvm (p_pgdir (procs s ! cur)) (p_sz (procs s ! cur)) s) (\<lambda>(pgdir, s).
             let s = upd_proc n (\<lambda>q. q\<lparr>p_pgdir := pgdir\<rparr>) s in
             if pgdir = 0 then
               andThen (kfree (p_kstack (procs s ! n)) s) (\<lambda>s.
               Ok (- 1, upd_proc n (\<lambda>q. q\<lparr>p_kstack := 0, p_state := UNUSED\<rparr>) s))
             else
               let s = upd_proc n (\<lambda>q. q\<lparr>p_sz := p_sz (procs s ! cur), p_parent := Some cur\<rparr>) s;
                   tf = p_tf (procs s ! n);
                   s = s\<lparr>mem := memmove (mem s) tf (p_tf (procs s ! cur)) TF_SIZE\<rparr>;
                   s = s\<lparr>mem := store32 (mem s) (tf + TF_eax) 0\<rparr> in
               andThen (fork_files cur n [0..<NOFILE] s) (\<lambda>s.
                 case p_cwd (procs s ! cur) of
                   None \<Rightarrow> Fault 0
                 | Some d \<Rightarrow>
                     andThen (idup d s) (\<lambda>(d, s).
                       let s = upd_proc n (\<lambda>q. q\<lparr>p_cwd := Some d, p_name := take 15 (p_name (procs s ! cur))\<rparr>) s;
                           pid = p_pid (procs s ! n) in
                       andThen (acquire PTABLE_LOCK s) (\<lambda>s.
                       andThen (release PTABLE_LOCK (upd_proc n (\<lambda>q. q\<lparr>p_state := RUNNABLE\<rparr>) s)) (\<lambda>s.
                       Ok (pid, s))))))))"

primrec exit_files :: "('a fil_scheme, 'w) world_scheme \<Rightarrow> nat \<Rightarrow> nat list \<Rightarrow> 'a fil_scheme \<Rightarrow> 'a fil_scheme res" where
  "exit_files w cur [] s = Ok s"
| "exit_files w cur (fd # fds) s =
     andThen
       (case p_ofile (procs s ! cur) ! fd of
          None \<Rightarrow> Ok s
        | Some f \<Rightarrow> andThen (fileclose w f s) (\<lambda>s. Ok (upd_proc cur (\<lambda>q. q\<lparr>p_ofile := (p_ofile q)[fd := None]\<rparr>) s)))
       (exit_files w cur fds)"

definition chan_proc :: "nat option \<Rightarrow> chan" where
  "chan_proc p = (case p of None \<Rightarrow> CHAN_NULL | Some i \<Rightarrow> CHAN_PROC i)"

primrec pass_children :: "nat \<Rightarrow> nat list \<Rightarrow> 'a ptab_scheme \<Rightarrow> 'a ptab_scheme" where
  "pass_children cur [] s = s"
| "pass_children cur (p # ps) s =
     pass_children cur ps
       (if p_parent (procs s ! p) = Some cur then
          let s = upd_proc p (\<lambda>q. q\<lparr>p_parent := initproc s\<rparr>) s in
          if p_state (procs s ! p) = ZOMBIE then wakeup1 (chan_proc (initproc s)) s else s
        else s)"

definition finished_fmt :: string where
  "finished_fmt = ''process %s (%d)finished -----------------------------------------------------'' @ [CHR 0x0A]"

definition exit_prep :: "('a fil_scheme, 'w) kworld_scheme \<Rightarrow> 'a fil_scheme \<Rightarrow> 'a fil_scheme res" where
  "exit_prep w s =
     andThen (curproc s) (\<lambda>(cur, s).
       if initproc s = Some cur then Panic ''init exiting''
       else
         andThen (exit_files w cur [0..<NOFILE] s) (\<lambda>s.
         andThen (begin_op w s) (\<lambda>s.
         andThen (case p_cwd (procs s ! cur) of None \<Rightarrow> Fault 0 | Some d \<Rightarrow> iput w d s) (\<lambda>s.
         andThen (end_op w s) (\<lambda>s.
           let s = upd_proc cur (\<lambda>q. q\<lparr>p_cwd := None\<rparr>) s in
           andThen (acquire PTABLE_LOCK s) (\<lambda>s.
             let s = wakeup1 (chan_proc (p_parent (procs s ! cur))) s;
                 s = pass_children cur [0..<NPROC] s;
                 s = upd_proc cur (\<lambda>q. q\<lparr>p_state := ZOMBIE, p_terminate_time := ticks s, p_init_time := 0\<rparr>) s in
             cprintf finished_fmt [AStr (Some (p_name (w_past w))), ANum (p_pid (w_past w))] s))))))"

definition exit :: "('a fil_scheme, 'w) kworld_scheme \<Rightarrow> 'a fil_scheme \<Rightarrow> 'a fil_scheme res" where
  "exit w s =
     andThen (exit_prep w s) (\<lambda>s.
     andThen (sched (w_env w) s) (\<lambda>s. Panic ''zombie exit''))"

definition reap :: "nat \<Rightarrow> 'a ptab_scheme \<Rightarrow> (u32 \<times> 'a ptab_scheme) res" where
  "reap p s =
     (let pid = p_pid (procs s ! p) in
      andThen (kfree (p_kstack (procs s ! p)) s) (\<lambda>s.
        let s = upd_proc p (\<lambda>q. q\<lparr>p_kstack := 0\<rparr>) s in
        andThen (freevm (p_pgdir (procs s ! p)) s) (\<lambda>s.
          let s = upd_proc p (\<lambda>q. q\<lparr>p_pid := 0, p_parent := None, p_name := '''', p_killed := False, p_state := UNUSED\<rparr>) s in
          andThen (release PTABLE_LOCK s) (\<lambda>s. Ok (pid, s)))))"

fun wait_loop :: "nat \<Rightarrow> ('a ptab_scheme \<Rightarrow> 'a ptab_scheme) \<Rightarrow> nat \<Rightarrow> 'a ptab_scheme \<Rightarrow> (u32 \<times> 'a ptab_scheme) res" where
  "wait_loop 0 env cur s = Hangs"
| "wait_loop (Suc fuel) env cur s =
     (case find_idx (\<lambda>p. p_parent p = Some cur \<and> p_state p = ZOMBIE) (procs s) of
        Some p \<Rightarrow> reap p s
      | None \<Rightarrow>
          if \<not> list_ex (\<lambda>p. p_parent p = Some cur) (procs s) \<or> p_killed (procs s ! cur)
          then andThen (release PTABLE_LOCK s) (\<lambda>s. Ok (- 1, s))
          else andThen (sleep env (CHAN_PROC cur) (Some PTABLE_LOCK) s) (wait_loop fuel env cur))"

definition wait :: "('a ptab_scheme, 'w) world_scheme \<Rightarrow> 'a ptab_scheme \<Rightarrow> (u32 \<times> 'a ptab_scheme) res" where
  "wait w s =
     andThen (curproc s) (\<lambda>(cur, s).
     andThen (acquire PTABLE_LOCK s) (wait_loop (w_fuel w) (w_env w) cur))"

definition forkret :: "('a krn_scheme, 'w) world_scheme \<Rightarrow> 'a krn_scheme \<Rightarrow> 'a krn_scheme res" where
  "forkret w s =
     andThen (release PTABLE_LOCK s) (\<lambda>s.
       if forkret_first s then
         andThen (iinit w ROOTDEV (s\<lparr>forkret_first := False\<rparr>)) (initlog w ROOTDEV)
       else Ok s)"

end
