(* ===== verification/Syscall_Args.thy ===== *)
theory Syscall_Args
  imports Lifecycle
begin

text \<open>
  Arguments of system calls (\<^verbatim>\<open>syscall.c\<close>): words and strings in the memory of the calling process,
  checked against its size before they are read. A failed check is \<open>None\<close> (the source returns -1); a
  string is the list of its bytes.
\<close>

section \<open>Definitions\<close>

definition le32 :: "u8 list \<Rightarrow> u32" where
  "le32 bs = get32 bs 0"

definition fetchint :: "u32 \<Rightarrow> 'a ptab_scheme \<Rightarrow> (u32 option \<times> 'a ptab_scheme) res" where
  "fetchint addr s =
     andThen (curproc s) (\<lambda>(i, s).
       let sz = p_sz (procs s ! i) in
       if addr \<ge> sz \<or> addr + 4 > sz then Ok (None, s)
       else andThen (vloads addr 4 s) (\<lambda>bs. Ok (Some (le32 bs), s)))"

primrec fetchstr_from :: "nat \<Rightarrow> u32 \<Rightarrow> 'a vm_scheme \<Rightarrow> u8 list option res" where
  "fetchstr_from 0 a s = Ok None"
| "fetchstr_from (Suc n) a s =
     andThen (vload a s) (\<lambda>c.
       if c = 0 then Ok (Some [])
       else andThen (fetchstr_from n (a + 1) s) (\<lambda>r. Ok (map_option ((#) c) r)))"

definition fetchstr :: "u32 \<Rightarrow> 'a ptab_scheme \<Rightarrow> (u8 list option \<times> 'a ptab_scheme) res" where
  "fetchstr addr s =
     andThen (curproc s) (\<lambda>(i, s).
       let sz = p_sz (procs s ! i) in
       if addr \<ge> sz then Ok (None, s)
       else andThen (fetchstr_from (unat (sz - addr)) addr s) (\<lambda>r. Ok (r, s)))"

definition argint :: "u32 \<Rightarrow> 'a ptab_scheme \<Rightarrow> (u32 option \<times> 'a ptab_scheme) res" where
  "argint n s =
     andThen (curproc s) (\<lambda>(i, s).
     fetchint (load32 (mem s) (p_tf (procs s ! i) + TF_esp) + 4 + 4 * n) s)"

definition argptr :: "u32 \<Rightarrow> u32 \<Rightarrow> 'a ptab_scheme \<Rightarrow> (u32 option \<times> 'a ptab_scheme) res" where
  "argptr n size_n s =
     andThen (curproc s) (\<lambda>(c, s).
     andThen (argint n s) (\<lambda>(r, s).
       case r of
         None \<Rightarrow> Ok (None, s)
       | Some i \<Rightarrow>
           let sz = p_sz (procs s ! c) in
           if sint size_n < 0 \<or> i \<ge> sz \<or> i + size_n > sz then Ok (None, s) else Ok (Some i, s)))"

definition argstr :: "u32 \<Rightarrow> 'a ptab_scheme \<Rightarrow> (u8 list option \<times> 'a ptab_scheme) res" where
  "argstr n s =
     andThen (argint n s) (\<lambda>(r, s).
       case r of None \<Rightarrow> Ok (None, s) | Some addr \<Rightarrow> fetchstr addr s)"

section \<open>Bounds\<close>

lemma curproc_eq: "in_proc c s \<Longrightarrow> curproc s = Ok (c, s\<lparr>thiscpu := settled s\<rparr>)"
  by (simp add: curproc_def in_proc_def myproc_eq)

lemma in_proc_settled: "in_proc c (s\<lparr>thiscpu := settled s\<rparr>) = in_proc c s"
  by (simp add: in_proc_def wf_cpu_def)

text \<open>No sum of an address below the process size and a C size can wrap, as user memory ends at \<^verbatim>\<open>KERNBASE\<close>.\<close>

lemma no_wrap:
  fixes a n sz :: u32
  assumes "sz \<le> KERNBASE" "a < sz" "0 \<le> sint n"
  shows "a + n > sz \<longleftrightarrow> unat sz < unat a + nat (sint n)"
proof -
  have "sint n < 2147483648" using sint_lt [of n] by simp
  then have n: "nat (sint n) = unat n" "unat n < 2147483648" using sint_nonneg_unat [OF assms(3)] by linarith+
  have "unat a < 2147483648" using assms(1,2) by (simp add: word_le_nat_alt word_less_nat_alt KERNBASE_def)
  then have "unat (a + n) = unat a + unat n" using n(2) by (subst unat_add_lem [THEN iffD1]) auto
  then show ?thesis using n(1) by (simp add: word_less_nat_alt)
qed

lemma fetchint_eq:
  assumes c: "in_proc c s" and sz: "sz = p_sz (procs s ! c)" "sz \<le> KERNBASE"
  shows "fetchint a s =
    (if unat sz < unat a + 4 then Ok (None, s\<lparr>thiscpu := settled s\<rparr>)
     else andThen (vloads a 4 s) (\<lambda>bs. Ok (Some (le32 bs), s\<lparr>thiscpu := settled s\<rparr>)))"
proof -
  have v: "vloads a 4 (s\<lparr>thiscpu := settled s\<rparr>) = vloads a 4 s" by (rule vloads_cong) simp_all
  have "a \<ge> sz \<or> a + 4 > sz \<longleftrightarrow> unat sz < unat a + 4"
    using no_wrap [OF sz(2), of a 4] by (cases "a < sz") (auto simp: word_less_nat_alt word_le_nat_alt)
  then show ?thesis using v by (simp add: fetchint_def curproc_eq [OF c] Let_def flip: sz(1))
qed

lemma fetchstr_from_spec:
  "fetchstr_from n a s = Ok (Some bs) \<Longrightarrow>
   length bs < n \<and> 0 \<notin> set bs \<and> vloads a (length bs) s = Ok bs \<and> vload (a + of_nat (length bs)) s = Ok 0"
proof (induction n arbitrary: a bs)
  case (Suc n)
  then obtain x where x: "vload a s = Ok x" by (auto simp: andThen_eq_Ok_iff)
  show ?case
  proof (cases "x = 0")
    case True
    then show ?thesis using Suc.prems x by auto
  next
    case False
    then obtain ys where ys: "fetchstr_from n (a + 1) s = Ok (Some ys)" "bs = x # ys"
      using Suc.prems x by (auto simp: andThen_eq_Ok_iff)
    from Suc.IH [OF ys(1)] show ?thesis using x False ys(2) by (simp add: algebra_simps)
  qed
qed simp

lemma fetchstr_eq:
  assumes c: "in_proc c s" and sz: "sz = p_sz (procs s ! c)"
  shows "fetchstr a s =
    (if a \<ge> sz then Ok (None, s\<lparr>thiscpu := settled s\<rparr>)
     else andThen (fetchstr_from (unat (sz - a)) a s) (\<lambda>r. Ok (r, s\<lparr>thiscpu := settled s\<rparr>)))"
proof -
  have "fetchstr_from n a (s\<lparr>thiscpu := settled s\<rparr>) = fetchstr_from n a s" for n a
    by (induction n arbitrary: a) (simp_all add: vload_def vaddr_cong [of "s\<lparr>thiscpu := settled s\<rparr>" s] cong: if_cong)
  then show ?thesis by (simp add: fetchstr_def curproc_eq [OF c] Let_def flip: sz)
qed

text \<open>
  C37. What a system call takes from its caller lies in the caller's memory: a word and a buffer of a
  given size end at or before the process size, without wrap-around, a negative size is refused, and a
  string ends with a NUL that is still inside. Nothing but the interrupt bookkeeping changes.
\<close>

theorem syscall_args_in_bounds:
  assumes c: "in_proc c s" and sz: "sz = p_sz (procs s ! c)" "sz \<le> KERNBASE"
  shows "(\<forall>v s'. fetchint a s = Ok (Some v, s') \<longrightarrow> unat a + 4 \<le> unat sz \<and> s' = s\<lparr>thiscpu := settled s\<rparr>)
    \<and> (\<forall>p s'. argptr n k s = Ok (Some p, s') \<longrightarrow>
         0 \<le> sint k \<and> p < sz \<and> unat p + nat (sint k) \<le> unat sz \<and> s' = s\<lparr>thiscpu := settled s\<rparr>)
    \<and> (\<forall>bs s'. fetchstr a s = Ok (Some bs, s') \<longrightarrow>
         unat a + length bs < unat sz \<and> 0 \<notin> set bs \<and> vloads a (length bs) s = Ok bs
         \<and> vload (a + of_nat (length bs)) s = Ok 0 \<and> s' = s\<lparr>thiscpu := settled s\<rparr>)"
proof (intro conjI allI impI)
  let ?t = "s\<lparr>thiscpu := settled s\<rparr>"
  fix v s' assume "fetchint a s = Ok (Some v, s')"
  then show "unat a + 4 \<le> unat sz" "s' = ?t"
    using fetchint_eq [OF c sz, of a] by (auto simp: andThen_eq_Ok_iff split: if_splits)
next
  let ?t = "s\<lparr>thiscpu := settled s\<rparr>"
  fix p s' assume r: "argptr n k s = Ok (Some p, s')"
  have ct: "in_proc c ?t" "p_sz (procs ?t ! c) = sz" using c sz by (simp_all add: in_proc_settled)
  have st: "settled ?t = settled s" "?t\<lparr>thiscpu := settled ?t\<rparr> = ?t" by simp_all
  have ai: "argint n ?t = Ok (x, u) \<Longrightarrow> u = ?t" for x u
    using fetchint_eq [OF ct(1) ct(2) [symmetric] sz(2)] st
    by (auto simp: argint_def curproc_eq [OF ct(1)] andThen_eq_Ok_iff split: if_splits)
  have "0 \<le> sint k \<and> p < sz \<and> \<not> p + k > sz \<and> s' = ?t"
    using r ai ct(2) by (auto simp: argptr_def curproc_eq [OF c] andThen_eq_Ok_iff Let_def not_less not_le split: option.splits if_splits)
  then show "0 \<le> sint k" "p < sz" "unat p + nat (sint k) \<le> unat sz" "s' = ?t"
    using no_wrap [OF sz(2), of p k] by auto
next
  let ?t = "s\<lparr>thiscpu := settled s\<rparr>"
  fix bs s' assume "fetchstr a s = Ok (Some bs, s')"
  then have f: "a < sz" "fetchstr_from (unat (sz - a)) a s = Ok (Some bs)" "s' = ?t"
    using fetchstr_eq [OF c sz(1), of a] by (auto simp: andThen_eq_Ok_iff split: if_splits)
  have "unat (sz - a) = unat sz - unat a" using f(1) by (simp add: unat_sub less_imp_le)
  with fetchstr_from_spec [OF f(2)]
  show "unat a + length bs < unat sz" "0 \<notin> set bs" "vloads a (length bs) s = Ok bs" "vload (a + of_nat (length bs)) s = Ok 0"
    by auto
  show "s' = ?t" using f by simp
qed


section \<open>An example\<close>

text \<open>A process of one page at physical address 0x3000, with a string at address 16.\<close>

definition user_mem :: memory where
  "user_mem = (\<lambda>_. 0)(0x80001000 := 7, 0x80001001 := 0x20, 0x80002000 := 7, 0x80002001 := 0x30, 0x80003010 := 97, 0x80003011 := 98)"

definition user_example :: fil where
  "user_example = fil_example\<lparr>mem := user_mem, cr3 := 0x1000, procs := (procs fil_example)[1 := (procs fil_example ! 1)\<lparr>p_sz := 0x1000\<rparr>]\<rparr>"

lemma user_example_ok: "in_proc 1 user_example" "p_sz (procs user_example ! 1) = 0x1000" "mem user_example = user_mem" "cr3 user_example = 0x1000"
  using fil_example_ok(1) by (auto simp: user_example_def in_proc_def wf_cpu_def)

lemma user_example_load: "vload 16 user_example = Ok 97" "vload 17 user_example = Ok 98" "vload 18 user_example = Ok 0"
  by (simp_all add: vload_def vaddr_def KERNBASE_def user_example_ok translate_def pde_of_def table_of_def present_def Let_def
      PTE_P_def PTE_ADDR_def PTE_FLAGS_def P2V_def PDX_def PTX_def load32_def user_mem_def)

theorem syscall_args_in_bounds_witness:
  "\<exists>s'. fetchstr 16 user_example = Ok (Some [97, 98], s') \<and> s' = user_example\<lparr>thiscpu := settled user_example\<rparr>"
proof -
  have g: "fetchstr_from (Suc (Suc (Suc n))) 16 user_example = Ok (Some [97, 98])" for n by (simp add: user_example_load)
  have "fetchstr_from (unat (0x1000 - 16 :: u32)) 16 user_example = Ok (Some [97, 98])" using g [of 4077] by simp
  then obtain s' where f: "fetchstr 16 user_example = Ok (Some [97, 98], s')"
    using fetchstr_eq [OF user_example_ok(1) user_example_ok(2) [symmetric], of 16] by simp
  have "(0x1000 :: u32) \<le> KERNBASE" by (simp add: KERNBASE_def)
  from syscall_args_in_bounds [OF user_example_ok(1) user_example_ok(2) [symmetric] this] f show ?thesis by blast
qed


end
