(* ===== verification/Exec.thy ===== *)
theory Exec
  imports Syscall_Args
begin

text \<open>
  Replacing the program of a process (\<^verbatim>\<open>exec.c\<close>, \<^verbatim>\<open>loaduvm\<close> and \<^verbatim>\<open>copyout\<close> of \<^verbatim>\<open>vm.c\<close>, \<^verbatim>\<open>elf.h\<close>). The argument
  strings are given as their bytes. A label \<^verbatim>\<open>bad\<close> of the source is \<open>exec_bad\<close>, with the page directory
  and the locked inode, if any, that have to be given back.
\<close>

section \<open>Definitions\<close>

definition ELF_MAGIC :: u32 where "ELF_MAGIC = 0x464C457F"
definition ELF_PROG_LOAD :: u32 where "ELF_PROG_LOAD = 1"
definition ELFHDR_SIZE :: nat where "ELFHDR_SIZE = 52"
definition PROGHDR_SIZE :: nat where "PROGHDR_SIZE = 32"
definition MAXARG :: nat where "MAXARG = 32"

record elfhdr =
  elf_magic :: u32
  elf_entry :: u32
  elf_phoff :: u32
  elf_phnum :: u16

record proghdr =
  ph_type :: u32
  ph_off :: u32
  ph_vaddr :: u32
  ph_filesz :: u32
  ph_memsz :: u32

definition decode_elf :: "u8 list \<Rightarrow> elfhdr" where
  "decode_elf b = \<lparr>elf_magic = get32 b 0, elf_entry = get32 b 24, elf_phoff = get32 b 28, elf_phnum = get16 b 44\<rparr>"

definition decode_ph :: "u8 list \<Rightarrow> proghdr" where
  "decode_ph b = \<lparr>ph_type = get32 b 0, ph_off = get32 b 4, ph_vaddr = get32 b 8, ph_filesz = get32 b 16, ph_memsz = get32 b 20\<rparr>"

primrec store_bytes :: "(u32 \<Rightarrow> u8) \<Rightarrow> u32 \<Rightarrow> u8 list \<Rightarrow> (u32 \<Rightarrow> u8)" where
  "store_bytes m a [] = m"
| "store_bytes m a (x # xs) = store_bytes (m(a := x)) (a + 1) xs"

fun loaduvm_from :: "('a fs_scheme, 'w) fsworld_scheme \<Rightarrow> nat \<Rightarrow> u32 \<Rightarrow> u32 \<Rightarrow> nat \<Rightarrow> u32 \<Rightarrow> u32 \<Rightarrow> u32 \<Rightarrow> 'a fs_scheme \<Rightarrow> (bool \<times> 'a fs_scheme) res" where
  "loaduvm_from w 0 pgdir addr ip offset sz i s = Hangs"
| "loaduvm_from w (Suc fuel) pgdir addr ip offset sz i s =
     (if \<not> i < sz then Ok (True, s)
      else
        andThen (walkpgdir pgdir (addr + i) False s) (\<lambda>(pte, s).
          if pte = 0 then Panic ''loaduvm: address should exist''
          else
            let pa = PTE_ADDR (load32 (mem s) pte);
                n = (if sz - i < PGSIZE then sz - i else PGSIZE) in
            andThen (readi w ip (offset + i) n s) (\<lambda>((r, bytes), s).
              let s = s\<lparr>mem := store_bytes (mem s) (P2V pa) bytes\<rparr> in
              if r \<noteq> n then Ok (False, s) else loaduvm_from w fuel pgdir addr ip offset sz (i + PGSIZE) s)))"

definition loaduvm :: "('a fs_scheme, 'w) fsworld_scheme \<Rightarrow> u32 \<Rightarrow> u32 \<Rightarrow> nat \<Rightarrow> u32 \<Rightarrow> u32 \<Rightarrow> 'a fs_scheme \<Rightarrow> (bool \<times> 'a fs_scheme) res" where
  "loaduvm w pgdir addr ip offset sz s =
     (if unat addr mod unat PGSIZE \<noteq> 0 then Panic ''loaduvm: addr must be page aligned''
      else loaduvm_from w VM_FUEL pgdir addr ip offset sz 0 s)"

text \<open>\<^verbatim>\<open>copyout\<close> for a source given by its bytes.\<close>

fun copyout_bytes_from :: "nat \<Rightarrow> u32 \<Rightarrow> u32 \<Rightarrow> u8 list \<Rightarrow> 'a kmem_scheme \<Rightarrow> (bool \<times> 'a kmem_scheme) res" where
  "copyout_bytes_from 0 pgdir va buf s = Hangs"
| "copyout_bytes_from (Suc fuel) pgdir va buf s =
     (if buf = [] then Ok (True, s)
      else
        let va0 = PGROUNDDOWN va in
        andThen (uva2ka pgdir va0 s) (\<lambda>pa0.
          if pa0 = 0 then Ok (False, s)
          else
            let n = min (unat (PGSIZE - (va - va0))) (length buf) in
            copyout_bytes_from fuel pgdir (va0 + PGSIZE) (drop n buf)
              (s\<lparr>mem := store_bytes (mem s) (pa0 + (va - va0)) (take n buf)\<rparr>)))"

definition copyout_bytes :: "u32 \<Rightarrow> u32 \<Rightarrow> u8 list \<Rightarrow> 'a kmem_scheme \<Rightarrow> (bool \<times> 'a kmem_scheme) res" where
  "copyout_bytes pgdir va buf s = copyout_bytes_from (Suc (length buf)) pgdir va buf s"

definition exec_bad :: "('a fs_scheme, 'w) world_scheme \<Rightarrow> u32 \<Rightarrow> nat option \<Rightarrow> 'a fs_scheme \<Rightarrow> (u32 \<times> 'a fs_scheme) res" where
  "exec_bad w pgdir ip s =
     andThen (if pgdir \<noteq> 0 then freevm pgdir s else Ok s) (\<lambda>s.
     andThen (case ip of Some i \<Rightarrow> andThen (iunlockput w i s) (end_op w) | None \<Rightarrow> Ok s) (\<lambda>s. Ok (- 1, s)))"

text \<open>Loading the segments: the new size, or \<open>None\<close> where the source goes to \<^verbatim>\<open>bad\<close>.\<close>

primrec exec_load :: "('a fs_scheme, 'w) fsworld_scheme \<Rightarrow> u32 \<Rightarrow> nat \<Rightarrow> nat \<Rightarrow> u32 \<Rightarrow> u32 \<Rightarrow> 'a fs_scheme \<Rightarrow> (u32 option \<times> 'a fs_scheme) res" where
  "exec_load w pgdir ip 0 off sz s = Ok (Some sz, s)"
| "exec_load w pgdir ip (Suc n) off sz s =
     andThen (readi w ip off (of_nat PROGHDR_SIZE) s) (\<lambda>((r, bytes), s).
       let ph = decode_ph bytes; nxt = off + of_nat PROGHDR_SIZE in
       if r \<noteq> of_nat PROGHDR_SIZE then Ok (None, s)
       else if ph_type ph \<noteq> ELF_PROG_LOAD then exec_load w pgdir ip n nxt sz s
       else if ph_memsz ph < ph_filesz ph then Ok (None, s)
       else if ph_vaddr ph + ph_memsz ph < ph_vaddr ph then Ok (None, s)
       else
         andThen (allocuvm pgdir sz (ph_vaddr ph + ph_memsz ph) s) (\<lambda>(sz, s).
           if sz = 0 then Ok (None, s)
           else if unat (ph_vaddr ph) mod unat PGSIZE \<noteq> 0 then Ok (None, s)
           else
             andThen (loaduvm w pgdir (ph_vaddr ph) ip (ph_off ph) (ph_filesz ph) s) (\<lambda>(ok, s).
               if \<not> ok then Ok (None, s) else exec_load w pgdir ip n nxt sz s)))"

text \<open>Pushing the argument strings: the stack pointer and the addresses pushed, first argument first.\<close>

fun exec_args :: "u32 \<Rightarrow> u8 list list \<Rightarrow> u32 list \<Rightarrow> u32 \<Rightarrow> 'a kmem_scheme \<Rightarrow> ((u32 \<times> u32 list) option \<times> 'a kmem_scheme) res" where
  "exec_args pgdir [] ps sp s = Ok (Some (sp, ps), s)"
| "exec_args pgdir (a # as) ps sp s =
     (if length ps \<ge> MAXARG then Ok (None, s)
      else
        let sp = (sp - of_nat (length a + 1)) AND NOT 3 in
        andThen (copyout_bytes pgdir sp (a @ [0]) s) (\<lambda>(ok, s).
          if \<not> ok then Ok (None, s) else exec_args pgdir as (ps @ [sp]) sp s))"

definition enc32 :: "u32 \<Rightarrow> u8 list" where
  "enc32 v = put32 (replicate 4 0) 0 v"

definition exec_name :: "u8 list \<Rightarrow> u8 list" where
  "exec_name path = rev (takeWhile (\<lambda>c. c \<noteq> SLASH) (rev path))"

definition exec_stack :: "u32 list \<Rightarrow> u32 \<Rightarrow> u32 list" where
  "exec_stack ps sp = [0xffffffff, of_nat (length ps), sp - of_nat ((length ps + 1) * 4)] @ ps @ [0]"

definition exec_commit :: "nat \<Rightarrow> u8 list \<Rightarrow> u32 \<Rightarrow> u32 \<Rightarrow> u32 \<Rightarrow> u32 \<Rightarrow> 'a ptab_scheme \<Rightarrow> (u32 \<times> 'a ptab_scheme) res" where
  "exec_commit cur path pgdir sz entry sp s =
     (let oldpgdir = p_pgdir (procs s ! cur);
          s = upd_proc cur (\<lambda>q. q\<lparr>p_name := take 15 (chars (exec_name path)), p_pgdir := pgdir, p_sz := sz\<rparr>) s;
          tf = p_tf (procs s ! cur);
          s = s\<lparr>mem := store32 (store32 (mem s) (tf + TF_eip) entry) (tf + TF_esp) sp\<rparr> in
      andThen (switchuvm (p_kstack (procs s ! cur)) (p_pgdir (procs s ! cur)) s) (\<lambda>s.
      andThen (freevm oldpgdir s) (\<lambda>s. Ok (0, s))))"

definition exec :: "('a fs_scheme, 'w) fsworld_scheme \<Rightarrow> u8 list \<Rightarrow> u8 list list \<Rightarrow> 'a fs_scheme \<Rightarrow> (u32 \<times> 'a fs_scheme) res" where
  "exec w path argv s =
     andThen (curproc s) (\<lambda>(cur, s).
     andThen (begin_op w s) (\<lambda>s.
     andThen (namei w path s) (\<lambda>(r, s).
       case r of
         None \<Rightarrow> andThen (end_op w s) (\<lambda>s. andThen (cprintf (''exec: fail'' @ [CHR 0x0A]) [] s) (\<lambda>s. Ok (- 1, s)))
       | Some ip \<Rightarrow>
           andThen (ilock w (Some ip) s) (\<lambda>s.
           andThen (readi w ip 0 (of_nat ELFHDR_SIZE) s) (\<lambda>((r, bytes), s).
             let elf = decode_elf bytes in
             if r \<noteq> of_nat ELFHDR_SIZE \<or> elf_magic elf \<noteq> ELF_MAGIC then exec_bad w 0 (Some ip) s
             else
               andThen (setupkvm s) (\<lambda>(pgdir, s).
                 if pgdir = 0 then exec_bad w 0 (Some ip) s
                 else
                   andThen (exec_load w pgdir ip (unat (elf_phnum elf)) (elf_phoff elf) 0 s) (\<lambda>(sz, s).
                     case sz of
                       None \<Rightarrow> exec_bad w pgdir (Some ip) s
                     | Some sz \<Rightarrow>
                         andThen (iunlockput w ip s) (\<lambda>s.
                         andThen (end_op w s) (\<lambda>s.
                         andThen (allocuvm pgdir (PGROUNDUP sz) (PGROUNDUP sz + 2 * PGSIZE) s) (\<lambda>(sz, s).
                           if sz = 0 then exec_bad w pgdir None s
                           else
                             andThen (clearpteu pgdir (sz - 2 * PGSIZE) s) (\<lambda>s.
                             andThen (exec_args pgdir argv [] sz s) (\<lambda>(r, s).
                               case r of
                                 None \<Rightarrow> exec_bad w pgdir None s
                               | Some (sp, ps) \<Rightarrow>
                                   let ustack = exec_stack ps sp;
                                       sp = sp - of_nat ((3 + length ps + 1) * 4) in
                                   andThen (copyout_bytes pgdir sp (concat (map enc32 ustack)) s) (\<lambda>(ok, s).
                                     if \<not> ok then exec_bad w pgdir None s
                                     else exec_commit cur path pgdir sz (elf_entry elf) sp s)))))))))))))"

end
