(* ===== verification/Sysfile.thy ===== *)
theory Sysfile
  imports Exec
begin

text \<open>
  The system calls on files (\<^verbatim>\<open>sysfile.c\<close>). Each takes its arguments from the memory of the calling
  process and returns the value for \<^verbatim>\<open>eax\<close>.
\<close>

section \<open>Definitions\<close>

definition O_RDONLY :: u32 where "O_RDONLY = 0"
definition O_WRONLY :: u32 where "O_WRONLY = 1"
definition O_RDWR :: u32 where "O_RDWR = 2"
definition O_CREATE :: u32 where "O_CREATE = 0x200"

subsection \<open>Descriptors\<close>

definition argfd :: "u32 \<Rightarrow> 'a ptab_scheme \<Rightarrow> ((nat \<times> nat) option \<times> 'a ptab_scheme) res" where
  "argfd n s =
     andThen (argint n s) (\<lambda>(r, s).
       case r of
         None \<Rightarrow> Ok (None, s)
       | Some fd \<Rightarrow>
           if sint fd < 0 \<or> sint fd \<ge> int NOFILE then Ok (None, s)
           else
             andThen (curproc s) (\<lambda>(i, s).
               case p_ofile (procs s ! i) ! unat fd of
                 None \<Rightarrow> Ok (None, s)
               | Some f \<Rightarrow> Ok (Some (unat fd, f), s)))"

definition fdalloc :: "nat \<Rightarrow> 'a ptab_scheme \<Rightarrow> (nat option \<times> 'a ptab_scheme) res" where
  "fdalloc f s =
     andThen (curproc s) (\<lambda>(i, s).
       case find_idx (\<lambda>x. x = None) (p_ofile (procs s ! i)) of
         Some fd \<Rightarrow> Ok (Some fd, upd_proc i (\<lambda>q. q\<lparr>p_ofile := (p_ofile q)[fd := Some f]\<rparr>) s)
       | None \<Rightarrow> Ok (None, s))"

definition set_ofile :: "nat \<Rightarrow> nat option \<Rightarrow> 'a ptab_scheme \<Rightarrow> 'a ptab_scheme res" where
  "set_ofile fd v s =
     andThen (curproc s) (\<lambda>(i, s). Ok (upd_proc i (\<lambda>q. q\<lparr>p_ofile := (p_ofile q)[fd := v]\<rparr>) s))"

definition sys_dup :: "'a fil_scheme \<Rightarrow> (u32 \<times> 'a fil_scheme) res" where
  "sys_dup s =
     andThen (argfd 0 s) (\<lambda>(r, s).
       case r of
         None \<Rightarrow> Ok (- 1, s)
       | Some (_, f) \<Rightarrow>
           andThen (fdalloc f s) (\<lambda>(fd, s).
             case fd of
               None \<Rightarrow> Ok (- 1, s)
             | Some fd \<Rightarrow> andThen (filedup f s) (\<lambda>(_, s). Ok (of_nat fd, s))))"

text \<open>The arguments of \<open>sys_read\<close> and \<open>sys_write\<close>: the file, the buffer and its size.\<close>

definition argfile :: "'a ptab_scheme \<Rightarrow> ((nat \<times> u32 \<times> u32) option \<times> 'a ptab_scheme) res" where
  "argfile s =
     andThen (argfd 0 s) (\<lambda>(r, s).
       case r of
         None \<Rightarrow> Ok (None, s)
       | Some (_, f) \<Rightarrow>
           andThen (argint 2 s) (\<lambda>(n, s).
             case n of
               None \<Rightarrow> Ok (None, s)
             | Some n \<Rightarrow>
                 andThen (argptr 1 n s) (\<lambda>(p, s).
                   case p of None \<Rightarrow> Ok (None, s) | Some p \<Rightarrow> Ok (Some (f, p, n), s))))"

definition sys_read :: "('a fil_scheme, 'w) fsworld_scheme \<Rightarrow> 'a fil_scheme \<Rightarrow> (u32 \<times> 'a fil_scheme) res" where
  "sys_read w s =
     andThen (argfile s) (\<lambda>(r, s).
       case r of None \<Rightarrow> Ok (- 1, s) | Some (f, p, n) \<Rightarrow> fileread w f p n s)"

definition sys_write :: "('a fil_scheme, 'w) fsworld_scheme \<Rightarrow> 'a fil_scheme \<Rightarrow> (u32 \<times> 'a fil_scheme) res" where
  "sys_write w s =
     andThen (argfile s) (\<lambda>(r, s).
       case r of None \<Rightarrow> Ok (- 1, s) | Some (f, p, n) \<Rightarrow> filewrite w f p n s)"

definition sys_close :: "('a fil_scheme, 'w) world_scheme \<Rightarrow> 'a fil_scheme \<Rightarrow> (u32 \<times> 'a fil_scheme) res" where
  "sys_close w s =
     andThen (argfd 0 s) (\<lambda>(r, s).
       case r of
         None \<Rightarrow> Ok (- 1, s)
       | Some (fd, f) \<Rightarrow>
           andThen (set_ofile fd None s) (\<lambda>s.
           andThen (fileclose w f s) (\<lambda>s. Ok (0, s))))"

definition STAT_SIZE :: u32 where "STAT_SIZE = 20"

definition sys_fstat :: "('a fil_scheme, 'w) world_scheme \<Rightarrow> 'a fil_scheme \<Rightarrow> (u32 \<times> 'a fil_scheme) res" where
  "sys_fstat w s =
     andThen (argfd 0 s) (\<lambda>(r, s).
       case r of
         None \<Rightarrow> Ok (- 1, s)
       | Some (_, f) \<Rightarrow>
           andThen (argptr 1 STAT_SIZE s) (\<lambda>(st, s).
             case st of None \<Rightarrow> Ok (- 1, s) | Some st \<Rightarrow> filestat w f st s))"

subsection \<open>Links\<close>

text \<open>\<open>op_fail\<close>: give up the transaction and return -1.\<close>

definition op_fail :: "('a fs_scheme, 'w) world_scheme \<Rightarrow> 'a fs_scheme \<Rightarrow> (u32 \<times> 'a fs_scheme) res" where
  "op_fail w s = andThen (end_op w s) (\<lambda>s. Ok (- 1, s))"

definition put_fail :: "('a fs_scheme, 'w) world_scheme \<Rightarrow> nat \<Rightarrow> 'a fs_scheme \<Rightarrow> (u32 \<times> 'a fs_scheme) res" where
  "put_fail w ip s = andThen (iunlockput w ip s) (op_fail w)"

definition link_bad :: "('a fs_scheme, 'w) world_scheme \<Rightarrow> nat \<Rightarrow> 'a fs_scheme \<Rightarrow> (u32 \<times> 'a fs_scheme) res" where
  "link_bad w ip s =
     andThen (ilock w (Some ip) s) (\<lambda>s.
     andThen (iupdate w ip (upd_inode ip (\<lambda>i. i\<lparr>i_nlink := i_nlink i - 1\<rparr>) s)) (put_fail w ip))"

definition sys_link :: "('a fs_scheme, 'w) fsworld_scheme \<Rightarrow> 'a fs_scheme \<Rightarrow> (u32 \<times> 'a fs_scheme) res" where
  "sys_link w s =
     andThen (argstr 0 s) (\<lambda>(old, s).
       case old of
         None \<Rightarrow> Ok (- 1, s)
       | Some old \<Rightarrow>
     andThen (argstr 1 s) (\<lambda>(new, s).
       case new of
         None \<Rightarrow> Ok (- 1, s)
       | Some new \<Rightarrow>
     andThen (begin_op w s) (\<lambda>s.
     andThen (namei w old s) (\<lambda>(ip, s).
       case ip of
         None \<Rightarrow> op_fail w s
       | Some ip \<Rightarrow>
     andThen (ilock w (Some ip) s) (\<lambda>s.
       if i_type (icache s ! ip) = T_DIR then put_fail w ip s
       else
     andThen (iupdate w ip (upd_inode ip (\<lambda>i. i\<lparr>i_nlink := i_nlink i + 1\<rparr>) s)) (\<lambda>s.
     andThen (iunlock (Some ip) s) (\<lambda>s.
     andThen (nameiparent w new s) (\<lambda>(dp, s).
       case dp of
         None \<Rightarrow> link_bad w ip s
       | Some (dp, name) \<Rightarrow>
     andThen (ilock w (Some dp) s) (\<lambda>s.
     andThen
       (if i_dev (icache s ! dp) \<noteq> i_dev (icache s ! ip) then Ok (True, s)
        else andThen (dirlink w dp name (i_inum (icache s ! ip)) s) (\<lambda>(r, s). Ok (sint r < 0, s))) (\<lambda>(bad, s).
       if bad then andThen (iunlockput w dp s) (link_bad w ip)
       else
     andThen (iunlockput w dp s) (\<lambda>s.
     andThen (iput w ip s) (\<lambda>s.
     andThen (end_op w s) (\<lambda>s. Ok (0, s))))))))))))))"

function isdirempty_from :: "('a fs_scheme, 'w) fsworld_scheme \<Rightarrow> nat \<Rightarrow> nat \<Rightarrow> 'a fs_scheme \<Rightarrow> (bool \<times> 'a fs_scheme) res" where
  "isdirempty_from w dp off s =
     (if off < unat (i_size (icache s ! dp)) then
        andThen (readi w dp (of_nat off) (of_nat DIRENT_SIZE) s) (\<lambda>((r, de), s).
          if r \<noteq> of_nat DIRENT_SIZE then Panic ''isdirempty: readi''
          else if get16 de 0 \<noteq> 0 then Ok (False, s)
          else isdirempty_from w dp (off + DIRENT_SIZE) s)
      else Ok (True, s))"
  by pat_completeness auto
termination
proof (relation "measure (\<lambda>(w, dp, off, s). 4294967296 - off)", goal_cases)
  case (2 w dp off s)
  then show ?case using unsigned_less [of "i_size (icache s ! dp)", where ?'a = nat] by (simp add: DIRENT_SIZE_def)
qed simp

declare isdirempty_from.simps [simp del]

definition isdirempty :: "('a fs_scheme, 'w) fsworld_scheme \<Rightarrow> nat \<Rightarrow> 'a fs_scheme \<Rightarrow> (bool \<times> 'a fs_scheme) res" where
  "isdirempty w dp s = isdirempty_from w dp (2 * DIRENT_SIZE) s"

definition DOT :: u8 where "DOT = 46"

definition sys_unlink :: "('a fs_scheme, 'w) fsworld_scheme \<Rightarrow> 'a fs_scheme \<Rightarrow> (u32 \<times> 'a fs_scheme) res" where
  "sys_unlink w s =
     andThen (argstr 0 s) (\<lambda>(path, s).
       case path of
         None \<Rightarrow> Ok (- 1, s)
       | Some path \<Rightarrow>
     andThen (begin_op w s) (\<lambda>s.
     andThen (nameiparent w path s) (\<lambda>(dp, s).
       case dp of
         None \<Rightarrow> op_fail w s
       | Some (dp, name) \<Rightarrow>
     andThen (ilock w (Some dp) s) (\<lambda>s.
       if namecmp name [DOT] = 0 \<or> namecmp name [DOT, DOT] = 0 then put_fail w dp s
       else
     andThen (dirlookup w dp name s) (\<lambda>(r, s).
       case r of
         None \<Rightarrow> put_fail w dp s
       | Some (ip, off) \<Rightarrow>
     andThen (ilock w (Some ip) s) (\<lambda>s.
       if sint (i_nlink (icache s ! ip)) < 1 then Panic ''unlink: nlink < 1''
       else
     andThen (if i_type (icache s ! ip) = T_DIR then isdirempty w ip s else Ok (True, s)) (\<lambda>(e, s).
       if \<not> e then andThen (iunlockput w ip s) (put_fail w dp)
       else
     andThen (writei w dp (replicate DIRENT_SIZE 0) off (of_nat DIRENT_SIZE) s) (\<lambda>(r, s).
       if r \<noteq> of_nat DIRENT_SIZE then Panic ''unlink: writei''
       else
     andThen
       (if i_type (icache s ! ip) = T_DIR then iupdate w dp (upd_inode dp (\<lambda>i. i\<lparr>i_nlink := i_nlink i - 1\<rparr>) s)
        else Ok s) (\<lambda>s.
     andThen (iunlockput w dp s) (\<lambda>s.
     andThen (iupdate w ip (upd_inode ip (\<lambda>i. i\<lparr>i_nlink := i_nlink i - 1\<rparr>) s)) (\<lambda>s.
     andThen (iunlockput w ip s) (\<lambda>s.
     andThen (end_op w s) (\<lambda>s. Ok (0, s))))))))))))))"

subsection \<open>Creating and opening\<close>

definition create_dots :: "('a fs_scheme, 'w) fsworld_scheme \<Rightarrow> nat \<Rightarrow> nat \<Rightarrow> 'a fs_scheme \<Rightarrow> 'a fs_scheme res" where
  "create_dots w dp ip s =
     andThen (iupdate w dp (upd_inode dp (\<lambda>i. i\<lparr>i_nlink := i_nlink i + 1\<rparr>) s)) (\<lambda>s.
     andThen (dirlink w ip [DOT] (i_inum (icache s ! ip)) s) (\<lambda>(r, s).
       if sint r < 0 then Panic ''create dots''
       else
     andThen (dirlink w ip [DOT, DOT] (i_inum (icache s ! dp)) s) (\<lambda>(r, s).
       if sint r < 0 then Panic ''create dots'' else Ok s)))"

definition create :: "('a fs_scheme, 'w) fsworld_scheme \<Rightarrow> u8 list \<Rightarrow> u16 \<Rightarrow> u16 \<Rightarrow> u16 \<Rightarrow> 'a fs_scheme \<Rightarrow> (nat option \<times> 'a fs_scheme) res" where
  "create w path ty major minor s =
     andThen (nameiparent w path s) (\<lambda>(dp, s).
       case dp of
         None \<Rightarrow> Ok (None, s)
       | Some (dp, name) \<Rightarrow>
     andThen (ilock w (Some dp) s) (\<lambda>s.
     andThen (dirlookup w dp name s) (\<lambda>(r, s).
       case r of
         Some (ip, _) \<Rightarrow>
           andThen (iunlockput w dp s) (\<lambda>s.
           andThen (ilock w (Some ip) s) (\<lambda>s.
             if ty = T_FILE \<and> i_type (icache s ! ip) = T_FILE then Ok (Some ip, s)
             else andThen (iunlockput w ip s) (\<lambda>s. Ok (None, s))))
       | None \<Rightarrow>
     andThen (ialloc w (i_dev (icache s ! dp)) ty s) (\<lambda>(ip, s).
     andThen (ilock w (Some ip) s) (\<lambda>s.
     andThen (iupdate w ip (upd_inode ip (\<lambda>i. i\<lparr>i_major := major, i_minor := minor, i_nlink := 1\<rparr>) s)) (\<lambda>s.
     andThen (if ty = T_DIR then create_dots w dp ip s else Ok s) (\<lambda>s.
     andThen (dirlink w dp name (i_inum (icache s ! ip)) s) (\<lambda>(r, s).
       if sint r < 0 then Panic ''create: dirlink''
       else andThen (iunlockput w dp s) (\<lambda>s. Ok (Some ip, s))))))))))"

text \<open>The inode to open, locked; \<open>None\<close> when the call fails, with the transaction ended.\<close>

definition open_inode :: "('a fs_scheme, 'w) fsworld_scheme \<Rightarrow> u8 list \<Rightarrow> u32 \<Rightarrow> 'a fs_scheme \<Rightarrow> (nat option \<times> 'a fs_scheme) res" where
  "open_inode w path omode s =
     (if omode AND O_CREATE \<noteq> 0 then
        andThen (create w path T_FILE 0 0 s) (\<lambda>(ip, s).
          case ip of
            None \<Rightarrow> andThen (end_op w s) (\<lambda>s. Ok (None, s))
          | Some ip \<Rightarrow> Ok (Some ip, s))
      else
        andThen (namei w path s) (\<lambda>(ip, s).
          case ip of
            None \<Rightarrow> andThen (end_op w s) (\<lambda>s. Ok (None, s))
          | Some ip \<Rightarrow>
              andThen (ilock w (Some ip) s) (\<lambda>s.
                if i_type (icache s ! ip) = T_DIR \<and> omode \<noteq> O_RDONLY
                then andThen (iunlockput w ip s) (\<lambda>s. andThen (end_op w s) (\<lambda>s. Ok (None, s)))
                else Ok (Some ip, s))))"

definition sys_open :: "('a fil_scheme, 'w) fsworld_scheme \<Rightarrow> 'a fil_scheme \<Rightarrow> (u32 \<times> 'a fil_scheme) res" where
  "sys_open w s =
     andThen (argstr 0 s) (\<lambda>(path, s).
       case path of
         None \<Rightarrow> Ok (- 1, s)
       | Some path \<Rightarrow>
     andThen (argint 1 s) (\<lambda>(omode, s).
       case omode of
         None \<Rightarrow> Ok (- 1, s)
       | Some omode \<Rightarrow>
     andThen (begin_op w s) (\<lambda>s.
     andThen (open_inode w path omode s) (\<lambda>(ip, s).
       case ip of
         None \<Rightarrow> Ok (- 1, s)
       | Some ip \<Rightarrow>
     andThen (filealloc s) (\<lambda>(f, s).
       case f of
         None \<Rightarrow> put_fail w ip s
       | Some f \<Rightarrow>
     andThen (fdalloc f s) (\<lambda>(fd, s).
       case fd of
         None \<Rightarrow> andThen (fileclose w f s) (put_fail w ip)
       | Some fd \<Rightarrow>
     andThen (iunlock (Some ip) s) (\<lambda>s.
     andThen (end_op w s) (\<lambda>s.
     Ok (of_nat fd,
       upd_file f (\<lambda>f. f\<lparr>f_type := FD_INODE, f_ip := ip, f_off := 0, f_readable := omode AND O_WRONLY = 0,
         f_writable := omode AND O_WRONLY \<noteq> 0 \<or> omode AND O_RDWR \<noteq> 0\<rparr>) s)))))))))"

text \<open>The end of \<open>sys_mkdir\<close> and \<open>sys_mknod\<close>.\<close>

definition made :: "('a fs_scheme, 'w) world_scheme \<Rightarrow> nat option \<times> 'a fs_scheme \<Rightarrow> (u32 \<times> 'a fs_scheme) res" where
  "made w r =
     (case r of
        (None, s) \<Rightarrow> op_fail w s
      | (Some ip, s) \<Rightarrow> andThen (iunlockput w ip s) (\<lambda>s. andThen (end_op w s) (\<lambda>s. Ok (0, s))))"

definition sys_mkdir :: "('a fs_scheme, 'w) fsworld_scheme \<Rightarrow> 'a fs_scheme \<Rightarrow> (u32 \<times> 'a fs_scheme) res" where
  "sys_mkdir w s =
     andThen (begin_op w s) (\<lambda>s.
     andThen (argstr 0 s) (\<lambda>(path, s).
       case path of
         None \<Rightarrow> op_fail w s
       | Some path \<Rightarrow> andThen (create w path T_DIR 0 0 s) (made w)))"

definition sys_mknod :: "('a fs_scheme, 'w) fsworld_scheme \<Rightarrow> 'a fs_scheme \<Rightarrow> (u32 \<times> 'a fs_scheme) res" where
  "sys_mknod w s =
     andThen (begin_op w s) (\<lambda>s.
     andThen (argstr 0 s) (\<lambda>(path, s).
       case path of
         None \<Rightarrow> op_fail w s
       | Some path \<Rightarrow>
     andThen (argint 1 s) (\<lambda>(major, s).
       case major of
         None \<Rightarrow> op_fail w s
       | Some major \<Rightarrow>
     andThen (argint 2 s) (\<lambda>(minor, s).
       case minor of
         None \<Rightarrow> op_fail w s
       | Some minor \<Rightarrow> andThen (create w path T_DEV (ucast major) (ucast minor) s) (made w)))))"

definition sys_chdir :: "('a fs_scheme, 'w) fsworld_scheme \<Rightarrow> 'a fs_scheme \<Rightarrow> (u32 \<times> 'a fs_scheme) res" where
  "sys_chdir w s =
     andThen (curproc s) (\<lambda>(cur, s).
     andThen (begin_op w s) (\<lambda>s.
     andThen (argstr 0 s) (\<lambda>(path, s).
       case path of
         None \<Rightarrow> op_fail w s
       | Some path \<Rightarrow>
     andThen (namei w path s) (\<lambda>(ip, s).
       case ip of
         None \<Rightarrow> op_fail w s
       | Some ip \<Rightarrow>
     andThen (ilock w (Some ip) s) (\<lambda>s.
       if i_type (icache s ! ip) \<noteq> T_DIR then put_fail w ip s
       else
     andThen (iunlock (Some ip) s) (\<lambda>s.
     andThen (case p_cwd (procs s ! cur) of None \<Rightarrow> Fault 0 | Some d \<Rightarrow> iput w d s) (\<lambda>s.
     andThen (end_op w s) (\<lambda>s.
     Ok (0, upd_proc cur (\<lambda>q. q\<lparr>p_cwd := Some ip\<rparr>) s)))))))))"

subsection \<open>exec and pipe\<close>

text \<open>The loop of \<open>sys_exec\<close> with \<open>left = NELEM(argv) - i\<close>: the argument strings, or \<open>None\<close> for -1.\<close>

primrec fetch_args :: "nat \<Rightarrow> u32 \<Rightarrow> 'a ptab_scheme \<Rightarrow> (u8 list list option \<times> 'a ptab_scheme) res" where
  "fetch_args 0 uargv s = Ok (None, s)"
| "fetch_args (Suc left) uargv s =
     andThen (fetchint uargv s) (\<lambda>(uarg, s).
       case uarg of
         None \<Rightarrow> Ok (None, s)
       | Some uarg \<Rightarrow>
           if uarg = 0 then Ok (Some [], s)
           else
             andThen (fetchstr uarg s) (\<lambda>(a, s).
               case a of
                 None \<Rightarrow> Ok (None, s)
               | Some a \<Rightarrow> andThen (fetch_args left (uargv + 4) s) (\<lambda>(as, s). Ok (map_option ((#) a) as, s))))"

definition sys_exec :: "('a fs_scheme, 'w) fsworld_scheme \<Rightarrow> 'a fs_scheme \<Rightarrow> (u32 \<times> 'a fs_scheme) res" where
  "sys_exec w s =
     andThen (argstr 0 s) (\<lambda>(path, s).
       case path of
         None \<Rightarrow> Ok (- 1, s)
       | Some path \<Rightarrow>
     andThen (argint 1 s) (\<lambda>(uargv, s).
       case uargv of
         None \<Rightarrow> Ok (- 1, s)
       | Some uargv \<Rightarrow>
     andThen (fetch_args MAXARG uargv s) (\<lambda>(argv, s).
       case argv of None \<Rightarrow> Ok (- 1, s) | Some argv \<Rightarrow> exec w path argv s)))"

definition sys_pipe :: "('a fil_scheme, 'w) world_scheme \<Rightarrow> 'a fil_scheme \<Rightarrow> (u32 \<times> 'a fil_scheme) res" where
  "sys_pipe w s =
     andThen (argptr 0 8 s) (\<lambda>(fd, s).
       case fd of
         None \<Rightarrow> Ok (- 1, s)
       | Some fd \<Rightarrow>
     andThen (pipealloc w s) (\<lambda>(r, s).
       case r of
         None \<Rightarrow> Ok (- 1, s)
       | Some (rf, wrf) \<Rightarrow>
     andThen (fdalloc rf s) (\<lambda>(fd0, s).
     andThen (case fd0 of None \<Rightarrow> Ok (None, s) | Some _ \<Rightarrow> fdalloc wrf s) (\<lambda>(fd1, s).
       case (fd0, fd1) of
         (Some fd0, Some fd1) \<Rightarrow>
           andThen (vstores fd (enc32 (of_nat fd0)) s) (\<lambda>s.
           andThen (vstores (fd + 4) (enc32 (of_nat fd1)) s) (\<lambda>s. Ok (0, s)))
       | _ \<Rightarrow>
           andThen (case fd0 of None \<Rightarrow> Ok s | Some fd0 \<Rightarrow> set_ofile fd0 None s) (\<lambda>s.
           andThen (fileclose w rf s) (\<lambda>s.
           andThen (fileclose w wrf s) (\<lambda>s. Ok (- 1, s))))))))"

end
