(* ===== verification/Descriptors.thy ===== *)
theory Descriptors
  imports Sysfile
begin

text \<open>
  File descriptors and the open-file table together: every descriptor of every process names an entry of
  the table, and the reference count of an entry is the number of descriptors that name it. The operations
  that create and drop descriptors (\<^verbatim>\<open>sysfile.c\<close>, \<^verbatim>\<open>file.c\<close>, \<^verbatim>\<open>proc.c\<close>) keep this.
\<close>

section \<open>The invariant\<close>

definition ofiles :: "'a ptab_scheme \<Rightarrow> nat option list list" where
  "ofiles s = map p_ofile (procs s)"

definition fd_count :: "nat option list list \<Rightarrow> nat \<Rightarrow> nat" where
  "fd_count tabs f = sum_list (map (\<lambda>t. count_list t (Some f)) tabs)"

definition fd_ok :: "'a fil_scheme \<Rightarrow> bool" where
  "fd_ok s \<longleftrightarrow> length (ftable s) = NFILE \<and> length (ofiles s) = NPROC
     \<and> (\<forall>t\<in>set (ofiles s). length t = NOFILE \<and> (\<forall>f. Some f \<in> set t \<longrightarrow> f < NFILE))
     \<and> (\<forall>f<NFILE. sint (f_ref (ftable s ! f)) = int (fd_count (ofiles s) f))"

text \<open>The entry that descriptor \<open>fd\<close> of process \<open>c\<close> names.\<close>

definition open_file :: "'a ptab_scheme \<Rightarrow> nat \<Rightarrow> u32 \<Rightarrow> nat option" where
  "open_file s c fd = (if 0 \<le> sint fd \<and> sint fd < int NOFILE then ofiles s ! c ! unat fd else None)"

lemma count_list_update:
  "i < length xs \<Longrightarrow> count_list (xs[i := y]) x + (if xs ! i = x then 1 else 0) = count_list xs x + (if y = x then 1 else 0)"
proof (induction xs arbitrary: i)
  case (Cons a xs)
  show ?case
  proof (cases i)
    case (Suc j)
    then show ?thesis using Cons.IH [of j] Cons.prems by (cases "y = x"; cases "xs ! j = x") simp_all
  qed simp
qed simp

lemma fd_count_update:
  assumes "c < length tabs" "i < length (tabs ! c)"
  shows "fd_count (tabs[c := (tabs ! c)[i := v]]) f + (if tabs ! c ! i = Some f then 1 else 0) = fd_count tabs f + (if v = Some f then 1 else 0)"
proof -
  let ?g = "\<lambda>t. count_list t (Some f)"
  have le: "?g (tabs ! c) \<le> sum_list (map ?g tabs)" using assms(1) by (intro member_le_sum_list) auto
  have "sum_list (map ?g (tabs[c := (tabs ! c)[i := v]])) = sum_list (map ?g tabs) + ?g ((tabs ! c)[i := v]) - ?g (tabs ! c)"
    using assms(1) by (simp add: map_update sum_list_update)
  then show ?thesis using count_list_update [OF assms(2), of v "Some f"] le by (simp add: fd_count_def)
qed

lemma fd_count_le:
  assumes "fd_ok s"
  shows "fd_count (ofiles s) f \<le> 1024"
proof -
  have "sum_list (map (\<lambda>t. count_list t (Some f)) (ofiles s)) \<le> sum_list (map (\<lambda>t. NOFILE) (ofiles s))"
  proof (rule sum_list_mono)
    fix t assume "t \<in> set (ofiles s)"
    then show "count_list t (Some f) \<le> NOFILE" using assms count_le_length [of t "Some f"] by (simp add: fd_ok_def)
  qed
  also have "\<dots> = 1024" using assms by (simp add: fd_ok_def sum_list_triv NPROC_def NOFILE_def)
  finally show ?thesis by (simp add: fd_count_def)
qed

text \<open>Setting one descriptor keeps the invariant when the counts of the old and the new entry follow.\<close>

lemma fd_ok_set:
  assumes ok: "fd_ok s" and c: "c < NPROC" "fd < NOFILE" and len: "length (ftable s') = NFILE"
    and os: "ofiles s' = (ofiles s)[c := (ofiles s ! c)[fd := v]]" and v: "\<forall>f. v = Some f \<longrightarrow> f < NFILE"
    and refs: "\<forall>f<NFILE. sint (f_ref (ftable s' ! f)) + (if ofiles s ! c ! fd = Some f then 1 else 0)
       = sint (f_ref (ftable s ! f)) + (if v = Some f then 1 else 0)"
  shows "fd_ok s'"
proof -
  have l: "length (ofiles s) = NPROC" "ofiles s ! c \<in> set (ofiles s)" "length (ofiles s ! c) = NOFILE"
    using ok c by (auto simp: fd_ok_def)
  have "sint (f_ref (ftable s' ! f)) = int (fd_count (ofiles s') f)" if f: "f < NFILE" for f
  proof -
    have "fd_count (ofiles s') f + (if ofiles s ! c ! fd = Some f then 1 else 0) = fd_count (ofiles s) f + (if v = Some f then 1 else 0)"
      using fd_count_update [of c "ofiles s" fd v f] c l os by simp
    moreover have "sint (f_ref (ftable s ! f)) = int (fd_count (ofiles s) f)" using ok f by (simp add: fd_ok_def)
    ultimately show ?thesis using refs f by (auto split: if_splits)
  qed
  moreover have "\<forall>t\<in>set (ofiles s'). length t = NOFILE \<and> (\<forall>f. Some f \<in> set t \<longrightarrow> f < NFILE)"
    using ok l v os by (auto simp: fd_ok_def dest!: set_update_subset_insert [THEN subsetD])
  ultimately show ?thesis using len l os by (simp add: fd_ok_def)
qed

lemma ofiles_upd: "i < length (procs s) \<Longrightarrow> ofiles (upd_proc i (\<lambda>q. q\<lparr>p_ofile := (p_ofile q)[k := v]\<rparr>) s) = (ofiles s)[i := (ofiles s ! i)[k := v]]"
  by (simp add: ofiles_def upd_proc_def map_update)

lemma ofiles_nth: "i < length (procs s) \<Longrightarrow> ofiles s ! i = p_ofile (procs s ! i)"
  by (simp add: ofiles_def)

section \<open>Operations on the table\<close>

lemma upd_file_sel [simp]:
  "length (ftable (upd_file f g s)) = length (ftable s)" "procs (upd_file f g s) = procs s" "thiscpu (upd_file f g s) = thiscpu s"
  "fl_if (upd_file f g s) = fl_if s" "held (upd_file f g s) = held s"
  "upd_file f g (s\<lparr>thiscpu := x\<rparr>) = (upd_file f g s)\<lparr>thiscpu := x\<rparr>"
  by (simp_all add: upd_file_def)

lemma upd_file_nth: "f < length (ftable s) \<Longrightarrow> ftable (upd_file f g s) ! k = (if k = f then g (ftable s ! f) else ftable s ! k)"
  by (auto simp: upd_file_def nth_list_update)

lemma ftable_section:
  fixes s :: "'a fil_scheme"
  assumes "in_proc c s"
  defines "t \<equiv> s\<lparr>fl_if := False, thiscpu := cpu_push (fl_if s) (thiscpu s), held := (held s)(FTABLE_LOCK := True)\<rparr>"
  shows "acquire FTABLE_LOCK s = Ok t" "ftable t = ftable s" "release FTABLE_LOCK t = Ok (s\<lparr>thiscpu := settled s\<rparr>)"
    "release FTABLE_LOCK (upd_file f g t) = Ok ((upd_file f g s)\<lparr>thiscpu := settled s\<rparr>)"
    "release FTABLE_LOCK (upd_file f h (upd_file f g t)) = Ok ((upd_file f h (upd_file f g s))\<lparr>thiscpu := settled s\<rparr>)"
proof -
  have c: "wf_cpu s" "\<not> held s FTABLE_LOCK" "0 \<le> ncli (thiscpu s)" "fl_if s \<longrightarrow> ncli (thiscpu s) = 0"
    using assms(1) by (auto simp: in_proc_def wf_cpu_def)
  show "acquire FTABLE_LOCK s = Ok t" using c by (simp add: acquire_eq t_def)
  show "ftable t = ftable s" by (simp add: t_def)
  have h: "(held s)(FTABLE_LOCK := False) = held s" using c by auto
  show "release FTABLE_LOCK t = Ok (s\<lparr>thiscpu := settled s\<rparr>)"
    "release FTABLE_LOCK (upd_file f g t) = Ok ((upd_file f g s)\<lparr>thiscpu := settled s\<rparr>)"
    "release FTABLE_LOCK (upd_file f h (upd_file f g t)) = Ok ((upd_file f h (upd_file f g s))\<lparr>thiscpu := settled s\<rparr>)"
    by (subst release_pushed [where f = "fl_if s" and c = "thiscpu s"]; simp add: t_def c h; simp add: upd_file_def)+
qed

lemma filedup_eq:
  assumes "in_proc c s" "1 \<le> sint (f_ref (ftable s ! f))"
  shows "filedup f s = Ok (f, (upd_file f (\<lambda>f. f\<lparr>f_ref := f_ref f + 1\<rparr>) s)\<lparr>thiscpu := settled s\<rparr>)"
  using assms(2) ftable_section(4) [OF assms(1), of f] by (simp add: filedup_def ftable_section(1,2) [OF assms(1)])

lemma filealloc_eq:
  assumes "in_proc c s"
  shows "filealloc s = (case find_idx (\<lambda>f. f_ref f = 0) (ftable s) of
      Some f \<Rightarrow> Ok (Some f, (upd_file f (\<lambda>f. f\<lparr>f_ref := 1\<rparr>) s)\<lparr>thiscpu := settled s\<rparr>)
    | None \<Rightarrow> Ok (None, s\<lparr>thiscpu := settled s\<rparr>))"
  using ftable_section [OF assms] by (simp add: filealloc_def split: option.split)

definition last_close :: "('a fil_scheme, 'w) world_scheme \<Rightarrow> file_t \<Rightarrow> 'a fil_scheme \<Rightarrow> 'a fil_scheme res" where
  "last_close w ff s = (case f_type ff of
      FD_PIPE \<Rightarrow> pipeclose (f_pipe ff) (f_writable ff) s
    | FD_INODE \<Rightarrow> andThen (begin_op w s) (\<lambda>s. andThen (iput w (f_ip ff) s) (end_op w))
    | FD_NONE \<Rightarrow> Ok s)"

lemma last_close_ref [simp]: "last_close w (ff\<lparr>f_ref := r\<rparr>) s = last_close w ff s"
  by (simp add: last_close_def split: ftype.split)

lemma sint_pred: "1 \<le> sint (r :: u32) \<Longrightarrow> sint (r - 1) = sint r - 1"
proof -
  assume a: "1 \<le> sint r"
  have i: "int (unat r) = sint r" using sint_nonneg_unat a by force
  have lt: "sint r < 2147483648" using sint_lt [of r] by simp
  have "unat (r - 1) = unat r - 1" using a by (intro unat_minus_one) auto
  then have n: "int (unat (r - 1)) = sint r - 1" using i a by linarith
  have ge: "- 2147483648 \<le> sint (r - 1)" using sint_ge [of "r - 1"] by simp
  show ?thesis
  proof (cases "r - 1" rule: sint_u32_cases)
    case 2
    then show ?thesis using n lt ge by linarith
  qed (use n in linarith)
qed

lemma fileclose_eq:
  assumes c: "in_proc c s" and f: "f < length (ftable s)" "1 \<le> sint (f_ref (ftable s ! f))"
  shows "\<exists>s1. fileclose w f s = (if sint (f_ref (ftable s ! f)) = 1 then last_close w (ftable s ! f) s1 else Ok s1)
    \<and> ofiles s1 = ofiles s \<and> length (ftable s1) = length (ftable s)
    \<and> (\<forall>k. sint (f_ref (ftable s1 ! k)) = sint (f_ref (ftable s ! k)) - (if k = f then 1 else 0))"
proof -
  let ?g = "\<lambda>f. f\<lparr>f_ref := f_ref f - 1\<rparr>" and ?h = "\<lambda>f. f\<lparr>f_ref := 0, f_type := FD_NONE\<rparr>"
  note sec = ftable_section [OF c]
  have dec: "sint (f_ref (ftable s ! f) - 1) = sint (f_ref (ftable s ! f)) - 1"
    using f(2) by (rule sint_pred)
  show ?thesis
  proof (cases "sint (f_ref (ftable s ! f)) = 1")
    case True
    let ?s1 = "(upd_file f ?h (upd_file f ?g s))\<lparr>thiscpu := settled s\<rparr>"
    have "fileclose w f s = last_close w (?g (ftable s ! f)) ?s1"
      using f True dec sec(1,2) sec(5) [of f ?h ?g] by (simp add: fileclose_def upd_file_nth Let_def last_close_def)
    then show ?thesis using f True by (intro exI [of _ ?s1]) (simp add: ofiles_def upd_file_nth)
  next
    case False
    let ?s1 = "(upd_file f ?g s)\<lparr>thiscpu := settled s\<rparr>"
    have "fileclose w f s = Ok ?s1"
      using f False dec sec(1,2) sec(4) [of f ?g] by (simp add: fileclose_def upd_file_nth Let_def)
    then show ?thesis using f False dec by (intro exI [of _ ?s1]) (simp add: ofiles_def upd_file_nth)
  qed
qed


section \<open>Descriptors of the calling process\<close>

lemma argint_settled:
  assumes c: "in_proc c s" and sz: "p_sz (procs s ! c) \<le> KERNBASE" and a: "argint n s = Ok (x, s0)"
  shows "s0 = s\<lparr>thiscpu := settled s\<rparr>"
proof -
  let ?t = "s\<lparr>thiscpu := settled s\<rparr>"
  have ct: "in_proc c ?t" "p_sz (procs ?t ! c) \<le> KERNBASE" using c sz by (simp_all add: in_proc_settled)
  show ?thesis using a fetchint_eq [OF ct(1) refl ct(2)]
    by (auto simp: argint_def curproc_eq [OF c] andThen_eq_Ok_iff split: if_splits)
qed

lemma argfd_eq:
  assumes c: "in_proc c s" and sz: "p_sz (procs s ! c) \<le> KERNBASE" and a: "argint n s = Ok (Some fd, s0)"
  shows "argfd n s = Ok (map_option (\<lambda>f. (unat fd, f)) (open_file s c fd), s\<lparr>thiscpu := settled s\<rparr>)"
proof -
  have i: "c < length (procs s)" using c by (simp add: in_proc_def)
  have c': "in_proc c (s\<lparr>thiscpu := settled s\<rparr>)" using c by (simp add: in_proc_settled)
  show ?thesis using argint_settled [OF c sz a] i
    by (auto simp: argfd_def a curproc_eq [OF c'] open_file_def ofiles_nth split: option.split)
qed

lemma fd_okD:
  assumes "fd_ok s" "in_proc c s"
  shows "c < length (procs s)" "c < NPROC" "length (ofiles s ! c) = NOFILE" "length (ftable s) = NFILE"
    "f < NFILE \<Longrightarrow> sint (f_ref (ftable s ! f)) = int (fd_count (ofiles s) f)"
    "k < NOFILE \<Longrightarrow> ofiles s ! c ! k = Some f \<Longrightarrow> f < NFILE \<and> 1 \<le> fd_count (ofiles s) f"
proof -
  show i: "c < length (procs s)" "c < NPROC" using assms by (auto simp: in_proc_def fd_ok_def ofiles_def)
  then have t: "ofiles s ! c \<in> set (ofiles s)" by (simp add: ofiles_def)
  then show "length (ofiles s ! c) = NOFILE" "length (ftable s) = NFILE" using assms by (auto simp: fd_ok_def)
  show "f < NFILE \<Longrightarrow> sint (f_ref (ftable s ! f)) = int (fd_count (ofiles s) f)" using assms by (simp add: fd_ok_def)
  assume k: "k < NOFILE" "ofiles s ! c ! k = Some f"
  then have f: "Some f \<in> set (ofiles s ! c)" using t assms by (metis fd_ok_def nth_mem)
  then have "1 \<le> count_list (ofiles s ! c) (Some f)" by (metis count_list_0_iff One_nat_def Suc_leI neq0_conv)
  also have "\<dots> \<le> fd_count (ofiles s) f" unfolding fd_count_def using t by (intro member_le_sum_list) auto
  finally show "f < NFILE \<and> 1 \<le> fd_count (ofiles s) f" using f t assms by (auto simp: fd_ok_def)
qed

lemma open_fileD: "open_file s c fd = Some f \<Longrightarrow> unat fd < NOFILE \<and> ofiles s ! c ! unat fd = Some f"
proof -
  assume "open_file s c fd = Some f"
  then have "0 \<le> sint fd" "sint fd < int NOFILE" "ofiles s ! c ! unat fd = Some f" by (auto simp: open_file_def split: if_splits)
  then show ?thesis using sint_nonneg_unat [of fd] by linarith
qed

text \<open>Adding a reference to \<open>f\<close> in a free slot \<open>k\<close> of process \<open>i\<close>, in either order.\<close>

lemma fd_ok_add:
  fixes s s' :: "'a fil_scheme"
  assumes ok: "fd_ok s" and i: "i < NPROC" "k < NOFILE" "ofiles s ! i ! k = None" and f: "f < NFILE"
    and os: "ofiles s' = (ofiles s)[i := (ofiles s ! i)[k := Some f]]" and len: "length (ftable s') = NFILE"
    and refs: "\<And>g. g < NFILE \<Longrightarrow> f_ref (ftable s' ! g) = f_ref (ftable s ! g) + (if g = f then 1 else 0)"
  shows "fd_ok s'"
proof (rule fd_ok_set [OF ok i(1,2) len os])
  have "sint (f_ref (ftable s ! f) + 1) = sint (f_ref (ftable s ! f)) + 1"
    using ok f fd_count_le [OF ok, of f] by (intro sint_succ) (auto simp: fd_ok_def)
  then show "\<forall>g<NFILE. sint (f_ref (ftable s' ! g)) + (if ofiles s ! i ! k = Some g then 1 else 0)
      = sint (f_ref (ftable s ! g)) + (if Some f = Some g then 1 else 0)"
    using refs i(3) by auto
qed (use f in auto)

lemma fdalloc_eq:
  fixes s :: "'a ptab_scheme"
  assumes c: "in_proc c s"
  shows "fdalloc f s = (case find_idx (\<lambda>x. x = None) (ofiles s ! c) of
      Some fd \<Rightarrow> Ok (Some fd, (upd_proc c (\<lambda>q. q\<lparr>p_ofile := (p_ofile q)[fd := Some f]\<rparr>) s)\<lparr>thiscpu := settled s\<rparr>)
    | None \<Rightarrow> Ok (None, s\<lparr>thiscpu := settled s\<rparr>))"
proof -
  have "c < length (procs s)" using c by (simp add: in_proc_def)
  then show ?thesis by (simp add: fdalloc_def curproc_eq [OF c] ofiles_nth upd_proc_def split: option.split)
qed

lemma in_proc_tab_upd:
  "in_proc c (upd_proc i g (s :: 'a fil_scheme)) = in_proc c s" "in_proc c (upd_file f h s) = in_proc c s"
  by (simp_all add: in_proc_def wf_cpu_def upd_proc_def upd_file_def)


lemma ofiles_cpu [simp]: "ofiles (s\<lparr>thiscpu := x\<rparr>) = ofiles s"
  by (simp add: ofiles_def)

lemma ofiles_file [simp]: "ofiles (upd_file f g s) = ofiles s"
  by (simp add: ofiles_def)

lemma ftable_upd_proc [simp]: "ftable (upd_proc i g s) = ftable s"
  by (simp add: upd_proc_def)

lemma fd_ok_cpu [simp]: "fd_ok (s\<lparr>thiscpu := x\<rparr>) = fd_ok s"
  by (simp add: fd_ok_def)

lemma free_slot:
  assumes "find_idx (\<lambda>x. x = None) (ofiles s ! c) = Some k" "length (ofiles s ! c) = NOFILE"
  shows "k < NOFILE" "ofiles s ! c ! k = None"
  using find_idx_SomeD [OF assms(1)] assms(2) by auto

lemma sys_dup_typed:
  fixes s :: "'a fil_scheme"
  assumes c: "in_proc c s" and ok: "fd_ok s" and sz: "p_sz (procs s ! c) \<le> KERNBASE" and a: "argint 0 s = Ok (Some fd, s0)"
  shows "\<exists>r s'. sys_dup s = Ok (r, s') \<and> fd_ok s'
    \<and> (case (open_file s c fd, find_idx (\<lambda>x. x = None) (ofiles s ! c)) of
         (Some f, Some k) \<Rightarrow> r = of_nat k \<and> ofiles s' = (ofiles s)[c := (ofiles s ! c)[k := Some f]]
       | _ \<Rightarrow> r = - 1 \<and> ofiles s' = ofiles s)"
proof -
  let ?t = "s\<lparr>thiscpu := settled s\<rparr>"
  note d = fd_okD [OF ok c] and fd = argfd_eq [OF c sz a]
  have ct: "in_proc c ?t" using c by (simp add: in_proc_settled)
  show ?thesis
  proof (cases "open_file s c fd")
    case None
    then show ?thesis using fd ok by (simp add: sys_dup_def)
  next
    case (Some f)
    then have f: "f < NFILE" "1 \<le> sint (f_ref (ftable s ! f))" using open_fileD [OF Some] d(5,6) by force+
    show ?thesis
    proof (cases "find_idx (\<lambda>x. x = None) (ofiles s ! c)")
      case None
      then show ?thesis using fd Some ok fdalloc_eq [OF ct, of f] by (simp add: sys_dup_def)
    next
      case k: (Some k)
      let ?u = "(upd_proc c (\<lambda>q. q\<lparr>p_ofile := (p_ofile q)[k := Some f]\<rparr>) ?t)\<lparr>thiscpu := settled s\<rparr>"
      let ?s' = "(upd_file f (\<lambda>f. f\<lparr>f_ref := f_ref f + 1\<rparr>) ?u)\<lparr>thiscpu := settled ?u\<rparr>"
      have cu: "in_proc c ?u" using ct in_proc_settled by (simp add: in_proc_def wf_cpu_def upd_proc_def)
      have run: "sys_dup s = Ok (of_nat k, ?s')"
        using fd Some k fdalloc_eq [OF ct, of f] filedup_eq [OF cu, of f] f(2) by (simp add: sys_dup_def)
      have os: "ofiles ?s' = (ofiles s)[c := (ofiles s ! c)[k := Some f]]" using ofiles_upd [of c ?t k "Some f"] d(1) by simp
      have "fd_ok ?s'"
        by (rule fd_ok_add [OF ok d(2) free_slot [OF k d(3)] f(1) os]) (use d(4) f(1) in \<open>simp_all add: upd_file_nth\<close>)
      then show ?thesis using run os Some k by simp
    qed
  qed
qed

lemma sys_close_typed:
  fixes s :: "'a fil_scheme"
  assumes c: "in_proc c s" and ok: "fd_ok s" and sz: "p_sz (procs s ! c) \<le> KERNBASE" and a: "argint 0 s = Ok (Some fd, s0)"
  shows "\<exists>s'. fd_ok s' \<and> (case open_file s c fd of
      None \<Rightarrow> sys_close w s = Ok (- 1, s') \<and> ofiles s' = ofiles s
    | Some f \<Rightarrow> ofiles s' = (ofiles s)[c := (ofiles s ! c)[unat fd := None]]
        \<and> sys_close w s = andThen (if fd_count (ofiles s) f = 1 then last_close w (ftable s ! f) s' else Ok s') (\<lambda>s. Ok (0, s)))"
proof -
  let ?t = "s\<lparr>thiscpu := settled s\<rparr>"
  note d = fd_okD [OF ok c] and fd = argfd_eq [OF c sz a]
  have ct: "in_proc c ?t" using c by (simp add: in_proc_settled)
  show ?thesis
  proof (cases "open_file s c fd")
    case None
    then show ?thesis using fd ok by (intro exI [of _ ?t]) (simp add: sys_close_def)
  next
    case (Some f)
    note o = open_fileD [OF Some]
    then have f: "f < NFILE" "1 \<le> sint (f_ref (ftable s ! f))" "sint (f_ref (ftable s ! f)) = 1 \<longleftrightarrow> fd_count (ofiles s) f = 1"
      using d(5,6) by force+
    let ?u = "(upd_proc c (\<lambda>q. q\<lparr>p_ofile := (p_ofile q)[unat fd := None]\<rparr>) ?t)"
    have cu: "in_proc c ?u" using ct by (simp add: in_proc_def wf_cpu_def upd_proc_def)
    have us: "set_ofile (unat fd) None ?t = Ok ?u" by (simp add: set_ofile_def curproc_eq [OF ct] upd_proc_def)
    have fu: "f < length (ftable ?u)" "1 \<le> sint (f_ref (ftable ?u ! f))" using f d(4) by simp_all
    obtain s' where s': "fileclose w f ?u = (if sint (f_ref (ftable ?u ! f)) = 1 then last_close w (ftable ?u ! f) s' else Ok s')"
      "ofiles s' = ofiles ?u" "length (ftable s') = length (ftable ?u)"
      "\<forall>k. sint (f_ref (ftable s' ! k)) = sint (f_ref (ftable ?u ! k)) - (if k = f then 1 else 0)"
      using fileclose_eq [OF cu fu, of w] by blast
    have os: "ofiles s' = (ofiles s)[c := (ofiles s ! c)[unat fd := None]]" using s'(2) ofiles_upd [of c ?t "unat fd" None] d(1) by simp
    have "fd_ok s'"
      by (rule fd_ok_set [OF ok d(2) _ _ os]) (use o s'(3,4) d(4) in auto)
    then show ?thesis using fd Some us s'(1) os f(3) by (intro exI [of _ s']) (simp add: sys_close_def)
  qed
qed


lemma open_typed:
  fixes s :: "'a fil_scheme"
  assumes c: "in_proc c s" and ok: "fd_ok s"
    and f: "find_idx (\<lambda>f. f_ref f = 0) (ftable s) = Some f" and k: "find_idx (\<lambda>x. x = None) (ofiles s ! c) = Some k"
  shows "\<exists>s1 s2. filealloc s = Ok (Some f, s1) \<and> fdalloc f s1 = Ok (Some k, s2) \<and> fd_ok s2
    \<and> fd_count (ofiles s) f = 0 \<and> ofiles s2 = (ofiles s)[c := (ofiles s ! c)[k := Some f]]"
proof -
  note d = fd_okD [OF ok c]
  have fr: "f < NFILE" "f_ref (ftable s ! f) = 0" using find_idx_SomeD [OF f] d(4) by auto
  let ?s1 = "(upd_file f (\<lambda>f. f\<lparr>f_ref := 1\<rparr>) s)\<lparr>thiscpu := settled s\<rparr>"
  have c1: "in_proc c ?s1" using c in_proc_settled [of c "upd_file f (\<lambda>f. f\<lparr>f_ref := 1\<rparr>) s"] by (simp add: in_proc_tab_upd)
  let ?s2 = "(upd_proc c (\<lambda>q. q\<lparr>p_ofile := (p_ofile q)[k := Some f]\<rparr>) ?s1)\<lparr>thiscpu := settled s\<rparr>"
  have run: "filealloc s = Ok (Some f, ?s1)" "fdalloc f ?s1 = Ok (Some k, ?s2)"
    using filealloc_eq [OF c] f fdalloc_eq [OF c1, of f] k by simp_all
  have os: "ofiles ?s2 = (ofiles s)[c := (ofiles s ! c)[k := Some f]]" using ofiles_upd [of c ?s1 k "Some f"] d(1) by simp
  have "fd_ok ?s2"
    by (rule fd_ok_add [OF ok d(2) free_slot [OF k d(3)] fr(1) os]) (use d(4) fr in \<open>simp_all add: upd_file_nth\<close>)
  moreover have "fd_count (ofiles s) f = 0" using d(5) [OF fr(1)] fr(2) by simp
  ultimately show ?thesis using run os by blast
qed

lemma fork_files_from:
  fixes s :: "'a fil_scheme"
  assumes "k \<le> NOFILE" "in_proc c s" "fd_ok s" "n < NPROC" "n \<noteq> c" "\<forall>i. k \<le> i \<and> i < NOFILE \<longrightarrow> ofiles s ! n ! i = None"
  shows "\<exists>s'. fork_files c n [k..<NOFILE] s = Ok s' \<and> fd_ok s' \<and> ofiles s' = (ofiles s)[n := take k (ofiles s ! n) @ drop k (ofiles s ! c)]"
  using assms
proof (induction k arbitrary: s rule: inc_induct)
  case base
  note d = fd_okD [OF base(2,1)]
  have "length (ofiles s ! n) = NOFILE" using base by (simp add: fd_ok_def)
  then show ?case using base d by simp
next
  case (step k)
  note c = step.prems(1) and ok = step.prems(2)
  note d = fd_okD [OF ok c]
  have n: "length (ofiles s ! n) = NOFILE" "n < length (procs s)" using step.prems(2,3) by (auto simp: fd_ok_def ofiles_def)
  have k: "ofiles s ! n ! k = None" "k < NOFILE" using step.prems(5) step.hyps by auto
  have e: "[k..<NOFILE] = k # [Suc k..<NOFILE]" using k(2) by (simp add: upt_conv_Cons)
  have pk: "p_ofile (procs s ! c) ! k = ofiles s ! c ! k" using d(1) by (simp add: ofiles_nth)
  show ?case
  proof (cases "ofiles s ! c ! k")
    case None
    have "take (Suc k) (ofiles s ! n) @ drop (Suc k) (ofiles s ! c) = take k (ofiles s ! n) @ drop k (ofiles s ! c)"
      using k n(1) d(3) None by (simp add: take_Suc_conv_app_nth Cons_nth_drop_Suc [symmetric])
    then show ?thesis using step.IH [OF c ok step.prems(3,4)] step.prems(5) None pk e by auto
  next
    case (Some f)
    have f: "f < NFILE" "1 \<le> sint (f_ref (ftable s ! f))" using d(6) [OF k(2) Some] d(5) [of f] by auto
    let ?t = "(upd_file f (\<lambda>f. f\<lparr>f_ref := f_ref f + 1\<rparr>) s)\<lparr>thiscpu := settled s\<rparr>"
    let ?u = "upd_proc n (\<lambda>q. q\<lparr>p_ofile := (p_ofile q)[k := Some f]\<rparr>) ?t"
    have cu: "in_proc c ?u" using c by (simp add: in_proc_def wf_cpu_def upd_proc_def upd_file_def)
    have os: "ofiles ?u = (ofiles s)[n := (ofiles s ! n)[k := Some f]]" using ofiles_upd [of n ?t k "Some f"] n(2) by simp
    have ou: "fd_ok ?u"
      by (rule fd_ok_add [OF ok step.prems(3) k(2,1) f(1) os]) (use d(4) f(1) in \<open>simp_all add: upd_file_nth\<close>)
    have nn: "ofiles ?u ! n = (ofiles s ! n)[k := Some f]" "ofiles ?u ! c = ofiles s ! c"
      using os step.prems(3,4) ok by (auto simp: fd_ok_def)
    have "take (Suc k) ((ofiles s ! n)[k := Some f]) @ drop (Suc k) (ofiles s ! c) = take k (ofiles s ! n) @ drop k (ofiles s ! c)"
      using k n(1) d(3) Some by (simp add: take_Suc_conv_app_nth Cons_nth_drop_Suc [symmetric])
    then show ?thesis
      using step.IH [OF cu ou step.prems(3,4)] step.prems(5) nn os filedup_eq [OF c f(2)] Some pk e by (auto simp: andThen_def)
  qed
qed


section \<open>Properties\<close>


text \<open>A process with one descriptor, on a pipe end, that passes 0 as the argument of the system call.\<close>

definition fd_example :: fil where
  "fd_example = user_example\<lparr>ftable := (replicate NFILE file_zero)[5 := file_zero\<lparr>f_ref := 1, f_type := FD_PIPE, f_pipe := 0x80400000\<rparr>],
     procs := (procs user_example)[1 := (procs user_example ! 1)\<lparr>p_ofile := (replicate NOFILE None)[0 := Some 5]\<rparr>]\<rparr>"

lemma user_example_procs: "procs user_example = (replicate NPROC proc_zero)[1 := proc_zero\<lparr>p_state := RUNNABLE, p_pid := 1,
    p_kstack := 0x80200000, p_pgdir := 0x80201000, p_sz := 0x1000\<rparr>]"
  by (simp add: user_example_def fil_example_def fs.defs fs_example_def lg.defs lg_example_def boot_example_def bio.defs bio_example_def
      slk.defs slk_example_def ptab.defs ptab_example_def NPROC_def)

lemma fd_example_ofiles: "ofiles fd_example = (replicate NPROC (replicate NOFILE None))[1 := (replicate NOFILE None)[0 := Some 5]]"
  by (simp add: ofiles_def fd_example_def user_example_procs map_update proc_zero_def NPROC_def)

lemma fd_example_ok: "in_proc 1 fd_example" "fd_ok fd_example" "p_sz (procs fd_example ! 1) \<le> KERNBASE"
  "argint 0 fd_example = Ok (Some 0, fd_example\<lparr>thiscpu := settled fd_example\<rparr>)"
proof -
  show c: "in_proc 1 fd_example" using user_example_ok(1) by (simp add: fd_example_def in_proc_def wf_cpu_def)
  have l: "length (procs user_example) = NPROC" by (simp add: user_example_procs)
  show sz: "p_sz (procs fd_example ! 1) \<le> KERNBASE" using l by (simp add: fd_example_def user_example_procs KERNBASE_def NPROC_def)
  have z: "count_list (replicate n (None :: nat option)) (Some f) = 0" for n f by (induction n) simp_all
  then have z': "fd_count (replicate NPROC (replicate NOFILE None)) f = 0" for f by (simp add: fd_count_def sum_list_replicate)
  have cnt: "fd_count ((replicate NPROC (replicate NOFILE None))[1 := (replicate NOFILE None)[0 := Some 5]]) f = (if f = 5 then 1 else 0)" for f
    using fd_count_update [of 1 "replicate NPROC (replicate NOFILE None)" 0 "Some 5" f]
    by (cases "f = 5") (simp_all add: z', simp_all add: NPROC_def NOFILE_def)
  have ft: "ftable fd_example = (replicate NFILE file_zero)[5 := file_zero\<lparr>f_ref := 1, f_type := FD_PIPE, f_pipe := 0x80400000\<rparr>]"
    by (simp add: fd_example_def)
  show "fd_ok fd_example"
    unfolding fd_ok_def ft fd_example_ofiles cnt
    by (auto simp: nth_list_update NFILE_def file_zero_def NOFILE_def NPROC_def dest!: set_update_subset_insert [THEN subsetD])
  show "argint 0 fd_example = Ok (Some 0, fd_example\<lparr>thiscpu := settled fd_example\<rparr>)"
  proof -
    let ?t = "fd_example\<lparr>thiscpu := settled fd_example\<rparr>"
    have ct: "in_proc 1 ?t" using c by (simp add: in_proc_settled)
    have m: "mem fd_example = user_mem" "cr3 fd_example = 0x1000" "p_tf (procs fd_example ! 1) = 0" "p_sz (procs fd_example ! 1) = 0x1000"
      using l by (simp_all add: fd_example_def user_example_ok) (simp_all add: user_example_procs proc_zero_def NPROC_def)
    have ld: "vload 4 ?t = Ok 0" "vload 5 ?t = Ok 0" "vload 6 ?t = Ok 0" "vload 7 ?t = Ok 0"
      by (simp_all add: vload_def vaddr_def KERNBASE_def m translate_def pde_of_def table_of_def present_def Let_def
          PTE_P_def PTE_ADDR_def PTE_FLAGS_def P2V_def PDX_def PTX_def load32_def user_mem_def)
    have "vloads 4 (Suc (Suc (Suc (Suc 0)))) ?t = Ok [0, 0, 0, 0]" using ld by simp
    moreover have "(4 :: nat) = Suc (Suc (Suc (Suc 0)))" by simp
    ultimately have v: "vloads 4 4 ?t = Ok [0, 0, 0, 0]" by metis
    show ?thesis using fetchint_eq [OF ct refl] sz v
      by (simp add: argint_def curproc_eq [OF c] m TF_esp_def load32_def user_mem_def le32_def get32_def del: One_nat_def)
  qed
qed



end
