(* ===== verification/Syscall.thy ===== *)
theory Syscall
  imports Sysfile
begin

text \<open>
  The system calls on processes (\<^verbatim>\<open>sysproc.c\<close>, \<^verbatim>\<open>sys_ps\<close> of \<^verbatim>\<open>proc.c\<close>) and the dispatch on the number in \<^verbatim>\<open>eax\<close>
  (\<^verbatim>\<open>syscall.c\<close>).
\<close>

section \<open>Definitions\<close>

definition sys_fork :: "'a fil_scheme \<Rightarrow> (u32 \<times> 'a fil_scheme) res" where
  "sys_fork s = fork s"

definition sys_exit :: "('a fil_scheme, 'w) kworld_scheme \<Rightarrow> 'a fil_scheme \<Rightarrow> (u32 \<times> 'a fil_scheme) res" where
  "sys_exit w s = andThen (exit w s) (\<lambda>s. Ok (0, s))"

definition sys_wait :: "('a ptab_scheme, 'w) world_scheme \<Rightarrow> 'a ptab_scheme \<Rightarrow> (u32 \<times> 'a ptab_scheme) res" where
  "sys_wait w s = wait w s"

definition sys_kill :: "'a ptab_scheme \<Rightarrow> (u32 \<times> 'a ptab_scheme) res" where
  "sys_kill s =
     andThen (argint 0 s) (\<lambda>(r, s).
       case r of
         None \<Rightarrow> Ok (- 1, s)
       | Some pid \<Rightarrow> andThen (kill pid s) (\<lambda>(r, s). Ok (word_of_int r, s)))"

definition sys_getpid :: "'a ptab_scheme \<Rightarrow> (u32 \<times> 'a ptab_scheme) res" where
  "sys_getpid s = andThen (curproc s) (\<lambda>(i, s). Ok (p_pid (procs s ! i), s))"

definition sys_sbrk :: "'a ptab_scheme \<Rightarrow> (u32 \<times> 'a ptab_scheme) res" where
  "sys_sbrk s =
     andThen (argint 0 s) (\<lambda>(r, s).
       case r of
         None \<Rightarrow> Ok (- 1, s)
       | Some n \<Rightarrow>
           andThen (curproc s) (\<lambda>(i, s).
             let addr = p_sz (procs s ! i) in
             andThen (growproc n s) (\<lambda>(r, s). Ok (if sint r < 0 then - 1 else addr, s))))"

fun sys_sleep_loop :: "nat \<Rightarrow> ('a ptab_scheme \<Rightarrow> 'a ptab_scheme) \<Rightarrow> u32 \<Rightarrow> u32 \<Rightarrow> 'a ptab_scheme \<Rightarrow> (u32 \<times> 'a ptab_scheme) res" where
  "sys_sleep_loop 0 env ticks0 n s = Hangs"
| "sys_sleep_loop (Suc fuel) env ticks0 n s =
     (if ticks s - ticks0 < n then
        andThen (my_killed s) (\<lambda>(k, s).
          if k then andThen (release TICKSLOCK s) (\<lambda>s. Ok (- 1, s))
          else andThen (sleep env CHAN_TICKS (Some TICKSLOCK) s) (sys_sleep_loop fuel env ticks0 n))
      else andThen (release TICKSLOCK s) (\<lambda>s. Ok (0, s)))"

definition sys_sleep :: "('a ptab_scheme, 'w) world_scheme \<Rightarrow> 'a ptab_scheme \<Rightarrow> (u32 \<times> 'a ptab_scheme) res" where
  "sys_sleep w s =
     andThen (argint 0 s) (\<lambda>(r, s).
       case r of
         None \<Rightarrow> Ok (- 1, s)
       | Some n \<Rightarrow> andThen (acquire TICKSLOCK s) (\<lambda>s. sys_sleep_loop (w_fuel w) (w_env w) (ticks s) n s))"

definition sys_uptime :: "'a ptab_scheme \<Rightarrow> (u32 \<times> 'a ptab_scheme) res" where
  "sys_uptime s =
     andThen (acquire TICKSLOCK s) (\<lambda>s.
       let xticks = ticks s in andThen (release TICKSLOCK s) (\<lambda>s. Ok (xticks, s)))"

definition sys_ps :: "'a ptab_scheme \<Rightarrow> (u32 \<times> 'a ptab_scheme) res" where
  "sys_ps s =
     andThen (argint 0 s) (\<lambda>(state_t, s).
     andThen (argint 1 s) (\<lambda>(pid_t, s).
     andThen (argstr 2 s) (\<lambda>(name_t, s).
       let state_t = (case state_t of None \<Rightarrow> - 1 | Some x \<Rightarrow> x);
           pid_t = (case pid_t of None \<Rightarrow> - 1 | Some x \<Rightarrow> x);
           name_t = (case name_t of None \<Rightarrow> ''None'' | Some n \<Rightarrow> chars n) in
       andThen (ps_body state_t pid_t name_t s) (\<lambda>(r, s). Ok (word_of_int r, s)))))"

section \<open>Dispatch\<close>

text \<open>The table \<^verbatim>\<open>syscalls[]\<close>; \<open>None\<close> outside it.\<close>

definition syscalls :: "('a fil_scheme, 'w) kworld_scheme \<Rightarrow> u32 \<Rightarrow> ('a fil_scheme \<Rightarrow> (u32 \<times> 'a fil_scheme) res) option" where
  "syscalls w num =
     (if num = 1 then Some sys_fork
      else if num = 2 then Some (sys_exit w)
      else if num = 3 then Some (sys_wait w)
      else if num = 4 then Some (sys_pipe w)
      else if num = 5 then Some (sys_read w)
      else if num = 6 then Some sys_kill
      else if num = 7 then Some (sys_exec w)
      else if num = 8 then Some (sys_fstat w)
      else if num = 9 then Some (sys_chdir w)
      else if num = 10 then Some sys_dup
      else if num = 11 then Some sys_getpid
      else if num = 12 then Some sys_sbrk
      else if num = 13 then Some (sys_sleep w)
      else if num = 14 then Some sys_uptime
      else if num = 15 then Some (sys_open w)
      else if num = 16 then Some (sys_write w)
      else if num = 17 then Some (sys_mknod w)
      else if num = 18 then Some (sys_unlink w)
      else if num = 19 then Some (sys_link w)
      else if num = 20 then Some (sys_mkdir w)
      else if num = 21 then Some (sys_close w)
      else if num = 22 then Some sys_ps
      else None)"

definition set_eax :: "nat \<Rightarrow> u32 \<Rightarrow> 'a ptab_scheme \<Rightarrow> 'a ptab_scheme" where
  "set_eax i v s = s\<lparr>mem := store32 (mem s) (p_tf (procs s ! i) + TF_eax) v\<rparr>"

definition syscall :: "('a fil_scheme, 'w) kworld_scheme \<Rightarrow> 'a fil_scheme \<Rightarrow> 'a fil_scheme res" where
  "syscall w s =
     andThen (curproc s) (\<lambda>(i, s).
       let num = load32 (mem s) (p_tf (procs s ! i) + TF_eax) in
       case syscalls w num of
         Some f \<Rightarrow> andThen (f s) (\<lambda>(r, s). Ok (set_eax i r s))
       | None \<Rightarrow>
           andThen (cprintf (''%d %s: unknown sys call %d'' @ [CHR 0x0A])
             [ANum (p_pid (procs s ! i)), AStr (Some (p_name (procs s ! i))), ANum num] s) (\<lambda>s.
           Ok (set_eax i (- 1) s)))"

end
