(* ===== verification/Apic.thy ===== *)
theory Apic
  imports Lifecycle
begin

text \<open>
  The interrupt controllers (\<^verbatim>\<open>lapic.c\<close>, \<^verbatim>\<open>ioapic.c\<close>, \<^verbatim>\<open>picirq.c\<close>) and the clock behind the CMOS ports. Writes
  to ports and registers are recorded in order; reads are answered by the parameter \<open>w\<close>. A loop that
  polls a register looks at most \<open>w_fuel w\<close> times.
\<close>

section \<open>Definitions\<close>

definition outb :: "u16 \<Rightarrow> u8 \<Rightarrow> 'a krn_scheme \<Rightarrow> 'a krn_scheme" where
  "outb port v s = s\<lparr>port_out := port_out s @ [(port, ucast v)]\<rparr>"

definition T_IRQ0 :: u32 where "T_IRQ0 = 32"
definition IRQ_TIMER :: u32 where "IRQ_TIMER = 0"
definition IRQ_KBD :: u32 where "IRQ_KBD = 1"
definition IRQ_COM1 :: u32 where "IRQ_COM1 = 4"
definition IRQ_IDE :: u32 where "IRQ_IDE = 14"
definition IRQ_ERROR :: u32 where "IRQ_ERROR = 19"
definition IRQ_SPURIOUS :: u32 where "IRQ_SPURIOUS = 31"

subsection \<open>The local APIC\<close>

definition LAPIC_ID :: u32 where "LAPIC_ID = 0x20 div 4"
definition LAPIC_VER :: u32 where "LAPIC_VER = 0x30 div 4"
definition LAPIC_TPR :: u32 where "LAPIC_TPR = 0x80 div 4"
definition LAPIC_EOI :: u32 where "LAPIC_EOI = 0xB0 div 4"
definition LAPIC_SVR :: u32 where "LAPIC_SVR = 0xF0 div 4"
definition LAPIC_ESR :: u32 where "LAPIC_ESR = 0x280 div 4"
definition LAPIC_ICRLO :: u32 where "LAPIC_ICRLO = 0x300 div 4"
definition LAPIC_ICRHI :: u32 where "LAPIC_ICRHI = 0x310 div 4"
definition LAPIC_TIMER :: u32 where "LAPIC_TIMER = 0x320 div 4"
definition LAPIC_PCINT :: u32 where "LAPIC_PCINT = 0x340 div 4"
definition LAPIC_LINT0 :: u32 where "LAPIC_LINT0 = 0x350 div 4"
definition LAPIC_LINT1 :: u32 where "LAPIC_LINT1 = 0x360 div 4"
definition LAPIC_ERROR :: u32 where "LAPIC_ERROR = 0x370 div 4"
definition LAPIC_TICR :: u32 where "LAPIC_TICR = 0x380 div 4"
definition LAPIC_TDCR :: u32 where "LAPIC_TDCR = 0x3E0 div 4"
definition ICR_INIT :: u32 where "ICR_INIT = 0x500"
definition ICR_STARTUP :: u32 where "ICR_STARTUP = 0x600"
definition ICR_DELIVS :: u32 where "ICR_DELIVS = 0x1000"
definition ICR_ASSERT :: u32 where "ICR_ASSERT = 0x4000"
definition ICR_LEVEL :: u32 where "ICR_LEVEL = 0x8000"
definition ICR_BCAST :: u32 where "ICR_BCAST = 0x80000"
definition LVT_PERIODIC :: u32 where "LVT_PERIODIC = 0x20000"
definition LVT_MASKED :: u32 where "LVT_MASKED = 0x10000"

definition lapicw :: "u32 \<Rightarrow> u32 \<Rightarrow> 'a krn_scheme \<Rightarrow> 'a krn_scheme" where
  "lapicw index val s = s\<lparr>lapic_out := lapic_out s @ [(index, val)]\<rparr>"

primrec lapicws :: "(u32 \<times> u32) list \<Rightarrow> 'a krn_scheme \<Rightarrow> 'a krn_scheme" where
  "lapicws [] s = s"
| "lapicws (x # xs) s = lapicws xs (lapicw (fst x) (snd x) s)"

fun lapic_poll :: "nat \<Rightarrow> ('a krn_scheme, 'w) kworld_scheme \<Rightarrow> 'a krn_scheme \<Rightarrow> 'a krn_scheme res" where
  "lapic_poll 0 w s = Hangs"
| "lapic_poll (Suc fuel) w s =
     (if w_lapicr w LAPIC_ICRLO s AND ICR_DELIVS \<noteq> 0 then lapic_poll fuel w s else Ok s)"

definition lapicinit :: "('a krn_scheme, 'w) kworld_scheme \<Rightarrow> 'a krn_scheme \<Rightarrow> 'a krn_scheme res" where
  "lapicinit w s =
     (if lapic s = 0 then Ok s
      else
        let s = lapicws
              [(LAPIC_SVR, 0x100 OR (T_IRQ0 + IRQ_SPURIOUS)), (LAPIC_TDCR, 0xB),
               (LAPIC_TIMER, LVT_PERIODIC OR (T_IRQ0 + IRQ_TIMER)), (LAPIC_TICR, 10000000),
               (LAPIC_LINT0, LVT_MASKED), (LAPIC_LINT1, LVT_MASKED)] s;
            s = (if drop_bit 16 (w_lapicr w LAPIC_VER s) AND 0xFF \<ge> 4 then lapicw LAPIC_PCINT LVT_MASKED s else s);
            s = lapicws
              [(LAPIC_ERROR, T_IRQ0 + IRQ_ERROR), (LAPIC_ESR, 0), (LAPIC_ESR, 0), (LAPIC_EOI, 0), (LAPIC_ICRHI, 0),
               (LAPIC_ICRLO, ICR_BCAST OR ICR_INIT OR ICR_LEVEL)] s in
        andThen (lapic_poll (w_fuel w) w s) (\<lambda>s. Ok (lapicw LAPIC_TPR 0 s)))"

definition lapicid :: "('a krn_scheme, 'w) kworld_scheme \<Rightarrow> 'a krn_scheme \<Rightarrow> u32" where
  "lapicid w s = (if lapic s = 0 then 0 else drop_bit 24 (w_lapicr w LAPIC_ID s))"

definition lapiceoi :: "'a krn_scheme \<Rightarrow> 'a krn_scheme" where
  "lapiceoi s = (if lapic s \<noteq> 0 then lapicw LAPIC_EOI 0 s else s)"

definition CMOS_PORT :: u16 where "CMOS_PORT = 0x70"
definition CMOS_RETURN :: u16 where "CMOS_RETURN = 0x71"

definition lapicstartap :: "u8 \<Rightarrow> u32 \<Rightarrow> 'a krn_scheme \<Rightarrow> 'a krn_scheme" where
  "lapicstartap aid addr s =
     (let s = outb (CMOS_PORT + 1) 0x0A (outb CMOS_PORT 0xF s);
          wrv = P2V (0x400 OR 0x67);
          s = s\<lparr>mem := store16 (store16 (mem s) wrv 0) (wrv + 2) (ucast (drop_bit 4 addr))\<rparr>;
          hi = (LAPIC_ICRHI, push_bit 24 (ucast aid));
          lo = (LAPIC_ICRLO, ICR_STARTUP OR drop_bit 12 addr) in
      lapicws [hi, (LAPIC_ICRLO, ICR_INIT OR ICR_LEVEL OR ICR_ASSERT), (LAPIC_ICRLO, ICR_INIT OR ICR_LEVEL),
        hi, lo, hi, lo] s)"

subsection \<open>The CMOS clock\<close>

record rtcdate =
  rt_second :: u32
  rt_minute :: u32
  rt_hour :: u32
  rt_day :: u32
  rt_month :: u32
  rt_year :: u32

definition cmos_read :: "('a krn_scheme, 'w) kworld_scheme \<Rightarrow> u8 \<Rightarrow> 'a krn_scheme \<Rightarrow> u32 \<times> 'a krn_scheme" where
  "cmos_read w reg s = (let (v, s) = w_inb w CMOS_RETURN (outb CMOS_PORT reg s) in (ucast v, s))"

definition fill_rtcdate :: "('a krn_scheme, 'w) kworld_scheme \<Rightarrow> 'a krn_scheme \<Rightarrow> rtcdate \<times> 'a krn_scheme" where
  "fill_rtcdate w s =
     (let (sec, s) = cmos_read w 0 s; (mi, s) = cmos_read w 2 s; (h, s) = cmos_read w 4 s;
          (d, s) = cmos_read w 7 s; (mo, s) = cmos_read w 8 s; (y, s) = cmos_read w 9 s in
      (\<lparr>rt_second = sec, rt_minute = mi, rt_hour = h, rt_day = d, rt_month = mo, rt_year = y\<rparr>, s))"

fun cmos_stable :: "nat \<Rightarrow> ('a krn_scheme, 'w) kworld_scheme \<Rightarrow> 'a krn_scheme \<Rightarrow> (rtcdate \<times> 'a krn_scheme) res" where
  "cmos_stable 0 w s = Hangs"
| "cmos_stable (Suc fuel) w s =
     (let (t1, s) = fill_rtcdate w s; (a, s) = cmos_read w 0xa s in
      if a AND 0x80 \<noteq> 0 then cmos_stable fuel w s
      else
        let (t2, s) = fill_rtcdate w s in
        if t1 = t2 then Ok (t1, s) else cmos_stable fuel w s)"

definition bcd_conv :: "u32 \<Rightarrow> u32" where
  "bcd_conv x = drop_bit 4 x * 10 + (x AND 0xf)"

definition conv_rtcdate :: "rtcdate \<Rightarrow> rtcdate" where
  "conv_rtcdate t = \<lparr>rt_second = bcd_conv (rt_second t), rt_minute = bcd_conv (rt_minute t), rt_hour = bcd_conv (rt_hour t),
     rt_day = bcd_conv (rt_day t), rt_month = bcd_conv (rt_month t), rt_year = bcd_conv (rt_year t)\<rparr>"

definition cmostime :: "('a krn_scheme, 'w) kworld_scheme \<Rightarrow> 'a krn_scheme \<Rightarrow> (rtcdate \<times> 'a krn_scheme) res" where
  "cmostime w s =
     (let (sb, s) = cmos_read w 0xb s; bcd = (sb AND 4 = 0) in
      andThen (cmos_stable (w_fuel w) w s) (\<lambda>(t, s).
        let t = (if bcd then conv_rtcdate t else t) in
        Ok (t\<lparr>rt_year := rt_year t + 2000\<rparr>, s)))"

subsection \<open>The I/O APIC and the PIC\<close>

definition REG_ID :: u32 where "REG_ID = 0"
definition REG_VER :: u32 where "REG_VER = 1"
definition REG_TABLE :: u32 where "REG_TABLE = 0x10"
definition INT_DISABLED :: u32 where "INT_DISABLED = 0x10000"

definition ioapicwrite :: "u32 \<Rightarrow> u32 \<Rightarrow> 'a krn_scheme \<Rightarrow> 'a krn_scheme" where
  "ioapicwrite reg d s = s\<lparr>ioapic_out := ioapic_out s @ [(reg, d)]\<rparr>"

definition ioapicread :: "('a krn_scheme, 'w) kworld_scheme \<Rightarrow> u32 \<Rightarrow> 'a krn_scheme \<Rightarrow> u32" where
  "ioapicread w reg s = w_ioapicr w reg s"

primrec ioapic_mask :: "nat \<Rightarrow> 'a krn_scheme \<Rightarrow> 'a krn_scheme" where
  "ioapic_mask 0 s = s"
| "ioapic_mask (Suc i) s =
     (let s = ioapic_mask i s in
      ioapicwrite (REG_TABLE + 2 * of_nat i + 1) 0 (ioapicwrite (REG_TABLE + 2 * of_nat i) (INT_DISABLED OR (T_IRQ0 + of_nat i)) s))"

definition ioapicinit :: "('a krn_scheme, 'w) kworld_scheme \<Rightarrow> 'a krn_scheme \<Rightarrow> 'a krn_scheme res" where
  "ioapicinit w s =
     (let maxintr = drop_bit 16 (ioapicread w REG_VER s) AND 0xFF;
          idv = drop_bit 24 (ioapicread w REG_ID s) in
      andThen
        (if idv \<noteq> ucast (ioapicid s)
         then cprintf (''ioapicinit: id isn'' @ [CHR 0x27] @ ''t equal to ioapicid; not a MP'' @ [CHR 0x0A]) [] s
         else Ok s) (\<lambda>s. Ok (ioapic_mask (Suc (unat maxintr)) s)))"

definition ioapicenable :: "u32 \<Rightarrow> u32 \<Rightarrow> 'a krn_scheme \<Rightarrow> 'a krn_scheme" where
  "ioapicenable irq cpunum s =
     ioapicwrite (REG_TABLE + 2 * irq + 1) (push_bit 24 cpunum) (ioapicwrite (REG_TABLE + 2 * irq) (T_IRQ0 + irq) s)"

definition picinit :: "'a krn_scheme \<Rightarrow> 'a krn_scheme" where
  "picinit s = outb 0xA1 0xFF (outb 0x21 0xFF s)"

end
