(* ===== verification/Ide.thy ===== *)
theory Ide
  imports Apic
begin

text \<open>
  The IDE disk driver (\<^verbatim>\<open>ide.c\<close>). The queue linked through \<^verbatim>\<open>qnext\<close> is the list \<open>idequeue\<close> of buffer indices,
  the active request first. The commands sent to the controller are recorded in \<open>port_out\<close>; the data
  of a write follows its command, one entry for each 32-bit word.
\<close>

section \<open>Definitions\<close>

definition IDE_BSY :: u8 where "IDE_BSY = 0x80"
definition IDE_DRDY :: u8 where "IDE_DRDY = 0x40"
definition IDE_DF :: u8 where "IDE_DF = 0x20"
definition IDE_ERR :: u8 where "IDE_ERR = 1"
definition IDE_CMD_READ :: u8 where "IDE_CMD_READ = 0x20"
definition IDE_CMD_WRITE :: u8 where "IDE_CMD_WRITE = 0x30"
definition IDE_CMD_RDMUL :: u8 where "IDE_CMD_RDMUL = 0xc4"
definition IDE_CMD_WRMUL :: u8 where "IDE_CMD_WRMUL = 0xc5"
definition SECTOR_SIZE :: nat where "SECTOR_SIZE = 512"
definition FSSIZE :: u32 where "FSSIZE = 1000"

fun idewait_loop :: "nat \<Rightarrow> ('a krn_scheme, 'w) kworld_scheme \<Rightarrow> bool \<Rightarrow> 'a krn_scheme \<Rightarrow> (bool \<times> 'a krn_scheme) res" where
  "idewait_loop 0 w checkerr s = Hangs"
| "idewait_loop (Suc fuel) w checkerr s =
     (let (r, s) = w_inb w 0x1f7 s in
      if r AND (IDE_BSY OR IDE_DRDY) \<noteq> IDE_DRDY then idewait_loop fuel w checkerr s
      else Ok (\<not> (checkerr \<and> r AND (IDE_DF OR IDE_ERR) \<noteq> 0), s))"

definition idewait :: "('a krn_scheme, 'w) kworld_scheme \<Rightarrow> bool \<Rightarrow> 'a krn_scheme \<Rightarrow> (bool \<times> 'a krn_scheme) res" where
  "idewait w checkerr s = idewait_loop (w_fuel w) w checkerr s"

primrec ide_probe :: "nat \<Rightarrow> ('a krn_scheme, 'w) kworld_scheme \<Rightarrow> 'a krn_scheme \<Rightarrow> 'a krn_scheme" where
  "ide_probe 0 w s = s"
| "ide_probe (Suc n) w s =
     (let (r, s) = w_inb w 0x1f7 s in if r \<noteq> 0 then s\<lparr>havedisk1 := True\<rparr> else ide_probe n w s)"

definition ideinit :: "('a krn_scheme, 'w) kworld_scheme \<Rightarrow> 'a krn_scheme \<Rightarrow> 'a krn_scheme res" where
  "ideinit w s =
     (let s = ioapicenable IRQ_IDE (of_nat (length (cpus s)) - 1) (initlock IDELOCK s) in
      andThen (idewait w False s) (\<lambda>(_, s).
        Ok (outb 0x1f6 0xe0 (ide_probe 1000 w (outb 0x1f6 (0xe0 OR 0x10) s)))))"

primrec outsl :: "u16 \<Rightarrow> u32 list \<Rightarrow> 'a krn_scheme \<Rightarrow> 'a krn_scheme" where
  "outsl port [] s = s"
| "outsl port (x # xs) s = outsl port xs (s\<lparr>port_out := port_out s @ [(port, x)]\<rparr>)"

primrec insl :: "('a krn_scheme, 'w) kworld_scheme \<Rightarrow> u16 \<Rightarrow> nat \<Rightarrow> 'a krn_scheme \<Rightarrow> u32 list \<times> 'a krn_scheme" where
  "insl w port 0 s = ([], s)"
| "insl w port (Suc n) s = (let (x, s) = w_inl w port s; (xs, s) = insl w port n s in (x # xs, s))"

definition idestart :: "('a krn_scheme, 'w) kworld_scheme \<Rightarrow> nat option \<Rightarrow> 'a krn_scheme \<Rightarrow> 'a krn_scheme res" where
  "idestart w p s =
     (case p of
        None \<Rightarrow> Panic ''idestart''
      | Some i \<Rightarrow>
          if b_blockno (bufs s ! i) \<ge> FSSIZE then Panic ''incorrect blockno''
          else
            let sector_per_block = BSIZE div SECTOR_SIZE;
                sector = b_blockno (bufs s ! i) * of_nat sector_per_block;
                read_cmd = (if sector_per_block = 1 then IDE_CMD_READ else IDE_CMD_RDMUL);
                write_cmd = (if sector_per_block = 1 then IDE_CMD_WRITE else IDE_CMD_WRMUL) in
            if sector_per_block > 7 then Panic ''idestart''
            else
              andThen (idewait w False s) (\<lambda>(_, s).
                let b = bufs s ! i;
                    s = outb 0x3f6 0 s;
                    s = outb 0x1f2 (of_nat sector_per_block) s;
                    s = outb 0x1f3 (ucast (sector AND 0xff)) s;
                    s = outb 0x1f4 (ucast (drop_bit 8 sector AND 0xff)) s;
                    s = outb 0x1f5 (ucast (drop_bit 16 sector AND 0xff)) s;
                    s = outb 0x1f6 (ucast (0xe0 OR push_bit 4 (b_dev b AND 1) OR (drop_bit 24 sector AND 0x0f))) s in
                Ok (if b_flags b AND B_DIRTY \<noteq> 0 then outsl 0x1f0 (get32s (b_data b) 0 (BSIZE div 4)) (outb 0x1f7 write_cmd s)
                    else outb 0x1f7 read_cmd s)))"

definition ideintr :: "('a krn_scheme, 'w) kworld_scheme \<Rightarrow> 'a krn_scheme \<Rightarrow> 'a krn_scheme res" where
  "ideintr w s =
     andThen (acquire IDELOCK s) (\<lambda>s.
       case idequeue s of
         [] \<Rightarrow> release IDELOCK s
       | i # q \<Rightarrow>
           let s = s\<lparr>idequeue := q\<rparr> in
           andThen
             (if b_flags (bufs s ! i) AND B_DIRTY = 0 then
                andThen (idewait w True s) (\<lambda>(ok, s).
                  if ok then
                    let (ws, s) = insl w 0x1f0 (BSIZE div 4) s in
                    Ok (upd_buf i (\<lambda>b. b\<lparr>b_data := put32s (b_data b) 0 ws\<rparr>) s)
                  else Ok s)
              else Ok s) (\<lambda>s.
           let s = upd_buf i (\<lambda>b. b\<lparr>b_flags := (b_flags b OR B_VALID) AND NOT B_DIRTY\<rparr>) s in
           andThen (wakeup (CHAN_BUF i) s) (\<lambda>s.
           andThen (case idequeue s of [] \<Rightarrow> Ok s | j # _ \<Rightarrow> idestart w (Some j) s) (release IDELOCK))))"

fun iderw_wait :: "nat \<Rightarrow> ('a krn_scheme \<Rightarrow> 'a krn_scheme) \<Rightarrow> nat \<Rightarrow> 'a krn_scheme \<Rightarrow> 'a krn_scheme res" where
  "iderw_wait 0 env i s = Hangs"
| "iderw_wait (Suc fuel) env i s =
     (if b_flags (bufs s ! i) AND (B_VALID OR B_DIRTY) \<noteq> B_VALID
      then andThen (sleep env (CHAN_BUF i) (Some IDELOCK) s) (iderw_wait fuel env i)
      else Ok s)"

definition iderw :: "('a krn_scheme, 'w) kworld_scheme \<Rightarrow> nat \<Rightarrow> 'a krn_scheme \<Rightarrow> 'a krn_scheme res" where
  "iderw w i s =
     andThen (holdingsleep (BUF_SLEEP i) s) (\<lambda>(h, s).
       let b = bufs s ! i in
       if \<not> h then Panic ''iderw: buf not locked''
       else if b_flags b AND (B_VALID OR B_DIRTY) = B_VALID then Panic ''iderw: nothing to do''
       else if b_dev b \<noteq> 0 \<and> \<not> havedisk1 s then Panic ''iderw: ide disk 1 not present''
       else
         andThen (acquire IDELOCK s) (\<lambda>s.
           let s = s\<lparr>idequeue := idequeue s @ [i]\<rparr> in
           andThen (if hd (idequeue s) = i then idestart w (Some i) s else Ok s) (\<lambda>s.
           andThen (iderw_wait (w_fuel w) (w_env w) i s) (release IDELOCK))))"

end
