(* ===== verification/Console_In.thy ===== *)
theory Console_In
  imports Ide
begin

text \<open>
  The input half of \<^verbatim>\<open>console.c\<close>, the keyboard (\<^verbatim>\<open>kbd.c\<close>, \<^verbatim>\<open>kbd.h\<close>) and the receiving side of \<^verbatim>\<open>uart.c\<close>. The
  struct \<^verbatim>\<open>input\<close> is the four fields \<open>input_buf\<close>, \<open>input_r\<close>, \<open>input_w\<close>, \<open>input_e\<close>; the indices run freely and
  wrap at 32 bits. The function that \<^verbatim>\<open>consoleintr\<close> is given to fetch characters is an argument, and it
  is asked at most \<open>w_fuel w\<close> times.
\<close>

section \<open>Definitions\<close>

subsection \<open>The keyboard\<close>

definition KBS_DIB :: u8 where "KBS_DIB = 1"
definition KBSTATP :: u16 where "KBSTATP = 0x64"
definition KBDATAP :: u16 where "KBDATAP = 0x60"
definition SHIFT :: u32 where "SHIFT = 1"
definition CTL :: u32 where "CTL = 2"
definition ALT :: u32 where "ALT = 4"
definition CAPSLOCK :: u32 where "CAPSLOCK = 8"
definition NUMLOCK :: u32 where "NUMLOCK = 16"
definition SCROLLLOCK :: u32 where "SCROLLLOCK = 32"
definition E0ESC :: u32 where "E0ESC = 64"

definition shiftcode :: "u8 \<Rightarrow> u32" where
  "shiftcode d =
     (if d = 0x1D \<or> d = 0x9D then CTL else if d = 0x2A \<or> d = 0x36 then SHIFT
      else if d = 0x38 \<or> d = 0xB8 then ALT else 0)"

definition togglecode :: "u8 \<Rightarrow> u32" where
  "togglecode d = (if d = 0x3A then CAPSLOCK else if d = 0x45 then NUMLOCK else if d = 0x46 then SCROLLLOCK else 0)"

definition normalmap_base :: "u8 list" where
  "normalmap_base =
    [0, 27, 49, 50, 51, 52, 53, 54,
     55, 56, 57, 48, 45, 61, 8, 9,
     113, 119, 101, 114, 116, 121, 117, 105,
     111, 112, 91, 93, 10, 0, 97, 115,
     100, 102, 103, 104, 106, 107, 108, 59,
     39, 96, 0, 92, 122, 120, 99, 118,
     98, 110, 109, 44, 46, 47, 0, 42,
     0, 32, 0, 0, 0, 0, 0, 0,
     0, 0, 0, 0, 0, 0, 0, 55,
     56, 57, 45, 52, 53, 54, 43, 49,
     50, 51, 48, 46, 0, 0, 0, 0]"

definition shiftmap_base :: "u8 list" where
  "shiftmap_base =
    [0, 27, 33, 64, 35, 36, 37, 94,
     38, 42, 40, 41, 95, 43, 8, 9,
     81, 87, 69, 82, 84, 89, 85, 73,
     79, 80, 123, 125, 10, 0, 65, 83,
     68, 70, 71, 72, 74, 75, 76, 58,
     34, 126, 0, 124, 90, 88, 67, 86,
     66, 78, 77, 60, 62, 63, 0, 42,
     0, 32, 0, 0, 0, 0, 0, 0,
     0, 0, 0, 0, 0, 0, 0, 55,
     56, 57, 45, 52, 53, 54, 43, 49,
     50, 51, 48, 46, 0, 0, 0, 0]"

definition ctlmap_base :: "u8 list" where
  "ctlmap_base =
    [0, 0, 0, 0, 0, 0, 0, 0,
     0, 0, 0, 0, 0, 0, 0, 0,
     17, 23, 5, 18, 20, 25, 21, 9,
     15, 16, 0, 0, 13, 0, 1, 19,
     4, 6, 7, 8, 10, 11, 12, 0,
     0, 0, 0, 28, 26, 24, 3, 22,
     2, 14, 13, 0, 0, 239, 0, 0]"

text \<open>The entries from 0x97 on, the same in the three maps but for the two keys of the number pad.\<close>

definition special_key :: "u8 \<Rightarrow> u8 \<Rightarrow> u8 \<Rightarrow> u8" where
  "special_key enter slash d =
     (if d = 0x9C then enter else if d = 0xB5 then slash
      else if d = 0xC8 then 0xE2 else if d = 0xD0 then 0xE3 else if d = 0xC9 then 0xE6 else if d = 0xD1 then 0xE7
      else if d = 0xCB then 0xE4 else if d = 0xCD then 0xE5 else if d = 0x97 then 0xE0 else if d = 0xCF then 0xE1
      else if d = 0xD2 then 0xE8 else if d = 0xD3 then 0xE9 else 0)"

definition keymap :: "u8 list \<Rightarrow> u8 \<Rightarrow> u8 \<Rightarrow> u8 \<Rightarrow> u8" where
  "keymap base enter slash d = (if unat d < length base then base ! unat d else special_key enter slash d)"

definition normalmap :: "u8 \<Rightarrow> u8" where "normalmap = keymap normalmap_base 10 47"
definition shiftmap :: "u8 \<Rightarrow> u8" where "shiftmap = keymap shiftmap_base 10 47"
definition ctlmap :: "u8 \<Rightarrow> u8" where "ctlmap = keymap ctlmap_base 13 0xEF"

definition charcode :: "u32 \<Rightarrow> u8 \<Rightarrow> u8" where
  "charcode sh d = (if sh AND CTL \<noteq> 0 then ctlmap d else if sh AND SHIFT \<noteq> 0 then shiftmap d else normalmap d)"

text \<open>What one scan code does: the new \<^verbatim>\<open>shift\<close> and the character returned.\<close>

definition kbd_code :: "u8 \<Rightarrow> u32 \<Rightarrow> u8 \<times> u32" where
  "kbd_code d sh =
     (if d = 0xE0 then (0, sh OR E0ESC)
      else if d AND 0x80 \<noteq> 0 then
        let d = (if sh AND E0ESC \<noteq> 0 then d else d AND 0x7F) in
        (0, sh AND NOT (shiftcode d OR E0ESC))
      else
        let (d, sh) = (if sh AND E0ESC \<noteq> 0 then (d OR 0x80, sh AND NOT E0ESC) else (d, sh));
            sh = (sh OR shiftcode d) XOR togglecode d;
            c = charcode sh d;
            c = (if sh AND CAPSLOCK \<noteq> 0
                 then (if 97 \<le> c \<and> c \<le> 122 then c - 32 else if 65 \<le> c \<and> c \<le> 90 then c + 32 else c) else c) in
        (c, sh))"

definition kbdgetc :: "('a krn_scheme, 'w) kworld_scheme \<Rightarrow> 'a krn_scheme \<Rightarrow> int \<times> 'a krn_scheme" where
  "kbdgetc w s =
     (let (st, s) = w_inb w KBSTATP s in
      if st AND KBS_DIB = 0 then (- 1, s)
      else
        let (d, s) = w_inb w KBDATAP s; (c, sh) = kbd_code d (kbd_shift s) in
        (uint c, s\<lparr>kbd_shift := sh\<rparr>))"

subsection \<open>The serial port\<close>

definition COM1 :: u16 where "COM1 = 0x3f8"

primrec uartputs :: "string \<Rightarrow> 'a console_scheme \<Rightarrow> 'a console_scheme" where
  "uartputs [] s = s"
| "uartputs (c # cs) s = uartputs cs (uartputc (of_char c) s)"

definition uartinit :: "('a krn_scheme, 'w) kworld_scheme \<Rightarrow> 'a krn_scheme \<Rightarrow> 'a krn_scheme" where
  "uartinit w s =
     (let s = outb (COM1 + 2) 0 s;
          s = outb (COM1 + 3) 0x80 s;
          s = outb COM1 (115200 div 9600) s;
          s = outb (COM1 + 1) 0 s;
          s = outb (COM1 + 3) 3 s;
          s = outb (COM1 + 4) 0 s;
          s = outb (COM1 + 1) 1 s;
          (st, s) = w_inb w (COM1 + 5) s in
      if st = 0xFF then s
      else
        let s = s\<lparr>uart := True\<rparr>;
            (_, s) = w_inb w (COM1 + 2) s;
            (_, s) = w_inb w COM1 s in
        uartputs (''xv6...'' @ [CHR 0x0A]) (ioapicenable IRQ_COM1 0 s))"

definition uartgetc :: "('a krn_scheme, 'w) kworld_scheme \<Rightarrow> 'a krn_scheme \<Rightarrow> int \<times> 'a krn_scheme" where
  "uartgetc w s =
     (if \<not> uart s then (- 1, s)
      else
        let (st, s) = w_inb w (COM1 + 5) s in
        if st AND 1 = 0 then (- 1, s)
        else let (c, s) = w_inb w COM1 s in (uint c, s))"

subsection \<open>The line editor\<close>

definition INPUT_BUF :: nat where "INPUT_BUF = 128"
definition NL :: u8 where "NL = 10"
definition CTRL_D :: u8 where "CTRL_D = 4"

definition input_at :: "u32 \<Rightarrow> 'a krn_scheme \<Rightarrow> u8" where
  "input_at i s = input_buf s ! (unat i mod INPUT_BUF)"

text \<open>The loop of \<^verbatim>\<open>C('U')\<close>; its argument bounds the rounds by the distance from the edit to the write index.\<close>

fun kill_line :: "nat \<Rightarrow> 'a krn_scheme \<Rightarrow> 'a krn_scheme res" where
  "kill_line 0 s = Ok s"
| "kill_line (Suc n) s =
     (if input_e s \<noteq> input_w s \<and> input_at (input_e s - 1) s \<noteq> NL
      then andThen (consputc BACKSPACE (s\<lparr>input_e := input_e s - 1\<rparr>)) (kill_line n)
      else Ok s)"

text \<open>The body of the switch for one character; the flag asks for \<^verbatim>\<open>procdump\<close>.\<close>

definition console_char :: "int \<Rightarrow> 'a krn_scheme \<Rightarrow> (bool \<times> 'a krn_scheme) res" where
  "console_char c s =
     (if c = 16 then Ok (True, s)
      else if c = 21 then andThen (kill_line (unat (input_e s - input_w s)) s) (\<lambda>s. Ok (False, s))
      else if c = 8 \<or> c = 127 then
        (if input_e s \<noteq> input_w s
         then andThen (consputc BACKSPACE (s\<lparr>input_e := input_e s - 1\<rparr>)) (\<lambda>s. Ok (False, s)) else Ok (False, s))
      else if c \<noteq> 0 \<and> input_e s - input_r s < of_nat INPUT_BUF then
        let c = (if c = 13 then 10 else c);
            s = s\<lparr>input_buf := (input_buf s)[unat (input_e s) mod INPUT_BUF := word_of_int c], input_e := input_e s + 1\<rparr> in
        andThen (consputc (word_of_int c) s) (\<lambda>s.
          if c = 10 \<or> c = 4 \<or> input_e s = input_r s + of_nat INPUT_BUF
          then andThen (wakeup CHAN_INPUT (s\<lparr>input_w := input_e s\<rparr>)) (\<lambda>s. Ok (False, s))
          else Ok (False, s))
      else Ok (False, s))"

fun consoleintr_loop :: "nat \<Rightarrow> ('a krn_scheme \<Rightarrow> int \<times> 'a krn_scheme) \<Rightarrow> bool \<Rightarrow> 'a krn_scheme \<Rightarrow> (bool \<times> 'a krn_scheme) res" where
  "consoleintr_loop 0 getc doprocdump s = Hangs"
| "consoleintr_loop (Suc fuel) getc doprocdump s =
     (let (c, s) = getc s in
      if c < 0 then Ok (doprocdump, s)
      else andThen (console_char c s) (\<lambda>(d, s). consoleintr_loop fuel getc (doprocdump \<or> d) s))"

definition consoleintr :: "nat \<Rightarrow> ('a krn_scheme \<Rightarrow> int \<times> 'a krn_scheme) \<Rightarrow> 'a krn_scheme \<Rightarrow> 'a krn_scheme res" where
  "consoleintr fuel getc s =
     andThen (acquire CONS_LOCK s) (\<lambda>s.
     andThen (consoleintr_loop fuel getc False s) (\<lambda>(d, s).
     andThen (release CONS_LOCK s) (\<lambda>s. if d then procdump s else Ok s)))"

definition kbdintr :: "('a krn_scheme, 'w) kworld_scheme \<Rightarrow> 'a krn_scheme \<Rightarrow> 'a krn_scheme res" where
  "kbdintr w s = consoleintr (w_fuel w) (kbdgetc w) s"

definition uartintr :: "('a krn_scheme, 'w) kworld_scheme \<Rightarrow> 'a krn_scheme \<Rightarrow> 'a krn_scheme res" where
  "uartintr w s = consoleintr (w_fuel w) (uartgetc w) s"

subsection \<open>The console device\<close>

text \<open>Waiting for a line; \<open>True\<close> when the process has been killed.\<close>

fun consoleread_wait :: "nat \<Rightarrow> ('a krn_scheme \<Rightarrow> 'a krn_scheme) \<Rightarrow> 'a krn_scheme \<Rightarrow> (bool \<times> 'a krn_scheme) res" where
  "consoleread_wait 0 env s = Hangs"
| "consoleread_wait (Suc fuel) env s =
     (if input_r s = input_w s then
        andThen (my_killed s) (\<lambda>(k, s).
          if k then Ok (True, s)
          else andThen (sleep env CHAN_INPUT (Some CONS_LOCK) s) (consoleread_wait fuel env))
      else Ok (False, s))"

text \<open>
  The loop with the number of bytes still wanted: the bytes read, and whether the process was killed. \<open>some\<close> says
  that a byte has been read before.
\<close>

primrec consoleread_loop ::
    "('a krn_scheme, 'w) world_scheme \<Rightarrow> bool \<Rightarrow> nat \<Rightarrow> 'a krn_scheme \<Rightarrow> ((bool \<times> u8 list) \<times> 'a krn_scheme) res" where
  "consoleread_loop w some 0 s = Ok ((False, []), s)"
| "consoleread_loop w some (Suc n) s =
     andThen (consoleread_wait (w_fuel w) (w_env w) s) (\<lambda>(k, s).
       if k then Ok ((True, []), s)
       else
         let c = input_at (input_r s) s; s = s\<lparr>input_r := input_r s + 1\<rparr> in
         if c = CTRL_D then Ok ((False, []), if some then s\<lparr>input_r := input_r s - 1\<rparr> else s)
         else if c = NL then Ok ((False, [c]), s)
         else andThen (consoleread_loop w True n s) (\<lambda>((k, cs), s). Ok ((k, c # cs), s)))"

definition consoleread :: "('a krn_scheme, 'w) world_scheme \<Rightarrow> nat \<Rightarrow> u32 \<Rightarrow> 'a krn_scheme \<Rightarrow> ((u32 \<times> u8 list) \<times> 'a krn_scheme) res" where
  "consoleread w ip n s =
     andThen (iunlock (Some ip) s) (\<lambda>s.
     andThen (acquire CONS_LOCK s) (\<lambda>s.
     andThen (consoleread_loop w False (nat (sint n)) s) (\<lambda>((k, cs), s).
     andThen (release CONS_LOCK s) (\<lambda>s.
     andThen (ilock w (Some ip) s) (\<lambda>s.
     Ok ((if k then - 1 else of_nat (length cs), cs), s))))))"

definition consolewrite :: "('a krn_scheme, 'w) world_scheme \<Rightarrow> nat \<Rightarrow> u8 list \<Rightarrow> u32 \<Rightarrow> 'a krn_scheme \<Rightarrow> (u32 \<times> 'a krn_scheme) res" where
  "consolewrite w ip buf n s =
     andThen (iunlock (Some ip) s) (\<lambda>s.
     andThen (acquire CONS_LOCK s) (\<lambda>s.
     andThen (consputs (map ucast (take (nat (sint n)) buf)) s) (\<lambda>s.
     andThen (release CONS_LOCK s) (\<lambda>s.
     andThen (ilock w (Some ip) s) (\<lambda>s. Ok (n, s))))))"

definition CONSOLE :: u16 where "CONSOLE = 1"

text \<open>
  \<^verbatim>\<open>consoleinit\<close>: the state it leaves, and the device switch with the console registered. The locks and the
  inode calls of a device function are those of the world \<open>w\<close> it is built from.
\<close>

definition consoleinit :: "'a krn_scheme \<Rightarrow> 'a krn_scheme" where
  "consoleinit s = ioapicenable IRQ_KBD 0 ((initlock CONS_LOCK s)\<lparr>cons_locking := True\<rparr>)"

definition with_console :: "('a krn_scheme, 'w) fsworld_scheme \<Rightarrow> ('a krn_scheme, 'w) fsworld_scheme" where
  "with_console w = w\<lparr>dev_read := (dev_read w)(CONSOLE := Some (consoleread w)),
     dev_write := (dev_write w)(CONSOLE := Some (consolewrite w))\<rparr>"

section \<open>The line editor as a specification\<close>

text \<open>
  What a reader may see (\<open>committed\<close>) and what is still being edited. The editor keeps both in one ring.
\<close>

definition committed :: "'a krn_scheme \<Rightarrow> u8 list" where
  "committed s = ring_list (input_buf s) (input_r s) (input_w s)"

definition edited :: "'a krn_scheme \<Rightarrow> u8 list" where
  "edited s = ring_list (input_buf s) (input_w s) (input_e s)"

definition line_ok :: "'a krn_scheme \<Rightarrow> bool" where
  "line_ok s \<longleftrightarrow> ring_ok INPUT_BUF (input_buf s) (input_r s) (input_e s)
     \<and> unat (input_w s - input_r s) \<le> unat (input_e s - input_r s) \<and> NL \<notin> set (edited s)"

definition edit_char :: "int \<Rightarrow> u8 list \<times> u8 list \<Rightarrow> u8 list \<times> u8 list" where
  "edit_char c q =
     (let (com, ed) = q; x = (if c = 13 then NL else word_of_int c) in
      if c = 16 \<or> c = 0 then (com, ed)
      else if c = 21 then (com, [])
      else if c = 8 \<or> c = 127 then (com, butlast ed)
      else if length com + length ed < INPUT_BUF then
        if x = NL \<or> x = CTRL_D \<or> length com + length ed + 1 = INPUT_BUF then (com @ ed @ [x], [])
        else (com, ed @ [x])
      else (com, ed))"

text \<open>The editor runs with interrupts handled, the process table lock free and the screen usable.\<close>

definition editor_ready :: "'a krn_scheme \<Rightarrow> bool" where
  "editor_ready s \<longleftrightarrow> line_ok s \<and> wf_cpu s \<and> \<not> held s PTABLE_LOCK \<and> \<not> panicked s \<and> cursor_ok s"

lemma INPUT_BUF_ring: "ring_len INPUT_BUF"
  by (simp add: ring_len_def INPUT_BUF_def)

lemma line_okD:
  assumes "line_ok s"
  shows "length (input_buf s) = INPUT_BUF" "unat (input_e s - input_r s) \<le> INPUT_BUF"
    "unat (input_w s - input_r s) \<le> unat (input_e s - input_r s)" "NL \<notin> set (edited s)"
    "unat (input_e s - input_w s) = unat (input_e s - input_r s) - unat (input_w s - input_r s)"
    "ring_list (input_buf s) (input_r s) (input_e s) = committed s @ edited s"
    "unat (input_e s - input_r s) = length (committed s) + length (edited s)"
proof -
  show d: "length (input_buf s) = INPUT_BUF" and "unat (input_e s - input_r s) \<le> INPUT_BUF"
    and le: "unat (input_w s - input_r s) \<le> unat (input_e s - input_r s)" and "NL \<notin> set (edited s)"
    using assms by (auto simp: line_ok_def ring_ok_def)
  have N: "ring_len (length (input_buf s))" using d INPUT_BUF_ring by simp
  show "unat (input_e s - input_w s) = unat (input_e s - input_r s) - unat (input_w s - input_r s)"
    and r: "ring_list (input_buf s) (input_r s) (input_e s) = committed s @ edited s"
    using ring_split [OF N le] by (simp_all add: committed_def edited_def)
  show "unat (input_e s - input_r s) = length (committed s) + length (edited s)"
    using arg_cong [OF r, of length] by simp
qed

text \<open>Output to the screen and the serial port leaves the editor alone.\<close>

definition only_out :: "'a console_scheme \<Rightarrow> 'a console_scheme \<Rightarrow> bool" where
  "only_out s s' \<longleftrightarrow> (\<exists>u p m. s' = s\<lparr>uart_out := u, crt_pos := p, crt := m\<rparr> \<and> p < 24 * 80)"

lemma consputc_only_out:
  assumes "\<not> panicked s" "cursor_ok s"
  obtains s' where "consputc c s = Ok s'" "only_out s s'"
  using consputc_ok [OF assms, of c] unfolding only_out_def by blast

lemma only_out_trans: "only_out s t \<Longrightarrow> only_out t u \<Longrightarrow> only_out s u"
  unfolding only_out_def by (elim exE conjE) (simp, blast)

lemma only_outD:
  assumes "only_out s (s' :: 'a krn_scheme)"
  shows "input_buf s' = input_buf s" "input_r s' = input_r s" "input_w s' = input_w s" "input_e s' = input_e s"
    "panicked s' = panicked s" "cursor_ok s'" "thiscpu s' = thiscpu s" "fl_if s' = fl_if s" "held s' = held s"
  using assms by (auto simp: only_out_def cursor_ok_def)

lemma committed_cong:
  "input_buf s' = input_buf s \<Longrightarrow> input_r s' = input_r s \<Longrightarrow> input_w s' = input_w s \<Longrightarrow> committed s' = committed s"
  "input_buf s' = input_buf s \<Longrightarrow> input_w s' = input_w s \<Longrightarrow> input_e s' = input_e s \<Longrightarrow> edited s' = edited s"
  by (simp_all add: committed_def edited_def)

lemma input_erase:
  assumes ok: "line_ok s" and ne: "input_e s \<noteq> input_w s"
  defines "t \<equiv> s\<lparr>input_e := input_e s - 1\<rparr>"
  shows "line_ok t" "edited t = butlast (edited s)" "committed t = committed s" "edited s \<noteq> []"
    "input_at (input_e s - 1) s = last (edited s)" "unat (input_e t - input_w t) = unat (input_e s - input_w s) - 1"
proof -
  note d = line_okD [OF ok]
  have N: "ring_len (length (input_buf s))" using d(1) INPUT_BUF_ring by simp
  note u = ring_unput [OF N ne]
  show e: "edited t = butlast (edited s)" "committed t = committed s"
    using u(2) by (simp_all add: edited_def committed_def t_def)
  show "edited s \<noteq> []" using ne by (simp add: edited_def ring_empty)
  show "input_at (input_e s - 1) s = last (edited s)" using u(3) d(1) by (simp add: input_at_def edited_def)
  show "unat (input_e t - input_w t) = unat (input_e s - input_w s) - 1" using u(1) by (simp add: t_def)
  have er: "input_e s \<noteq> input_r s" using d(3) ne by (metis diff_self le_zero_eq right_minus_eq unat_0 unat_eq_0)
  have "unat (input_w s - input_r s) < unat (input_e s - input_r s)" using d(3,5) u(1) ne
    by (metis diff_is_0_eq' eq_iff le_neq_implies_less right_minus_eq unat_eq_zero)
  then show "line_ok t"
    using ring_unput(1) [OF N er] d e in_set_butlastD [of NL "edited s"] by (auto simp: line_ok_def ring_ok_def t_def)
qed


lemma only_out_refl: "cursor_ok s \<Longrightarrow> only_out s s"
  unfolding only_out_def cursor_ok_def by (intro exI [of _ "uart_out s"] exI [of _ "crt_pos s"] exI [of _ "crt s"]) simp

lemma only_out_input_e: "only_out s t \<Longrightarrow> only_out (s\<lparr>input_e := x\<rparr>) (t\<lparr>input_e := x\<rparr>)"
proof -
  assume "only_out s t"
  then obtain u p m where "t = s\<lparr>uart_out := u, crt_pos := p, crt := m\<rparr>" "p < 24 * 80" unfolding only_out_def by blast
  then show ?thesis unfolding only_out_def by (intro exI [of _ u] exI [of _ p] exI [of _ m]) simp
qed

lemma kill_line_spec:
  assumes "line_ok s" "n = unat (input_e s - input_w s)" "\<not> panicked s" "cursor_ok s"
  shows "\<exists>s'. kill_line n s = Ok s' \<and> only_out (s\<lparr>input_e := input_w s\<rparr>) s'"
  using assms
proof (induction n arbitrary: s)
  case 0
  then have "input_e s = input_w s" by (simp add: unat_eq_0 eq_commute [of 0])
  then have "s\<lparr>input_e := input_w s\<rparr> = s" by simp
  then show ?case using only_out_refl [OF 0(4)] by simp
next
  case (Suc n)
  have ne: "input_e s \<noteq> input_w s" using Suc.prems(2) by auto
  note er = input_erase [OF Suc.prems(1) ne]
  let ?t = "s\<lparr>input_e := input_e s - 1\<rparr>"
  have nl: "input_at (input_e s - 1) s \<noteq> NL" using er(4,5) line_okD(4) [OF Suc.prems(1)] last_in_set by metis
  obtain u where u: "consputc BACKSPACE ?t = Ok u" "only_out ?t u"
    using consputc_only_out [of ?t BACKSPACE] Suc.prems(3,4) by (auto simp: cursor_ok_def)
  note o = only_outD [OF u(2)]
  have "edited u = edited ?t" by (rule committed_cong(2)) (simp_all add: o)
  then have lu: "line_ok u" using er(1) o by (simp add: line_ok_def)
  have "n = unat (input_e u - input_w u)" using er(6) Suc.prems(2) o by simp
  from Suc.IH [OF lu this] obtain s' where s': "kill_line n u = Ok s'" "only_out (u\<lparr>input_e := input_w u\<rparr>) s'"
    using Suc.prems(3) o by auto
  have "only_out (?t\<lparr>input_e := input_w s\<rparr>) (u\<lparr>input_e := input_w s\<rparr>)" by (rule only_out_input_e [OF u(2)])
  then have "only_out (s\<lparr>input_e := input_w s\<rparr>) s'" using s'(2) o by (auto intro: only_out_trans)
  then show ?case using ne nl u(1) s'(1) by auto
qed

lemma input_insert:
  fixes x :: u8
  assumes ok: "line_ok s" and room: "input_e s - input_r s < of_nat INPUT_BUF"
  defines "t \<equiv> s\<lparr>input_buf := (input_buf s)[unat (input_e s) mod INPUT_BUF := x], input_e := input_e s + 1\<rparr>"
  shows "edited t = edited s @ [x]" "committed t = committed s" "length (input_buf t) = INPUT_BUF"
    "unat (input_e t - input_r t) = length (committed s) + length (edited s) + 1" "length (committed s) + length (edited s) < INPUT_BUF"
    "input_e t = input_r t + of_nat INPUT_BUF \<longleftrightarrow> length (committed s) + length (edited s) + 1 = INPUT_BUF"
proof -
  note d = line_okD [OF ok]
  have lt: "unat (input_e s - input_r s) < INPUT_BUF"
    using room by (simp add: word_less_nat_alt INPUT_BUF_def)
  then show "length (committed s) + length (edited s) < INPUT_BUF" using d(7) by simp
  note p1 = ring_put [OF INPUT_BUF_ring d(1) lt]
  have lw: "unat (input_e s - input_w s) < INPUT_BUF" using d(5) lt by linarith
  note p2 = ring_put [OF INPUT_BUF_ring d(1) lw]
  show e: "edited t = edited s @ [x]" using p2(2) by (simp add: edited_def t_def)
  show l: "length (input_buf t) = INPUT_BUF" using d(1) by (simp add: t_def)
  show n: "unat (input_e t - input_r t) = length (committed s) + length (edited s) + 1" using p1(1) d(7) by (simp add: t_def)
  have N: "ring_len (length (input_buf t))" using l INPUT_BUF_ring by simp
  have "unat (input_w t - input_r t) \<le> unat (input_e t - input_r t)" using n d(3,7) by (simp add: t_def)
  from ring_split(2) [OF N this] have "committed t @ edited t = committed s @ edited s @ [x]"
    using p1(2) d(6) by (simp add: t_def committed_def edited_def)
  then show "committed t = committed s" using e by simp
  show "input_e t = input_r t + of_nat INPUT_BUF \<longleftrightarrow> length (committed s) + length (edited s) + 1 = INPUT_BUF"
    using ring_full [OF INPUT_BUF_ring, of "input_e t" "input_r t"] n by simp
qed


lemma small_char:
  assumes "0 \<le> c" "c < 256"
  shows "(word_of_int c :: u8) = NL \<longleftrightarrow> c = 10" "(word_of_int c :: u8) = CTRL_D \<longleftrightarrow> c = 4"
proof -
  have "uint (word_of_int c :: u8) = c" using assms by (simp add: uint_word_of_int)
  then show "(word_of_int c :: u8) = NL \<longleftrightarrow> c = 10" "(word_of_int c :: u8) = CTRL_D \<longleftrightarrow> c = 4"
    by (auto simp: NL_def CTRL_D_def)
qed

text \<open>One ordinary character, with \<open>x\<close> the byte stored and \<open>v\<close> what is echoed.\<close>

lemma console_store:
  assumes er: "editor_ready s"
    and room: "input_e s - input_r s < of_nat INPUT_BUF"
    and t: "t = s\<lparr>input_buf := (input_buf s)[unat (input_e s) mod INPUT_BUF := x], input_e := input_e s + 1\<rparr>"
    and cm: "cm \<longleftrightarrow> x = NL \<or> x = CTRL_D \<or> length (committed s) + length (edited s) + 1 = INPUT_BUF"
  shows "\<exists>u s'. consputc v t = Ok u \<and> (input_e u = input_r u + of_nat INPUT_BUF \<longleftrightarrow> length (committed s) + length (edited s) + 1 = INPUT_BUF)
    \<and> (if cm then wakeup CHAN_INPUT (u\<lparr>input_w := input_e u\<rparr>) = Ok s' else s' = u) \<and> editor_ready s' \<and> input_r s' = input_r s
    \<and> (committed s', edited s') = (if cm then (committed s @ edited s @ [x], []) else (committed s, edited s @ [x]))"
proof -
  have ok: "line_ok s" "wf_cpu s" "\<not> held s PTABLE_LOCK" "\<not> panicked s" "cursor_ok s" using er by (auto simp: editor_ready_def)
  note i = input_insert(1,2,3,4,6) [OF ok(1) room, of x, folded t] and lt = input_insert(5) [OF ok(1) room]
  note d = line_okD [OF ok(1)]
  obtain u where u: "consputc v t = Ok u" "only_out t u"
    using consputc_only_out [of t v] ok(4,5) t by (auto simp: cursor_ok_def)
  note o = only_outD [OF u(2)]
  have eu: "edited u = edited s @ [x]" "committed u = committed s"
    using i(1,2) committed_cong(2) [of u t] committed_cong(1) [of u t] o by simp_all
  have ru: "input_r u = input_r s" "input_w u = input_w s" "unat (input_e u - input_r u) = length (committed s) + length (edited s) + 1"
    using o t i(4) by simp_all
  have full: "input_e u = input_r u + of_nat INPUT_BUF \<longleftrightarrow> length (committed s) + length (edited s) + 1 = INPUT_BUF" using o i(5) by simp
  have ring: "ring_ok INPUT_BUF (input_buf u) (input_r u) (input_e u)" using o i(3) lt ru(3) by (simp add: ring_ok_def)
  show ?thesis
  proof (cases cm)
    case True
    let ?v = "u\<lparr>input_w := input_e u\<rparr>"
    have "wf_cpu ?v" "\<not> held ?v PTABLE_LOCK" using ok(2,3) o t by (simp_all add: wf_cpu_def)
    from wakeup_eq [OF this] have wk: "wakeup CHAN_INPUT ?v = Ok ((wakeup1 CHAN_INPUT ?v)\<lparr>thiscpu := settled ?v\<rparr>)" .
    let ?s = "(wakeup1 CHAN_INPUT ?v)\<lparr>thiscpu := settled ?v\<rparr>"
    have f: "input_buf ?s = input_buf u" "input_r ?s = input_r s" "input_w ?s = input_e u" "input_e ?s = input_e u"
      using ru by (simp_all add: wakeup1_def)
    have le: "unat (input_w u - input_r u) \<le> unat (input_e u - input_r u)" using ru d(3,7) by simp
    have N: "ring_len (length (input_buf u))" using ring INPUT_BUF_ring by (simp add: ring_ok_def)
    have "committed ?s = committed s @ edited s @ [x]" "edited ?s = []"
      using ring_split(2) [OF N le] eu ru f by (simp_all add: committed_def edited_def ring_empty)
    moreover have "line_ok ?s" using ring f ru calculation(2) by (simp add: line_ok_def)
    then have "editor_ready ?s" using ok o t by (simp add: editor_ready_def wf_cpu_def wakeup1_def cursor_ok_def)
    ultimately show ?thesis using u(1) full wk True f(2) by auto
  next
    case False
    then have "line_ok u" using ring eu d(4) ru d(3,7) cm by (auto simp: line_ok_def)
    then have "editor_ready u" using ok o t by (simp add: editor_ready_def wf_cpu_def)
    then show ?thesis using u(1) full False eu ru by auto
  qed
qed

lemma console_erase:
  assumes er: "editor_ready s" and erase: "c = 8 \<or> c = 127"
  shows "\<exists>s'. console_char c s = Ok (c = 16, s') \<and> editor_ready s' \<and> input_r s' = input_r s
    \<and> (committed s', edited s') = edit_char c (committed s, edited s)"
proof (cases "input_e s = input_w s")
  case True
  then have "edited s = []" by (simp add: edited_def ring_empty)
  then show ?thesis using erase True er by (auto simp: console_char_def edit_char_def)
next
  case False
  have ok: "line_ok s" "wf_cpu s" "\<not> held s PTABLE_LOCK" "\<not> panicked s" "cursor_ok s" using er by (auto simp: editor_ready_def)
  note ie = input_erase [OF ok(1) False]
  let ?t = "s\<lparr>input_e := input_e s - 1\<rparr>"
  obtain u where u: "consputc BACKSPACE ?t = Ok u" "only_out ?t u"
    using consputc_only_out [of ?t BACKSPACE] ok(4,5) by (auto simp: cursor_ok_def)
  note o = only_outD [OF u(2)]
  have "edited u = butlast (edited s)" "committed u = committed s"
    using ie(2,3) committed_cong(2) [of u ?t] committed_cong(1) [of u ?t] o by simp_all
  moreover have "line_ok u" using ie(1,2) calculation o by (simp add: line_ok_def)
  then have "editor_ready u" using ok o by (simp add: editor_ready_def wf_cpu_def)
  ultimately show ?thesis using erase False u(1) o by (auto simp: console_char_def edit_char_def)
qed

lemma console_add:
  assumes er: "editor_ready s" and c: "0 \<le> c" "c < 256"
    and add: "c \<notin> {16, 0, 21, 8, 127}" "input_e s - input_r s < of_nat INPUT_BUF"
  shows "\<exists>s'. console_char c s = Ok (c = 16, s') \<and> editor_ready s' \<and> input_r s' = input_r s
    \<and> (committed s', edited s') = edit_char c (committed s, edited s)"
proof -
  have ok: "line_ok s" using er by (simp add: editor_ready_def)
  let ?c = "if c = 13 then 10 else c"
  have c': "0 \<le> ?c" "?c < 256" using c by auto
  let ?x = "word_of_int ?c :: u8"
  define cm where "cm \<longleftrightarrow> ?c = 10 \<or> ?c = 4 \<or> length (committed s) + length (edited s) + 1 = INPUT_BUF"
  have cm': "cm \<longleftrightarrow> ?x = NL \<or> ?x = CTRL_D \<or> length (committed s) + length (edited s) + 1 = INPUT_BUF"
    unfolding cm_def small_char [OF c'] by blast
  let ?t = "s\<lparr>input_buf := (input_buf s)[unat (input_e s) mod INPUT_BUF := ?x], input_e := input_e s + 1\<rparr>"
  obtain u s' where u: "consputc (word_of_int ?c) ?t = Ok u"
      "input_e u = input_r u + of_nat INPUT_BUF \<longleftrightarrow> length (committed s) + length (edited s) + 1 = INPUT_BUF"
      "if cm then wakeup CHAN_INPUT (u\<lparr>input_w := input_e u\<rparr>) = Ok s' else s' = u"
    and s': "editor_ready s'" "input_r s' = input_r s"
      "(committed s', edited s') = (if cm then (committed s @ edited s @ [?x], []) else (committed s, edited s @ [?x]))"
    using console_store [OF er add(2) refl cm', of "word_of_int ?c"] by blast
  have "console_char c s = andThen (consputc (word_of_int ?c) ?t) (\<lambda>u.
      if ?c = 10 \<or> ?c = 4 \<or> input_e u = input_r u + of_nat INPUT_BUF
      then andThen (wakeup CHAN_INPUT (u\<lparr>input_w := input_e u\<rparr>)) (\<lambda>s. Ok (False, s)) else Ok (False, u))"
    using add by (simp add: console_char_def Let_def)
  also have "\<dots> = Ok (False, s')" using u by (cases cm) (auto simp: cm_def)
  finally have r: "console_char c s = Ok (c = 16, s')" using add(1) by simp
  have x: "?x = (if c = 13 then NL else word_of_int c)" by (simp add: NL_def)
  have "edit_char c (committed s, edited s) = (if cm then (committed s @ edited s @ [?x], []) else (committed s, edited s @ [?x]))"
    using add(1) input_insert(5) [OF ok add(2)] unfolding edit_char_def cm' x by simp
  then show ?thesis using r s' by metis
qed

text \<open>
  C36. The console's line editor does what its specification says of every character: the control
  characters list the processes, erase the line and erase the last character; every other character is
  added while there is room, and a newline, a Ctrl-D or a full buffer hands the whole line to readers.
  Nothing already handed over is ever erased, and the ring stays well formed.
\<close>

theorem console_line_editor:
  assumes er: "editor_ready s" and c: "0 \<le> c" "c < 256"
  shows "\<exists>s'. console_char c s = Ok (c = 16, s') \<and> editor_ready s' \<and> input_r s' = input_r s
    \<and> (committed s', edited s') = edit_char c (committed s, edited s)"
proof -
  have ok: "line_ok s" "wf_cpu s" "\<not> held s PTABLE_LOCK" "\<not> panicked s" "cursor_ok s" using er by (auto simp: editor_ready_def)
  note d = line_okD [OF ok(1)]
  have room: "input_e s - input_r s < of_nat INPUT_BUF \<longleftrightarrow> length (committed s) + length (edited s) < INPUT_BUF"
    using d(7) by (simp add: word_less_nat_alt INPUT_BUF_def)
  consider (keep) "c = 16 \<or> c = 0" | (kill) "c = 21" | (erase) "c = 8 \<or> c = 127"
    | (add) "c \<notin> {16, 0, 21, 8, 127}" "input_e s - input_r s < of_nat INPUT_BUF"
    | (drop) "c \<notin> {16, 0, 21, 8, 127}" "\<not> input_e s - input_r s < of_nat INPUT_BUF" by fastforce
  then show ?thesis
  proof cases
    case keep
    then show ?thesis using er by (auto simp: console_char_def edit_char_def)
  next
    case kill
    obtain s' where k: "kill_line (unat (input_e s - input_w s)) s = Ok s'" "only_out (s\<lparr>input_e := input_w s\<rparr>) s'"
      using kill_line_spec [OF ok(1) refl ok(4,5)] by blast
    note o = only_outD [OF k(2)]
    have "committed s' = committed s" "edited s' = []" using o by (simp_all add: committed_def edited_def ring_empty)
    moreover have "line_ok s'" using calculation d(1,2,3) o by (simp add: line_ok_def ring_ok_def)
    then have "editor_ready s'" using ok o by (simp add: editor_ready_def wf_cpu_def)
    ultimately show ?thesis using k(1) kill o by (simp add: console_char_def edit_char_def)
  next
    case erase
    show ?thesis by (rule console_erase [OF er erase])
  next
    case add
    show ?thesis by (rule console_add [OF er c add])
  next
    case drop
    then show ?thesis using room er by (auto simp: console_char_def edit_char_def Let_def)
  qed
qed


section \<open>An example\<close>

definition krn_example :: krn where
  "krn_example = fil.extend fil_example \<lparr>forkret_first = True, input_buf = replicate INPUT_BUF 0, input_r = 0xFFFFFFFE,
     input_w = 0xFFFFFFFE, input_e = 0xFFFFFFFE, kbd_shift = 0, idequeue = [], havedisk1 = True, port_out = [], lapic = 0xFEE00000,
     lapic_out = [], ioapicid = 0, ioapic_out = [], idt = [], cpus = [boot_cpu]\<rparr>"

lemma krn_example_ok: "in_proc 1 krn_example" "\<not> panicked krn_example" "cursor_ok krn_example" "line_ok krn_example"
  "committed krn_example = []" "edited krn_example = []"
proof -
  show "in_proc 1 krn_example" using fil_example_ok(1) by (simp add: krn_example_def fil.defs in_proc_def wf_cpu_def)
  show "\<not> panicked krn_example" "cursor_ok krn_example"
    by (simp_all add: krn_example_def fil.defs fil_example_def fs.defs fs_example_def lg.defs lg_example_def boot_example_def bio.defs
      bio_example_def slk.defs slk_example_def ptab.defs ptab_example_def cursor_ok_def)
  show "committed krn_example = []" "edited krn_example = []"
    by (simp_all add: krn_example_def fil.defs committed_def edited_def ring_list_def)
  then show "line_ok krn_example" by (simp add: line_ok_def ring_ok_def) (simp add: krn_example_def fil.defs)
qed

theorem console_line_editor_witness:
  "\<exists>s1 s2 s3. console_char 97 krn_example = Ok (False, s1) \<and> edited s1 = [97]
     \<and> console_char 13 s1 = Ok (False, s2) \<and> committed s2 = [97, 10] \<and> console_char 127 s2 = Ok (False, s3) \<and> committed s3 = [97, 10]"
proof -
  have "editor_ready krn_example" using krn_example_ok by (auto simp: editor_ready_def in_proc_def)
  from console_line_editor [OF this, of 97] obtain s1
    where 1: "console_char 97 krn_example = Ok (False, s1)" "editor_ready s1" "committed s1 = []" "edited s1 = [97]"
    by (auto simp: edit_char_def krn_example_ok INPUT_BUF_def NL_def CTRL_D_def)
  from console_line_editor [OF 1(2), of 13] obtain s2
    where 2: "console_char 13 s1 = Ok (False, s2)" "editor_ready s2" "committed s2 = [97, 10]" "edited s2 = []"
    by (auto simp: edit_char_def 1 INPUT_BUF_def NL_def CTRL_D_def)
  from console_line_editor [OF 2(2), of 127] obtain s3
    where "console_char 127 s2 = Ok (False, s3)" "committed s3 = [97, 10]" by (auto simp: edit_char_def 2)
  then show ?thesis using 1 2 by blast
qed

end
