(* ===== verification/Trap.thy ===== *)
theory Trap
  imports Syscall Console_In
begin

text \<open>
  Traps and interrupts (\<^verbatim>\<open>trap.c\<close>) with the trap frame at the kernel address \<open>tf\<close>. A process that exits
  does not come back from \<open>exit\<close>.
\<close>

section \<open>Definitions\<close>

definition T_SYSCALL :: u32 where "T_SYSCALL = 64"

definition tvinit :: "u32 list \<Rightarrow> 'a krn_scheme \<Rightarrow> 'a krn_scheme" where
  "tvinit vectors s =
     initlock TICKSLOCK
       (s\<lparr>idt := (map (\<lambda>i. SETGATE False (of_nat (SEG_KCODE * 8)) (vectors ! i) 0) [0..<256])
           [unat T_SYSCALL := SETGATE True (of_nat (SEG_KCODE * 8)) (vectors ! unat T_SYSCALL) DPL_USER]\<rparr>)"

definition tf_trapno :: "u32 \<Rightarrow> 'a kmem_scheme \<Rightarrow> u32" where
  "tf_trapno tf s = load32 (mem s) (tf + TF_trapno)"

definition tf_cs :: "u32 \<Rightarrow> 'a kmem_scheme \<Rightarrow> u32" where
  "tf_cs tf s = load32 (mem s) (tf + TF_cs) AND 0xFFFF"

definition from_user :: "u32 \<Rightarrow> 'a kmem_scheme \<Rightarrow> bool" where
  "from_user tf s \<longleftrightarrow> tf_cs tf s AND 3 = 3"

definition this_cpuid :: "'a krn_scheme \<Rightarrow> nat res" where
  "this_cpuid s = cpuid (cpus s) (apicid (thiscpu s)) (fl_if s)"

text \<open>\<^verbatim>\<open>myproc() && myproc()->killed && (tf->cs&3) == DPL_USER\<close>, then \<^verbatim>\<open>exit()\<close>.\<close>

definition exit_if_killed :: "('a krn_scheme, 'w) kworld_scheme \<Rightarrow> u32 \<Rightarrow> 'a krn_scheme \<Rightarrow> 'a krn_scheme res" where
  "exit_if_killed w tf s =
     andThen (myproc s) (\<lambda>(p, s).
       case p of
         None \<Rightarrow> Ok s
       | Some i \<Rightarrow> if p_killed (procs s ! i) \<and> from_user tf s then exit w s else Ok s)"

definition trap_syscall :: "('a krn_scheme, 'w) kworld_scheme \<Rightarrow> u32 \<Rightarrow> 'a krn_scheme \<Rightarrow> 'a krn_scheme res" where
  "trap_syscall w tf s =
     andThen (my_killed s) (\<lambda>(k, s).
     andThen (if k then exit w s else Ok s) (\<lambda>s.
     andThen (curproc s) (\<lambda>(i, s).
     andThen (syscall w (upd_proc i (\<lambda>q. q\<lparr>p_tf := tf\<rparr>) s)) (\<lambda>s.
     andThen (my_killed s) (\<lambda>(k, s).
     if k then exit w s else Ok s)))))"

definition tick :: "'a krn_scheme \<Rightarrow> 'a krn_scheme res" where
  "tick s =
     andThen (this_cpuid s) (\<lambda>c.
       if c = 0 then
         andThen (acquire TICKSLOCK s) (\<lambda>s.
         andThen (wakeup CHAN_TICKS (s\<lparr>ticks := ticks s + 1\<rparr>)) (release TICKSLOCK))
       else Ok s)"

definition trap_timer :: "('a krn_scheme, 'w) kworld_scheme \<Rightarrow> 'a krn_scheme \<Rightarrow> 'a krn_scheme res" where
  "trap_timer w s =
     andThen (tick s) (\<lambda>s.
     andThen (myproc s) (\<lambda>(p, s).
     andThen
       (case p of
          None \<Rightarrow> Ok s
        | Some i \<Rightarrow>
            if p_state (procs s ! i) = RUNNING then
              let s = upd_proc i (\<lambda>q. q\<lparr>p_time_slice := p_time_slice q + 1\<rparr>) s in
              if sint (p_time_slice (procs s ! i)) \<ge> sint (time_slice s)
              then yield (w_env w) (upd_proc i (\<lambda>q. q\<lparr>p_time_slice := 0\<rparr>) s)
              else Ok s
            else Ok s) (\<lambda>s.
     Ok (lapiceoi s))))"

definition trap_other :: "('a krn_scheme, 'w) kworld_scheme \<Rightarrow> u32 \<Rightarrow> 'a krn_scheme \<Rightarrow> 'a krn_scheme res" where
  "trap_other w tf s =
     andThen (myproc s) (\<lambda>(p, s).
     andThen (this_cpuid s) (\<lambda>c.
       let trapno = tf_trapno tf s; eip = load32 (mem s) (tf + TF_eip); err = load32 (mem s) (tf + TF_err) in
       if p = None \<or> tf_cs tf s AND 3 = 0 then
         andThen (cprintf (''unexpected trap %d from cpu %d eip %x (cr2=0x%x)'' @ [CHR 0x0A])
           [ANum trapno, ANum (of_nat c), ANum eip, ANum (w_cr2 w s)] s) (\<lambda>_. Panic ''trap'')
       else
         let i = the p in
         andThen (cprintf (''pid %d %s: trap %d err %d on cpu %d eip 0x%x addr 0x%x--kill proc'' @ [CHR 0x0A])
           [ANum (p_pid (procs s ! i)), AStr (Some (p_name (procs s ! i))), ANum trapno, ANum err, ANum (of_nat c),
            ANum eip, ANum (w_cr2 w s)] s) (\<lambda>s.
         Ok (upd_proc i (\<lambda>q. q\<lparr>p_killed := True\<rparr>) s))))"

definition trap_switch :: "('a krn_scheme, 'w) kworld_scheme \<Rightarrow> u32 \<Rightarrow> 'a krn_scheme \<Rightarrow> 'a krn_scheme res" where
  "trap_switch w tf s =
     (let trapno = tf_trapno tf s in
      if trapno = T_IRQ0 + IRQ_TIMER then trap_timer w s
      else if trapno = T_IRQ0 + IRQ_IDE then andThen (ideintr w s) (\<lambda>s. Ok (lapiceoi s))
      else if trapno = T_IRQ0 + IRQ_IDE + 1 then Ok s
      else if trapno = T_IRQ0 + IRQ_KBD then andThen (kbdintr w s) (\<lambda>s. Ok (lapiceoi s))
      else if trapno = T_IRQ0 + IRQ_COM1 then andThen (uartintr w s) (\<lambda>s. Ok (lapiceoi s))
      else if trapno = T_IRQ0 + 7 \<or> trapno = T_IRQ0 + IRQ_SPURIOUS then
        andThen (this_cpuid s) (\<lambda>c.
        andThen (cprintf (''cpu%d: spurious interrupt at %x:%x'' @ [CHR 0x0A])
          [ANum (of_nat c), ANum (tf_cs tf s), ANum (load32 (mem s) (tf + TF_eip))] s) (\<lambda>s. Ok (lapiceoi s)))
      else trap_other w tf s)"

definition trap_yield :: "('a krn_scheme, 'w) kworld_scheme \<Rightarrow> u32 \<Rightarrow> 'a krn_scheme \<Rightarrow> 'a krn_scheme res" where
  "trap_yield w tf s =
     andThen (myproc s) (\<lambda>(p, s).
       case p of
         None \<Rightarrow> Ok s
       | Some i \<Rightarrow>
           if p_state (procs s ! i) = RUNNING \<and> tf_trapno tf s = T_IRQ0 + IRQ_TIMER then yield (w_env w) s else Ok s)"

definition trap :: "('a krn_scheme, 'w) kworld_scheme \<Rightarrow> u32 \<Rightarrow> 'a krn_scheme \<Rightarrow> 'a krn_scheme res" where
  "trap w tf s =
     (if tf_trapno tf s = T_SYSCALL then trap_syscall w tf s
      else
        andThen (trap_switch w tf s) (\<lambda>s.
        andThen (exit_if_killed w tf s) (\<lambda>s.
        andThen (trap_yield w tf s) (exit_if_killed w tf))))"

end
