(* ===== verification/Boot.thy ===== *)
theory Boot
  imports Trap
begin

text \<open>
  Starting up (\<^verbatim>\<open>mp.c\<close>, \<^verbatim>\<open>main.c\<close>). The tables the firmware leaves are read from memory. Addresses the linker
  fixes are in the record \<open>image\<close>. The boot processor waits for each other processor by letting the
  environment of \<open>w\<close> run; the scheduler of \<open>mpmain\<close> is followed for \<open>w_fuel w\<close> rounds of its endless loop,
  with the processes it runs as a parameter.
\<close>

section \<open>The multiprocessor tables\<close>

definition MP_SIZE :: nat where "MP_SIZE = 16"
definition MPCONF_SIZE :: nat where "MPCONF_SIZE = 44"
definition MPPROC_SIZE :: u32 where "MPPROC_SIZE = 20"
definition MPIOAPIC_SIZE :: u32 where "MPIOAPIC_SIZE = 8"
definition NCPU :: nat where "NCPU = 8"

definition bytes_at :: "memory \<Rightarrow> u32 \<Rightarrow> nat \<Rightarrow> u8 list" where
  "bytes_at m a n = map (\<lambda>i. m (a + of_nat i)) [0..<n]"

definition mp_sum :: "u8 list \<Rightarrow> u8" where
  "mp_sum bs = sum_list bs"

text \<open>The candidates are \<^verbatim>\<open>sizeof(struct mp)\<close> apart; a null pointer is 0.\<close>

primrec mpsearch_from :: "memory \<Rightarrow> u32 \<Rightarrow> nat \<Rightarrow> u32" where
  "mpsearch_from m p 0 = 0"
| "mpsearch_from m p (Suc n) =
     (if bytes_at m p 4 = [95, 77, 80, 95] \<and> mp_sum (bytes_at m p MP_SIZE) = 0 then p
      else mpsearch_from m (p + of_nat MP_SIZE) n)"

definition mpsearch1 :: "memory \<Rightarrow> u32 \<Rightarrow> nat \<Rightarrow> u32" where
  "mpsearch1 m a len = mpsearch_from m (P2V a) (len div MP_SIZE)"

definition mpsearch :: "memory \<Rightarrow> u32" where
  "mpsearch m =
     (let bda = P2V 0x400;
          p = push_bit 4 (push_bit 8 (ucast (m (bda + 0x0F))) OR ucast (m (bda + 0x0E)));
          mp = (if p \<noteq> 0 then mpsearch1 m p 1024
                else mpsearch1 m ((push_bit 8 (ucast (m (bda + 0x14))) OR ucast (m (bda + 0x13))) * 1024 - 1024) 1024) in
      if mp \<noteq> 0 then mp else mpsearch1 m 0xF0000 0x10000)"

definition conf_length :: "memory \<Rightarrow> u32 \<Rightarrow> nat" where
  "conf_length m conf = unat (m (conf + 4)) + 256 * unat (m (conf + 5))"

text \<open>The table and the floating structure that points to it.\<close>

definition mpconfig :: "memory \<Rightarrow> (u32 \<times> u32) option" where
  "mpconfig m =
     (let mp = mpsearch m in
      if mp = 0 \<or> load32 m (mp + 4) = 0 then None
      else
        let conf = P2V (load32 m (mp + 4)); version = m (conf + 6) in
        if bytes_at m conf 4 \<noteq> [80, 67, 77, 80] then None
        else if version \<noteq> 1 \<and> version \<noteq> 4 then None
        else if mp_sum (bytes_at m conf (conf_length m conf)) \<noteq> 0 then None
        else Some (conf, mp))"

text \<open>
  The loop over the entries. The \<^verbatim>\<open>break\<close> of the default case leaves only the switch, so the loop looks
  at the same entry again and never ends.
\<close>

fun mp_entries :: "nat \<Rightarrow> u32 \<Rightarrow> u32 \<Rightarrow> 'a krn_scheme \<Rightarrow> 'a krn_scheme res" where
  "mp_entries 0 p e s = Hangs"
| "mp_entries (Suc fuel) p e s =
     (if \<not> p < e then Ok s
      else
        let ty = mem s p in
        if ty = 0 then
          mp_entries fuel (p + MPPROC_SIZE) e
            (if length (cpus s) < NCPU
             then s\<lparr>cpus := cpus s @ [\<lparr>apicid = mem s (p + 1), started = False, ncli = 0, intena = False, proc = None\<rparr>]\<rparr> else s)
        else if ty = 2 then mp_entries fuel (p + MPIOAPIC_SIZE) e (s\<lparr>ioapicid := mem s (p + 1)\<rparr>)
        else if ty = 1 \<or> ty = 3 \<or> ty = 4 then mp_entries fuel (p + 8) e s
        else mp_entries fuel p e s)"

definition mpinit :: "nat \<Rightarrow> ('a krn_scheme, 'w) kworld_scheme \<Rightarrow> 'a krn_scheme \<Rightarrow> 'a krn_scheme res" where
  "mpinit fuel w s =
     (case mpconfig (mem s) of
        None \<Rightarrow> Panic ''Expect to run on an SMP''
      | Some (conf, mp) \<Rightarrow>
          let s = s\<lparr>lapic := load32 (mem s) (conf + 36)\<rparr> in
          andThen (mp_entries fuel (conf + of_nat MPCONF_SIZE) (conf + of_nat (conf_length (mem s) conf)) s) (\<lambda>s.
            if mem s (mp + 12) \<noteq> 0 then
              let s = outb 0x22 0x70 s; (v, s) = w_inb w 0x23 s in Ok (outb 0x23 (v OR 1) s)
            else Ok s))"

section \<open>Starting the kernel\<close>

record image =
  im_end :: u32
  im_vectors :: "u32 list"
  im_entryother :: u32
  im_entryother_size :: u32
  im_entrypgdir :: u32
  im_mpenter :: u32
  im_initcode :: u32
  im_initcode_size :: u32

fun spin_started :: "nat \<Rightarrow> ('a krn_scheme \<Rightarrow> 'a krn_scheme) \<Rightarrow> nat \<Rightarrow> 'a krn_scheme \<Rightarrow> 'a krn_scheme res" where
  "spin_started 0 env c s = Hangs"
| "spin_started (Suc fuel) env c s = (if started (cpus s ! c) then Ok s else spin_started fuel env c (env s))"

primrec startothers_from :: "('a krn_scheme, 'w) kworld_scheme \<Rightarrow> image \<Rightarrow> nat list \<Rightarrow> 'a krn_scheme \<Rightarrow> 'a krn_scheme res" where
  "startothers_from w im [] s = Ok s"
| "startothers_from w im (c # cs) s =
     andThen (this_cpuid s) (\<lambda>me.
       if c = me then startothers_from w im cs s
       else
         andThen (kalloc s) (\<lambda>(stack, s).
           let code = P2V 0x7000;
               m = store32 (mem s) (code - 4) (stack + KSTACKSIZE);
               m = store32 m (code - 8) (im_mpenter im);
               m = store32 m (code - 12) (V2P (im_entrypgdir im));
               s = lapicstartap (apicid (cpus s ! c)) (V2P code) (s\<lparr>mem := m\<rparr>) in
           andThen (spin_started (w_fuel w) (w_env w) c s) (startothers_from w im cs)))"

definition startothers :: "('a krn_scheme, 'w) kworld_scheme \<Rightarrow> image \<Rightarrow> 'a krn_scheme \<Rightarrow> 'a krn_scheme res" where
  "startothers w im s =
     (let s = s\<lparr>mem := memmove (mem s) (P2V 0x7000) (im_entryother im) (im_entryother_size im)\<rparr> in
      startothers_from w im [0..<length (cpus s)] s)"

definition mpmain ::
    "('a krn_scheme, 'w) kworld_scheme \<Rightarrow> (nat \<Rightarrow> 'a krn_scheme \<Rightarrow> 'a krn_scheme) \<Rightarrow> 'a krn_scheme \<Rightarrow> 'a krn_scheme res" where
  "mpmain w run s =
     andThen (this_cpuid s) (\<lambda>c.
     andThen (cprintf (''cpu%d: starting %d'' @ [CHR 0x0A]) [ANum (of_nat c), ANum (of_nat c)] s) (\<lambda>s.
       let s = s\<lparr>thiscpu := (thiscpu s)\<lparr>started := True\<rparr>, cpus := (cpus s)[c := (cpus s ! c)\<lparr>started := True\<rparr>]\<rparr> in
       scheduler (w_fuel w) run s))"

definition mpenter ::
    "('a krn_scheme, 'w) kworld_scheme \<Rightarrow> (nat \<Rightarrow> 'a krn_scheme \<Rightarrow> 'a krn_scheme) \<Rightarrow> 'a krn_scheme \<Rightarrow> 'a krn_scheme res" where
  "mpenter w run s = andThen (lapicinit w (seginit (switchkvm s))) (mpmain w run)"

definition main ::
    "('a krn_scheme, 'w) kworld_scheme \<Rightarrow> image \<Rightarrow> (nat \<Rightarrow> 'a krn_scheme \<Rightarrow> 'a krn_scheme) \<Rightarrow> 'a krn_scheme \<Rightarrow> 'a krn_scheme res" where
  "main w im run s =
     andThen (kinit1 (im_end im) (P2V (4 * 1024 * 1024)) s) (\<lambda>s.
     andThen (kvmalloc s) (\<lambda>s.
     andThen (mpinit (w_fuel w) w s) (\<lambda>s.
     andThen (lapicinit w s) (\<lambda>s.
     andThen (ioapicinit w (picinit (seginit s))) (\<lambda>s.
       let s = uartinit w (consoleinit s);
           s = tvinit (im_vectors im) (pinit s);
           s = fileinit (binit s) in
     andThen (ideinit w s) (\<lambda>s.
     andThen (startothers w im s) (\<lambda>s.
     andThen (kinit2 (P2V (4 * 1024 * 1024)) (P2V PHYSTOP) s) (\<lambda>s.
     andThen (userinit w (im_initcode im) (im_initcode_size im) s) (\<lambda>s.
     mpmain w run s)))))))))"

section \<open>When the table scan ends\<close>

text \<open>The entries of a table by their bytes: whether every entry type is known, and how many processors it names.\<close>

fun mp_known :: "u8 list \<Rightarrow> bool" where
  "mp_known [] = True"
| "mp_known (t # bs) = (if t = 0 then mp_known (drop 19 bs) else if t \<le> 4 then mp_known (drop 7 bs) else False)"

fun mp_procs :: "u8 list \<Rightarrow> nat" where
  "mp_procs [] = 0"
| "mp_procs (t # bs) = (if t = 0 then Suc (mp_procs (drop 19 bs)) else if t \<le> 4 then mp_procs (drop 7 bs) else 0)"

lemma mp_type_cases: "(t :: u8) \<le> 4 \<longleftrightarrow> t = 0 \<or> t = 1 \<or> t = 2 \<or> t = 3 \<or> t = 4"
proof -
  have "unat t \<le> 4 \<longleftrightarrow> unat t = 0 \<or> unat t = 1 \<or> unat t = 2 \<or> unat t = 3 \<or> unat t = 4" by linarith
  then show ?thesis by (simp add: word_le_nat_alt word_unat_eq_iff)
qed

lemma bytes_at_Suc: "bytes_at m p (Suc n) = m p # bytes_at m (p + 1) n"
  by (simp add: bytes_at_def upt_conv_Cons map_Suc_upt [symmetric] add.assoc del: upt_Suc)

lemma drop_bytes_at: "k \<le> n \<Longrightarrow> drop k (bytes_at m p n) = bytes_at m (p + of_nat k) (n - k)"
  by (rule nth_equalityI) (auto simp: bytes_at_def add.assoc)

text \<open>The bytes from an entry to the end of the table, and from the entry after it.\<close>

definition mp_rest :: "memory \<Rightarrow> u32 \<Rightarrow> u32 \<Rightarrow> u8 list" where
  "mp_rest m p e = bytes_at m p (unat e - unat p)"

lemma mp_rest_nil: "\<not> p < e \<Longrightarrow> mp_rest m p e = []"
  by (simp add: mp_rest_def bytes_at_def word_less_nat_alt)

lemma mp_rest_cons: "p < e \<Longrightarrow> \<exists>bs. mp_rest m p e = m p # bs"
  by (simp add: mp_rest_def word_less_nat_alt) (metis Suc_diff_Suc bytes_at_Suc)

lemma mp_rest_next:
  assumes "p < e" "unat e + 20 \<le> 4294967296" "0 < k" "k \<le> 20"
  shows "mp_rest m (p + of_nat k) e = drop (k - 1) (tl (mp_rest m p e))" "length (mp_rest m (p + of_nat k) e) < length (mp_rest m p e)"
proof -
  have k: "unat (p + of_nat k) = unat p + k"
    using assms by (subst unat_add_lem [THEN iffD1]) (simp_all add: unat_of_nat word_less_nat_alt)
  obtain n where n: "unat e - unat p = Suc n" using assms(1) by (metis Suc_diff_Suc word_less_nat_alt)
  have tl: "tl (mp_rest m p e) = bytes_at m (p + 1) n" by (simp add: mp_rest_def n bytes_at_Suc)
  show "mp_rest m (p + of_nat k) e = drop (k - 1) (tl (mp_rest m p e))"
  proof (cases "k - 1 \<le> n")
    case True
    have a: "p + 1 + of_nat (k - 1) = p + of_nat k" using assms(3) by (cases k) simp_all
    have b: "unat e - (unat p + k) = n - (k - 1)" using n True assms(3) by linarith
    have "mp_rest m (p + of_nat k) e = bytes_at m (p + of_nat k) (n - (k - 1))" unfolding mp_rest_def k b ..
    then show ?thesis unfolding tl drop_bytes_at [OF True] a .
  next
    case False
    then show ?thesis unfolding tl using n by (simp add: mp_rest_def k) (simp add: bytes_at_def)
  qed
  show "length (mp_rest m (p + of_nat k) e) < length (mp_rest m p e)" using n k assms(3) by (simp add: mp_rest_def bytes_at_def)
qed

lemma mp_entries_ends:
  fixes s :: "'a krn_scheme"
  assumes "mp_known (mp_rest (mem s) p e)" "length (mp_rest (mem s) p e) < fuel" "unat e + 20 \<le> 4294967296" "length (cpus s) \<le> NCPU"
  shows "\<exists>s'. mp_entries fuel p e s = Ok s' \<and> length (cpus s') = min NCPU (length (cpus s) + mp_procs (mp_rest (mem s) p e)) \<and> mem s' = mem s"
  using assms(1,2,4)
proof (induction fuel arbitrary: p s)
  case (Suc fuel)
  show ?case
  proof (cases "p < e")
    case False
    then show ?thesis using Suc.prems(3) by (simp add: mp_rest_nil)
  next
    case True
    obtain bs where bs: "mp_rest (mem s) p e = mem s p # bs" using mp_rest_cons [OF True] by blast
    note nx = mp_rest_next [OF True assms(3), of _ "mem s"]
    have n20: "mp_rest (mem s) (p + 20) e = drop 19 bs" "length (drop 19 bs) < fuel"
      and n8: "mp_rest (mem s) (p + 8) e = drop 7 bs" "length (drop 7 bs) < fuel"
      using nx [of 20] nx [of 8] bs Suc.prems(2) by simp_all
    let ?t = "mem s p"
    have ty: "?t \<le> 4" using Suc.prems(1) bs by (auto split: if_splits)
    consider (cpu) "?t = 0" | (ioapic) "?t = 2" | (other) "?t = 1 \<or> ?t = 3 \<or> ?t = 4" using ty mp_type_cases by blast
    then show ?thesis
    proof cases
      case cpu
      let ?s = "if length (cpus s) < NCPU then s\<lparr>cpus := cpus s @ [\<lparr>apicid = mem s (p + 1), started = False, ncli = 0, intena = False, proc = None\<rparr>]\<rparr> else s"
      have "mp_known (mp_rest (mem ?s) (p + 20) e)" "length (mp_rest (mem ?s) (p + 20) e) < fuel" "length (cpus ?s) \<le> NCPU"
        using Suc.prems(1,3) bs cpu n20 by auto
      from Suc.IH [OF this] show ?thesis using True cpu bs n20 Suc.prems(3) by (auto simp: MPPROC_SIZE_def Let_def split: if_splits)
    next
      case ioapic
      let ?s = "s\<lparr>ioapicid := mem s (p + 1)\<rparr>"
      have "mp_known (mp_rest (mem ?s) (p + 8) e)" "length (mp_rest (mem ?s) (p + 8) e) < fuel" "length (cpus ?s) \<le> NCPU"
        using Suc.prems(1,3) bs ioapic n8 by (auto split: if_splits)
      from Suc.IH [OF this] show ?thesis using True ioapic bs n8 ty by (auto simp: MPIOAPIC_SIZE_def Let_def)
    next
      case other
      have "mp_known (mp_rest (mem s) (p + 8) e)" "length (mp_rest (mem s) (p + 8) e) < fuel"
        using Suc.prems(1) bs other n8 by (auto split: if_splits)
      from Suc.IH [OF this Suc.prems(3)] show ?thesis using True other bs n8 ty by (auto simp: Let_def)
    qed
  qed
qed simp

lemma mp_entries_hangs:
  fixes s :: "'a krn_scheme"
  assumes "\<not> mp_known (mp_rest (mem s) p e)" "unat e + 20 \<le> 4294967296"
  shows "mp_entries fuel p e s = Hangs"
  using assms(1)
proof (induction fuel arbitrary: p s)
  case (Suc fuel)
  have True: "p < e" using Suc.prems mp_rest_nil by fastforce
  obtain bs where bs: "mp_rest (mem s) p e = mem s p # bs" using mp_rest_cons [OF True] by blast
  note nx = mp_rest_next [OF True assms(2), of _ "mem s"]
  have n: "mp_rest (mem s) (p + 20) e = drop 19 bs" "mp_rest (mem s) (p + 8) e = drop 7 bs" using nx [of 20] nx [of 8] bs by simp_all
  have IH: "\<not> mp_known (mp_rest (mem s) q e) \<Longrightarrow> mem t = mem s \<Longrightarrow> mp_entries fuel q e t = Hangs" for q and t :: "'a krn_scheme"
    using Suc.IH [where ?s = t] by simp
  show ?case using Suc.prems True bs n IH mp_type_cases [of "mem s p"]
    by (auto simp: Let_def MPPROC_SIZE_def MPIOAPIC_SIZE_def)
qed simp

text \<open>
  C38. The scan of the multiprocessor table returns exactly when every entry has a known type: then a
  number of rounds given by the length of the table is enough, and every processor named is recorded as
  long as there is room for it. At the first entry of another type the scan goes on for ever, and the
  panic after the loop is never reached.
\<close>

theorem mp_scan_terminates:
  fixes s :: "'a krn_scheme"
  assumes "unat e + 20 \<le> 4294967296" "length (cpus s) \<le> NCPU"
  shows "(mp_known (mp_rest (mem s) p e) \<longrightarrow> (\<exists>s'. mp_entries (Suc (unat e - unat p)) p e s = Ok s'
        \<and> length (cpus s') = min NCPU (length (cpus s) + mp_procs (mp_rest (mem s) p e))))
    \<and> (\<not> mp_known (mp_rest (mem s) p e) \<longrightarrow> (\<forall>fuel. mp_entries fuel p e s = Hangs))"
proof -
  have "length (mp_rest (mem s) p e) < Suc (unat e - unat p)" by (simp add: mp_rest_def bytes_at_def)
  then show ?thesis using mp_entries_ends [OF _ _ assms, of p "Suc (unat e - unat p)"] mp_entries_hangs [OF _ assms(1), of s p] by blast
qed

theorem mp_scan_terminates_witness:
  "(\<exists>s'. mp_entries 21 0x80000000 0x80000014 (krn_example\<lparr>mem := (\<lambda>_. 0)\<rparr>) = Ok s' \<and> length (cpus s') = 2)
   \<and> (\<forall>fuel. mp_entries fuel 0x80000000 0x80000014 krn_example = Hangs)"
proof -
  have e: "unat (0x80000014 :: u32) + 20 \<le> 4294967296" by simp
  let ?z = "krn_example\<lparr>mem := (\<lambda>_. 0)\<rparr>"
  have c: "length (cpus ?z) \<le> NCPU" "length (cpus krn_example) \<le> NCPU" by (simp_all add: krn_example_def fil.defs NCPU_def)
  have r: "mp_rest (\<lambda>_. v) 0x80000000 0x80000014 = v # replicate 19 v" for v
    using replicate_Suc [of 19 v] by (simp add: mp_rest_def bytes_at_def map_replicate_const)
  have z: "mp_rest (mem ?z) 0x80000000 0x80000014 = 0 # replicate 19 0" using r by simp
  have "mem krn_example = (\<lambda>_. 7)" using fil_example_ok(2) by (simp add: krn_example_def fil.defs)
  then have m: "mp_rest (mem krn_example) 0x80000000 0x80000014 = 7 # replicate 19 7" using r by simp
  have k: "mp_known (mp_rest (mem ?z) 0x80000000 0x80000014)" "mp_procs (mp_rest (mem ?z) 0x80000000 0x80000014) = 1"
    "\<not> mp_known (mp_rest (mem krn_example) 0x80000000 0x80000014)" 
    by (simp_all only: z m) (simp_all add: mp_type_cases)
  have n: "Suc (unat (0x80000014 :: u32) - unat (0x80000000 :: u32)) = 21" "length (cpus ?z) = 1" by (simp_all add: krn_example_def fil.defs)
  obtain s' where "mp_entries 21 0x80000000 0x80000014 ?z = Ok s'" "length (cpus s') = min NCPU (1 + 1)"
    using mp_scan_terminates [OF e c(1), of "0x80000000", unfolded n k(2)] k(1) by blast
  moreover have "min NCPU (1 + 1) = 2" by (simp add: NCPU_def)
  ultimately show ?thesis using mp_scan_terminates [OF e c(2), of "0x80000000"] k(3) by metis
qed

end
