(* ===== verification/User_Lib.thy ===== *)
theory User_Lib
  imports Sysfile
begin

text \<open>
  User programs and their library (\<^verbatim>\<open>usys.S\<close>, \<^verbatim>\<open>ulib.c\<close>, \<^verbatim>\<open>printf.c\<close>).

  A program is a tree: it returns a value, has exited, or makes a system call and goes on depending on
  the answer. \<open>fork\<close> answers 0 in the child, so the behaviour of parent and child are two branches of one
  tree. Strings and buffers are lists of characters; a C string is such a list up to its terminator. A
  loop that runs as long as the kernel keeps answering takes a bound on its rounds and is \<open>Stuck\<close> when the
  bound is used up. A null pointer or an index out of range ends in \<open>Crash\<close>.
\<close>

section \<open>Programs\<close>

datatype sysreq =
    SysFork | SysExit | SysWait | SysPipe | SysRead u32 u32 | SysWrite u32 string | SysClose u32 | SysKill u32
  | SysExec string "string list" | SysOpen string u32 | SysMknod string u16 u16 | SysUnlink string | SysFstat u32
  | SysLink string string | SysMkdir string | SysChdir string | SysDup u32 | SysGetpid | SysSbrk u32 | SysSleep u32
  | SysUptime | SysPs u32 u32 string

text \<open>An answer: the return value, and what the call stores for its caller: bytes read, two descriptors, a \<^verbatim>\<open>struct stat\<close>.\<close>

record sysres =
  sr_ret :: u32
  sr_data :: string
  sr_fds :: "u32 \<times> u32"
  sr_stat :: stat

datatype 'a uprog = Ret 'a | Exited | Crash | Stuck | Do sysreq "sysres \<Rightarrow> 'a uprog"

primrec ubind :: "'a uprog \<Rightarrow> ('a \<Rightarrow> 'b uprog) \<Rightarrow> 'b uprog" where
  "ubind (Ret x) f = f x"
| "ubind Exited f = Exited"
| "ubind Crash f = Crash"
| "ubind Stuck f = Stuck"
| "ubind (Do r k) f = Do r (\<lambda>a. ubind (k a) f)"

definition usys :: "sysreq \<Rightarrow> u32 uprog" where
  "usys r = Do r (\<lambda>a. Ret (sr_ret a))"

definition uexit :: "'a uprog" where
  "uexit = Do SysExit (\<lambda>_. Exited)"

primrec ueach :: "'b list \<Rightarrow> ('b \<Rightarrow> unit uprog) \<Rightarrow> unit uprog" where
  "ueach [] f = Ret ()"
| "ueach (x # xs) f = ubind (f x) (\<lambda>_. ueach xs f)"

section \<open>printf.c\<close>

definition putc :: "u32 \<Rightarrow> char \<Rightarrow> unit uprog" where
  "putc fd c = Do (SysWrite fd [c]) (\<lambda>_. Ret ())"

definition u_digits :: string where "u_digits = ''0123456789ABCDEF''"

definition u_printint :: "u32 \<Rightarrow> nat \<Rightarrow> bool \<Rightarrow> string" where
  "u_printint xx base sign =
     (let neg = sign \<and> sint xx < 0;
          x = (if neg then unat (- xx) else unat xx);
          buf = map (\<lambda>d. u_digits ! d) (ndigits base x);
          buf = (if neg then buf @ ''-'' else buf) in
      rev buf)"

fun u_num :: "fmt_arg list \<Rightarrow> nat \<Rightarrow> bool \<Rightarrow> string" where
  "u_num (ANum x # _) base sign = u_printint x base sign"
| "u_num _ base sign = []"

fun u_char :: "fmt_arg list \<Rightarrow> string" where
  "u_char (ANum x # _) = [char_of (unat x)]"
| "u_char _ = []"

fun u_format :: "string \<Rightarrow> fmt_arg list \<Rightarrow> string" where
  "u_format [] args = []"
| "u_format (c # fmt) args =
     (if c \<noteq> CHR ''%'' then c # u_format fmt args
      else case fmt of
        [] \<Rightarrow> []
      | d # fmt' \<Rightarrow>
          if d = CHR ''d'' then u_num args 10 True @ u_format fmt' (tl args)
          else if d = CHR ''x'' \<or> d = CHR ''p'' then u_num args 16 False @ u_format fmt' (tl args)
          else if d = CHR ''s'' then fmt_str args @ u_format fmt' (tl args)
          else if d = CHR ''c'' then u_char args @ u_format fmt' (tl args)
          else if d = CHR ''%'' then CHR ''%'' # u_format fmt' args
          else CHR ''%'' # d # u_format fmt' args)"

definition u_printf :: "u32 \<Rightarrow> string \<Rightarrow> fmt_arg list \<Rightarrow> unit uprog" where
  "u_printf fd fmt args = ueach (u_format fmt args) (putc fd)"

definition ustr :: "string \<Rightarrow> fmt_arg" where
  "ustr t = AStr (Some t)"

definition NLC :: char where "NLC = CHR 0x0A"

section \<open>ulib.c\<close>

fun strcmp :: "string \<Rightarrow> string \<Rightarrow> int" where
  "strcmp (p # ps) (q # qs) = (if p = q then strcmp ps qs else of_char p - of_char q)"
| "strcmp (p # ps) [] = of_char p"
| "strcmp [] (q # qs) = - of_char q"
| "strcmp [] [] = 0"

primrec strchr :: "string \<Rightarrow> char \<Rightarrow> string option" where
  "strchr [] c = None"
| "strchr (s # ss) c = (if s = c then Some (s # ss) else strchr ss c)"

text \<open>The user-level \<^verbatim>\<open>memset\<close> and \<^verbatim>\<open>memmove\<close>: one byte after the other, upwards.\<close>

definition u_memset :: "memory \<Rightarrow> u32 \<Rightarrow> u32 \<Rightarrow> u32 \<Rightarrow> memory" where
  "u_memset m dst c n = stosb m dst (ucast c) (unat n)"

definition u_memmove :: "memory \<Rightarrow> u32 \<Rightarrow> u32 \<Rightarrow> u32 \<Rightarrow> memory" where
  "u_memmove m vdst vsrc n = copy_up m vdst vsrc (nat (sint n))"

primrec gets_loop :: "nat \<Rightarrow> string \<Rightarrow> string uprog" where
  "gets_loop 0 buf = Ret buf"
| "gets_loop (Suc room) buf =
     Do (SysRead 0 1) (\<lambda>a.
       if sint (sr_ret a) < 1 then Ret buf
       else case sr_data a of
         [] \<Rightarrow> Crash
       | c # _ \<Rightarrow> if c = NLC \<or> c = CHR 0x0D then Ret (buf @ [c]) else gets_loop room (buf @ [c]))"

definition gets :: "nat \<Rightarrow> string uprog" where
  "gets max_n = gets_loop (max_n - 1) []"

definition u_stat :: "string \<Rightarrow> (u32 \<times> stat) uprog" where
  "u_stat n =
     ubind (usys (SysOpen n O_RDONLY)) (\<lambda>fd.
       if sint fd < 0 then Ret (- 1, \<lparr>st_type = 0, st_dev = 0, st_ino = 0, st_nlink = 0, st_size = 0\<rparr>)
       else Do (SysFstat fd) (\<lambda>a. Do (SysClose fd) (\<lambda>_. Ret (sr_ret a, sr_stat a))))"

text \<open>\<open>n\<close> is a C \<^verbatim>\<open>int\<close>; 32-bit arithmetic wraps.\<close>

primrec atoi_from :: "u32 \<Rightarrow> string \<Rightarrow> u32" where
  "atoi_from n [] = n"
| "atoi_from n (c # cs) =
     (if (48 :: nat) \<le> of_char c \<and> (of_char c :: nat) \<le> 57 then atoi_from (n * 10 + of_char c - 48) cs else n)"

definition atoi :: "string \<Rightarrow> u32" where
  "atoi s = atoi_from 0 s"

end
