(* ===== verification/Shell.thy ===== *)
theory Shell
  imports User_Lib
begin

text \<open>
  The shell (\<^verbatim>\<open>sh.c\<close>): the tokenizer, the recursive-descent parser, the termination of the words in place,
  and the execution of a command tree as a program.

  The parser works on positions in the line \<open>buf\<close>; the end pointer \<^verbatim>\<open>es\<close> is its length, and what a pointer
  to \<^verbatim>\<open>es\<close> reads is the terminator. A word of a command is the pair of its start and its end. The mutually
  recursive functions carry a bound on the depth of their calls, \<open>Hangs\<close> when it is used up. \<^verbatim>\<open>malloc\<close> of the
  nodes is taken to succeed.
\<close>

section \<open>Definitions\<close>

definition MAXARGS :: nat where "MAXARGS = 10"

datatype cmd =
    ExecCmd "(nat \<times> nat) list"
  | RedirCmd cmd "nat \<times> nat" u32 u32
  | PipeCmd cmd cmd
  | ListCmd cmd cmd
  | BackCmd cmd

subsection \<open>Tokens\<close>

definition whitespace :: string where
  "whitespace = [CHR '' '', CHR 0x09, CHR 0x0D, CHR 0x0A, CHR 0x0B]"

definition symbols :: string where
  "symbols = ''<|>&;()''"

definition char_at :: "string \<Rightarrow> nat \<Rightarrow> char" where
  "char_at buf s = (if s < length buf then buf ! s else CHR 0x00)"

function skip_ws :: "string \<Rightarrow> nat \<Rightarrow> nat" where
  "skip_ws buf s = (if s < length buf \<and> strchr whitespace (buf ! s) \<noteq> None then skip_ws buf (Suc s) else s)"
  by pat_completeness auto
termination
  by (relation "measure (\<lambda>(buf, s). length buf - s)") auto

function skip_word :: "string \<Rightarrow> nat \<Rightarrow> nat" where
  "skip_word buf s =
     (if s < length buf \<and> strchr whitespace (buf ! s) = None \<and> strchr symbols (buf ! s) = None
      then skip_word buf (Suc s) else s)"
  by pat_completeness auto
termination
  by (relation "measure (\<lambda>(buf, s). length buf - s)") auto

declare skip_ws.simps [simp del] skip_word.simps [simp del]

text \<open>The token, its start and end, and the position after it.\<close>

definition gettoken :: "string \<Rightarrow> nat \<Rightarrow> char \<times> nat \<times> nat \<times> nat" where
  "gettoken buf s =
     (let q = skip_ws buf s;
          c = char_at buf q;
          (ret, eq) =
            (if c = CHR 0x00 then (c, q)
             else if c \<in> set ''|();&<'' then (c, Suc q)
             else if c = CHR ''>'' then
               (if char_at buf (Suc q) = CHR ''>'' then (CHR ''+'', Suc (Suc q)) else (c, Suc q))
             else (CHR ''a'', skip_word buf q)) in
      (ret, q, eq, skip_ws buf eq))"

definition peek :: "string \<Rightarrow> nat \<Rightarrow> string \<Rightarrow> bool \<times> nat" where
  "peek buf s toks =
     (let s = skip_ws buf s in
      (char_at buf s \<noteq> CHR 0x00 \<and> strchr toks (char_at buf s) \<noteq> None, s))"

definition after_token :: "string \<Rightarrow> nat \<Rightarrow> nat" where
  "after_token buf s = (let (_, _, _, s) = gettoken buf s in s)"

subsection \<open>The parser\<close>

definition redir_mode :: "char \<Rightarrow> u32" where
  "redir_mode tok = (if tok = CHR ''<'' then O_RDONLY else O_WRONLY OR O_CREATE)"

definition redir_fd :: "char \<Rightarrow> u32" where
  "redir_fd tok = (if tok = CHR ''<'' then 0 else 1)"

fun parseredirs :: "nat \<Rightarrow> string \<Rightarrow> cmd \<Rightarrow> nat \<Rightarrow> (cmd \<times> nat) res" where
  "parseredirs 0 buf cmd s = Hangs"
| "parseredirs (Suc n) buf cmd s =
     (let (b, s) = peek buf s ''<>'' in
      if \<not> b then Ok (cmd, s)
      else
        let (tok, _, _, s) = gettoken buf s;
            (t, q, eq, s) = gettoken buf s in
        if t \<noteq> CHR ''a'' then Panic ''missing file for redirection''
        else parseredirs n buf (RedirCmd cmd (q, eq) (redir_mode tok) (redir_fd tok)) s)"

text \<open>The argument is stored through \<^verbatim>\<open>cmd\<close> into the innermost node, below the redirections in \<^verbatim>\<open>ret\<close>.\<close>

primrec add_arg :: "nat \<times> nat \<Rightarrow> cmd \<Rightarrow> cmd" where
  "add_arg w (ExecCmd args) = ExecCmd (args @ [w])"
| "add_arg w (RedirCmd c f m d) = RedirCmd (add_arg w c) f m d"
| "add_arg w (PipeCmd l r) = PipeCmd l r"
| "add_arg w (ListCmd l r) = ListCmd l r"
| "add_arg w (BackCmd c) = BackCmd c"

fun parseargs :: "nat \<Rightarrow> string \<Rightarrow> cmd \<Rightarrow> nat \<Rightarrow> nat \<Rightarrow> (cmd \<times> nat) res" where
  "parseargs 0 buf ret argc s = Hangs"
| "parseargs (Suc n) buf ret argc s =
     (let (b, s) = peek buf s ''|)&;'' in
      if b then Ok (ret, s)
      else
        let (tok, q, eq, s) = gettoken buf s in
        if tok = CHR 0x00 then Ok (ret, s)
        else if tok \<noteq> CHR ''a'' then Panic ''syntax''
        else if Suc argc \<ge> MAXARGS then Panic ''too many args''
        else andThen (parseredirs n buf (add_arg (q, eq) ret) s) (\<lambda>(ret, s). parseargs n buf ret (Suc argc) s))"

fun parsebacks :: "nat \<Rightarrow> string \<Rightarrow> cmd \<Rightarrow> nat \<Rightarrow> (cmd \<times> nat) res" where
  "parsebacks 0 buf cmd s = Hangs"
| "parsebacks (Suc n) buf cmd s =
     (let (b, s) = peek buf s ''&'' in
      if \<not> b then Ok (cmd, s) else parsebacks n buf (BackCmd cmd) (after_token buf s))"

fun parseline :: "nat \<Rightarrow> string \<Rightarrow> nat \<Rightarrow> (cmd \<times> nat) res"
and parsepipe :: "nat \<Rightarrow> string \<Rightarrow> nat \<Rightarrow> (cmd \<times> nat) res"
and parseblock :: "nat \<Rightarrow> string \<Rightarrow> nat \<Rightarrow> (cmd \<times> nat) res"
and parseexec :: "nat \<Rightarrow> string \<Rightarrow> nat \<Rightarrow> (cmd \<times> nat) res" where
  "parseline 0 buf s = Hangs"
| "parseline (Suc n) buf s =
     andThen (parsepipe n buf s) (\<lambda>(cmd, s).
     andThen (parsebacks n buf cmd s) (\<lambda>(cmd, s).
       let (b, s) = peek buf s '';'' in
       if b then andThen (parseline n buf (after_token buf s)) (\<lambda>(r, s). Ok (ListCmd cmd r, s))
       else Ok (cmd, s)))"
| "parsepipe 0 buf s = Hangs"
| "parsepipe (Suc n) buf s =
     andThen (parseexec n buf s) (\<lambda>(cmd, s).
       let (b, s) = peek buf s ''|'' in
       if b then andThen (parsepipe n buf (after_token buf s)) (\<lambda>(r, s). Ok (PipeCmd cmd r, s))
       else Ok (cmd, s))"
| "parseblock 0 buf s = Hangs"
| "parseblock (Suc n) buf s =
     (let (b, s) = peek buf s ''('' in
      if \<not> b then Panic ''parseblock''
      else
        andThen (parseline n buf (after_token buf s)) (\<lambda>(cmd, s).
          let (b, s) = peek buf s '')'' in
          if \<not> b then Panic ''syntax - missing )''
          else parseredirs n buf cmd (after_token buf s)))"
| "parseexec 0 buf s = Hangs"
| "parseexec (Suc n) buf s =
     (let (b, s) = peek buf s ''('' in
      if b then parseblock n buf s
      else andThen (parseredirs n buf (ExecCmd []) s) (\<lambda>(ret, s). parseargs n buf ret 0 s))"

text \<open>Every word gets its terminator in place; at the end of the line there is one already.\<close>

primrec nulterminate :: "cmd \<Rightarrow> string \<Rightarrow> string" where
  "nulterminate (ExecCmd args) buf = fold (\<lambda>(q, eq) b. b[eq := CHR 0x00]) args buf"
| "nulterminate (RedirCmd c f m d) buf = (nulterminate c buf)[snd f := CHR 0x00]"
| "nulterminate (PipeCmd l r) buf = nulterminate r (nulterminate l buf)"
| "nulterminate (ListCmd l r) buf = nulterminate r (nulterminate l buf)"
| "nulterminate (BackCmd c) buf = nulterminate c buf"

definition parse_depth :: "string \<Rightarrow> nat" where
  "parse_depth buf = 4 * length buf + 4"

definition sh_panic :: "string \<Rightarrow> 'a uprog" where
  "sh_panic t = ubind (u_printf 2 (''%s'' @ [NLC]) [ustr t]) (\<lambda>_. uexit)"

definition parsecmd :: "string \<Rightarrow> (string \<times> cmd) uprog" where
  "parsecmd buf =
     (case parseline (parse_depth buf) buf 0 of
        Panic t \<Rightarrow> sh_panic t
      | Fault a \<Rightarrow> Crash
      | Hangs \<Rightarrow> Stuck
      | Ok (cmd, s) \<Rightarrow>
          let (_, s) = peek buf s [] in
          if s \<noteq> length buf then ubind (u_printf 2 (''leftovers: %s'' @ [NLC]) [ustr (drop s buf)]) (\<lambda>_. sh_panic ''syntax'')
          else Ret (nulterminate cmd buf, cmd))"

subsection \<open>Execution\<close>

definition cstr_at :: "string \<Rightarrow> nat \<times> nat \<Rightarrow> string" where
  "cstr_at buf w = takeWhile (\<lambda>c. c \<noteq> CHR 0x00) (drop (fst w) buf)"

definition fork1 :: "u32 uprog" where
  "fork1 = ubind (usys SysFork) (\<lambda>pid. if pid = - 1 then sh_panic ''fork'' else Ret pid)"

definition close2 :: "u32 \<times> u32 \<Rightarrow> unit uprog" where
  "close2 p = Do (SysClose (fst p)) (\<lambda>_. Do (SysClose (snd p)) (\<lambda>_. Ret ()))"

primrec runcmd :: "string \<Rightarrow> cmd \<Rightarrow> unit uprog" where
  "runcmd buf (ExecCmd args) =
     (case args of
        [] \<Rightarrow> uexit
      | w # _ \<Rightarrow>
          ubind (usys (SysExec (cstr_at buf w) (map (cstr_at buf) args))) (\<lambda>_.
          ubind (u_printf 2 (''exec %s failed'' @ [NLC]) [ustr (cstr_at buf w)]) (\<lambda>_. uexit)))"
| "runcmd buf (RedirCmd c f m d) =
     ubind (usys (SysClose d)) (\<lambda>_.
     ubind (usys (SysOpen (cstr_at buf f) m)) (\<lambda>fd.
       if sint fd < 0 then ubind (u_printf 2 (''open %s failed'' @ [NLC]) [ustr (cstr_at buf f)]) (\<lambda>_. uexit)
       else ubind (runcmd buf c) (\<lambda>_. uexit)))"
| "runcmd buf (ListCmd l r) =
     ubind fork1 (\<lambda>pid.
     ubind (if pid = 0 then runcmd buf l else Ret ()) (\<lambda>_.
     ubind (usys SysWait) (\<lambda>_.
     ubind (runcmd buf r) (\<lambda>_. uexit))))"
| "runcmd buf (PipeCmd l r) =
     Do SysPipe (\<lambda>a.
       if sint (sr_ret a) < 0 then sh_panic ''pipe''
       else
         let p = sr_fds a in
         ubind fork1 (\<lambda>pid.
         ubind (if pid = 0 then
                  ubind (usys (SysClose 1)) (\<lambda>_. ubind (usys (SysDup (snd p))) (\<lambda>_. ubind (close2 p) (\<lambda>_. runcmd buf l)))
                else Ret ()) (\<lambda>_.
         ubind fork1 (\<lambda>pid.
         ubind (if pid = 0 then
                  ubind (usys (SysClose 0)) (\<lambda>_. ubind (usys (SysDup (fst p))) (\<lambda>_. ubind (close2 p) (\<lambda>_. runcmd buf r)))
                else Ret ()) (\<lambda>_.
         ubind (close2 p) (\<lambda>_.
         ubind (usys SysWait) (\<lambda>_.
         ubind (usys SysWait) (\<lambda>_. uexit))))))))"
| "runcmd buf (BackCmd c) =
     ubind fork1 (\<lambda>pid.
     ubind (if pid = 0 then runcmd buf c else Ret ()) (\<lambda>_. uexit))"

definition getcmd :: "nat \<Rightarrow> (string option) uprog" where
  "getcmd nbuf =
     ubind (u_printf 2 ''$ '' []) (\<lambda>_.
     ubind (gets nbuf) (\<lambda>buf. Ret (if buf = [] \<or> hd buf = CHR 0x00 then None else Some (takeWhile (\<lambda>c. c \<noteq> CHR 0x00) buf))))"

primrec sh_open :: "nat \<Rightarrow> unit uprog" where
  "sh_open 0 = Stuck"
| "sh_open (Suc n) =
     ubind (usys (SysOpen ''console'' O_RDWR)) (\<lambda>fd.
       if sint fd < 0 then Ret ()
       else if sint fd \<ge> 3 then ubind (usys (SysClose fd)) (\<lambda>_. Ret ())
       else sh_open n)"

primrec sh_loop :: "nat \<Rightarrow> unit uprog" where
  "sh_loop 0 = Stuck"
| "sh_loop (Suc n) =
     ubind (getcmd 100) (\<lambda>r.
       case r of
         None \<Rightarrow> Ret ()
       | Some buf \<Rightarrow>
           if take 3 buf = ''cd '' then
             (let dir = drop 3 (butlast buf) in
              ubind (usys (SysChdir dir)) (\<lambda>r.
              ubind (if sint r < 0 then u_printf 2 (''cannot cd %s'' @ [NLC]) [ustr dir] else Ret ()) (\<lambda>_. sh_loop n)))
           else
             ubind fork1 (\<lambda>pid.
             ubind (if pid = 0 then ubind (parsecmd buf) (\<lambda>(buf, cmd). runcmd buf cmd) else Ret ()) (\<lambda>_.
             ubind (usys SysWait) (\<lambda>_. sh_loop n))))"

definition sh_main :: "nat \<Rightarrow> unit uprog" where
  "sh_main n = ubind (sh_open n) (\<lambda>_. ubind (sh_loop n) (\<lambda>_. uexit))"

section \<open>Positions and the text after them\<close>

definition at_text :: "string \<Rightarrow> nat \<Rightarrow> string \<Rightarrow> bool" where
  "at_text buf p x \<longleftrightarrow> (\<exists>pre. buf = pre @ x \<and> length pre = p)"

definition slice :: "string \<Rightarrow> nat \<times> nat \<Rightarrow> string" where
  "slice buf w = take (snd w - fst w) (drop (fst w) buf)"

definition word_char :: "char \<Rightarrow> bool" where
  "word_char c \<longleftrightarrow> c \<notin> set whitespace \<and> c \<notin> set symbols"

abbreviation skipped :: "string \<Rightarrow> string" where
  "skipped \<equiv> dropWhile (\<lambda>c. c \<in> set whitespace)"

lemma strchr_iff [simp]: "strchr t c = None \<longleftrightarrow> c \<notin> set t"
  by (induction t) auto

lemma at_text_Cons: "at_text buf p (c # x) \<Longrightarrow> p < length buf \<and> buf ! p = c \<and> at_text buf (Suc p) x"
  by (auto simp: at_text_def)

lemma at_text_append: "at_text buf p (w @ x) \<Longrightarrow> at_text buf (p + length w) x \<and> slice buf (p, p + length w) = w"
  by (auto simp: at_text_def slice_def)

lemma at_text_Nil: "at_text buf p [] \<longleftrightarrow> p = length buf"
  by (auto simp: at_text_def)

lemma at_text_char: "at_text buf p x \<Longrightarrow> char_at buf p = (case x of [] \<Rightarrow> CHR 0x00 | c # _ \<Rightarrow> c)"
  by (auto simp: at_text_def char_at_def nth_append split: list.split)

lemma skip_ws_at: "at_text buf p x \<Longrightarrow> at_text buf (skip_ws buf p) (skipped x)"
proof (induction x arbitrary: p)
  case Nil
  then show ?case by (subst skip_ws.simps) (simp add: at_text_Nil)
next
  case (Cons c x)
  then show ?case using at_text_Cons [OF Cons.prems] by (subst skip_ws.simps) auto
qed

lemma skip_word_at:
  "at_text buf p (w @ x) \<Longrightarrow> \<forall>c\<in>set w. word_char c \<Longrightarrow> x = [] \<or> \<not> word_char (hd x) \<Longrightarrow> skip_word buf p = p + length w"
proof (induction w arbitrary: p)
  case Nil
  show ?case
  proof (cases x)
    case Nil
    then show ?thesis using Nil.prems by (subst skip_word.simps) (simp add: at_text_Nil)
  next
    case (Cons c y)
    then show ?thesis using Nil.prems at_text_Cons [of buf p c y] by (subst skip_word.simps) (auto simp: word_char_def)
  qed
next
  case (Cons c w)
  have "at_text buf p (c # w @ x)" using Cons.prems(1) by simp
  then show ?case using at_text_Cons Cons by (subst skip_word.simps) (auto simp: word_char_def)
qed

lemma peek_at:
  assumes "at_text buf p x"
  shows "\<exists>p'. peek buf p toks = (skipped x \<noteq> [] \<and> hd (skipped x) \<noteq> CHR 0x00 \<and> hd (skipped x) \<in> set toks, p') \<and> at_text buf p' (skipped x)"
  using skip_ws_at [OF assms] at_text_char [OF skip_ws_at [OF assms]]
  by (auto simp: peek_def Let_def simp del: dropWhile_eq_Nil_conv split: list.splits)

lemma gettoken_symbol:
  assumes "at_text buf p x" "skipped x = c # y" "c \<in> set ''|();&<''"
  shows "\<exists>q eq p'. gettoken buf p = (c, q, eq, p') \<and> at_text buf p' (skipped y)"
proof -
  have a: "at_text buf (skip_ws buf p) (c # y)" using skip_ws_at [OF assms(1)] assms(2) by simp
  then have "char_at buf (skip_ws buf p) = c" "at_text buf (Suc (skip_ws buf p)) y" using at_text_char at_text_Cons by fastforce+
  then show ?thesis using skip_ws_at assms(3) by (auto simp: gettoken_def Let_def)
qed

lemma gettoken_greater:
  assumes "at_text buf p x" "skipped x = CHR ''>'' # y" "y = [] \<or> hd y \<noteq> CHR ''>''"
  shows "\<exists>q eq p'. gettoken buf p = (CHR ''>'', q, eq, p') \<and> at_text buf p' (skipped y)"
proof -
  have a: "at_text buf (skip_ws buf p) (CHR ''>'' # y)" using skip_ws_at [OF assms(1)] assms(2) by simp
  then have s: "char_at buf (skip_ws buf p) = CHR ''>''" "at_text buf (Suc (skip_ws buf p)) y" using at_text_char at_text_Cons by fastforce+
  moreover have "char_at buf (Suc (skip_ws buf p)) \<noteq> CHR ''>''" using at_text_char [OF s(2)] assms(3) by (auto split: list.splits)
  ultimately show ?thesis using skip_ws_at by (auto simp: gettoken_def Let_def)
qed

lemma gettoken_word:
  assumes "at_text buf p x" "skipped x = w @ y" "w \<noteq> []" "\<forall>c\<in>set w. word_char c \<and> c \<noteq> CHR 0x00" "y = [] \<or> \<not> word_char (hd y)"
  shows "\<exists>q eq p'. gettoken buf p = (CHR ''a'', q, eq, p') \<and> slice buf (q, eq) = w \<and> at_text buf p' (skipped y)"
proof -
  let ?q = "skip_ws buf p"
  have a: "at_text buf ?q (w @ y)" using skip_ws_at [OF assms(1)] assms(2) by simp
  obtain c v where w: "w = c # v" using assms(3) by (cases w) auto
  have c: "char_at buf ?q = c" "word_char c" "c \<noteq> CHR 0x00" using at_text_char [OF a] assms(4) w by auto
  have e: "skip_word buf ?q = ?q + length w" using skip_word_at [OF a] assms(4,5) by auto
  have "c \<notin> set ''|();&<''" "c \<noteq> CHR ''>''" using c(2) by (auto simp: word_char_def symbols_def)
  then show ?thesis using c e at_text_append [OF a] skip_ws_at [of buf "?q + length w" y] by (auto simp: gettoken_def Let_def)
qed

lemma gettoken_end:
  assumes "at_text buf p x" "skipped x = []"
  shows "\<exists>q eq p'. gettoken buf p = (CHR 0x00, q, eq, p') \<and> at_text buf p' []"
proof -
  have a: "at_text buf (skip_ws buf p) []" using skip_ws_at [OF assms(1)] assms(2) by simp
  then show ?thesis using at_text_char [OF a] skip_ws_at [OF a] by (auto simp: gettoken_def Let_def)
qed


section \<open>Commands as text\<close>

datatype acmd =
    AExec "string list"
  | ARedir acmd string u32 u32
  | APipe acmd acmd
  | AList acmd acmd
  | ABack acmd

text \<open>The command a tree stands for: its words taken from the line between their ends, or read up to the terminator.\<close>

primrec slices :: "string \<Rightarrow> cmd \<Rightarrow> acmd" where
  "slices buf (ExecCmd ws) = AExec (map (slice buf) ws)"
| "slices buf (RedirCmd c f m d) = ARedir (slices buf c) (slice buf f) m d"
| "slices buf (PipeCmd l r) = APipe (slices buf l) (slices buf r)"
| "slices buf (ListCmd l r) = AList (slices buf l) (slices buf r)"
| "slices buf (BackCmd c) = ABack (slices buf c)"

primrec cstrings :: "string \<Rightarrow> cmd \<Rightarrow> acmd" where
  "cstrings buf (ExecCmd ws) = AExec (map (cstr_at buf) ws)"
| "cstrings buf (RedirCmd c f m d) = ARedir (cstrings buf c) (cstr_at buf f) m d"
| "cstrings buf (PipeCmd l r) = APipe (cstrings buf l) (cstrings buf r)"
| "cstrings buf (ListCmd l r) = AList (cstrings buf l) (cstrings buf r)"
| "cstrings buf (BackCmd c) = ABack (cstrings buf c)"

text \<open>Commands printed with as few parentheses as the grammar allows; the level is the operator around them.\<close>

definition pr_redir :: "string \<times> u32 \<times> u32 \<Rightarrow> string" where
  "pr_redir r = (if snd (snd r) = 0 then CHR ''<'' else CHR ''>'') # fst r"

definition paren :: "bool \<Rightarrow> string \<Rightarrow> string" where
  "paren b t = (if b then ''('' @ t @ '')'' else t)"

primrec pr_cmd :: "nat \<Rightarrow> acmd \<Rightarrow> string" where
  "pr_cmd lv (AExec ws) = concat (map (\<lambda>w. CHR '' '' # w) ws)"
| "pr_cmd lv (ARedir c f m d) = pr_cmd 3 c @ pr_redir (f, m, d)"
| "pr_cmd lv (APipe l r) = paren (lv > 2) (pr_cmd 3 l @ ''|'' @ pr_cmd 2 r)"
| "pr_cmd lv (ABack c) = paren (lv > 1) (pr_cmd 1 c @ ''&'')"
| "pr_cmd lv (AList l r) = paren (lv > 0) (pr_cmd 1 l @ '';'' @ pr_cmd 0 r)"

definition wf_word :: "string \<Rightarrow> bool" where
  "wf_word w \<longleftrightarrow> w \<noteq> [] \<and> (\<forall>c\<in>set w. word_char c \<and> c \<noteq> CHR 0x00)"

definition wf_redir :: "string \<times> u32 \<times> u32 \<Rightarrow> bool" where
  "wf_redir r \<longleftrightarrow> wf_word (fst r) \<and> snd r \<in> {(O_RDONLY, 0), (O_WRONLY OR O_CREATE, 1)}"

primrec wf_acmd :: "acmd \<Rightarrow> bool" where
  "wf_acmd (AExec ws) \<longleftrightarrow> length ws < MAXARGS \<and> (\<forall>w\<in>set ws. wf_word w)"
| "wf_acmd (ARedir c f m d) \<longleftrightarrow> wf_acmd c \<and> wf_redir (f, m, d)"
| "wf_acmd (APipe l r) \<longleftrightarrow> wf_acmd l \<and> wf_acmd r"
| "wf_acmd (AList l r) \<longleftrightarrow> wf_acmd l \<and> wf_acmd r"
| "wf_acmd (ABack c) \<longleftrightarrow> wf_acmd c"

definition redirs :: "acmd \<Rightarrow> (string \<times> u32 \<times> u32) list \<Rightarrow> acmd" where
  "redirs c rs = foldl (\<lambda>c (f, m, d). ARedir c f m d) c rs"

definition pr_redirs :: "(string \<times> u32 \<times> u32) list \<Rightarrow> string" where
  "pr_redirs rs = concat (map pr_redir rs)"

lemma redirs_simps [simp]: "redirs c [] = c" "redirs c ((f, m, d) # rs) = redirs (ARedir c f m d) rs"
  "pr_redirs [] = []" "pr_redirs (r # rs) = pr_redir r @ pr_redirs rs"
  by (simp_all add: redirs_def pr_redirs_def)

definition stops :: "string \<Rightarrow> string \<Rightarrow> bool" where
  "stops toks x \<longleftrightarrow> x = [] \<or> hd x \<in> set toks"

lemma not_word_chars: "c \<in> set ''<|>&;()'' \<Longrightarrow> \<not> word_char c \<and> c \<notin> set whitespace \<and> c \<noteq> CHR 0x00" "\<not> word_char (CHR '' '')"
  by (auto simp: word_char_def symbols_def whitespace_def)

lemma symbols_not_ws [simp]:
  "CHR ''<'' \<notin> set whitespace" "CHR ''>'' \<notin> set whitespace" "CHR ''|'' \<notin> set whitespace" "CHR ''&'' \<notin> set whitespace"
  "CHR '';'' \<notin> set whitespace" "CHR ''('' \<notin> set whitespace" "CHR '')'' \<notin> set whitespace" "CHR '' '' \<in> set whitespace"
  by (simp_all add: whitespace_def)

lemma skipped_skipped [simp]: "skipped (skipped x) = skipped x"
  by (induction x) auto

lemma skipped_stop: "stops toks x \<Longrightarrow> set toks \<subseteq> set ''<|>&;()'' \<Longrightarrow> skipped x = x"
proof (cases x)
  case (Cons c y)
  assume "stops toks x" "set toks \<subseteq> set ''<|>&;()''"
  then have "c \<in> set ''<|>&;()''" unfolding stops_def Cons list.sel by blast
  then have "c \<notin> set whitespace" using not_word_chars(1) by blast
  then show ?thesis using Cons by simp
qed simp

lemma skipped_word: "wf_word w \<Longrightarrow> skipped (w @ x) = w @ x"
  by (cases w) (auto simp: wf_word_def word_char_def)

lemma parseredirs_at:
  assumes "at_text buf p x" "skipped x = skipped (pr_redirs rs @ rest)" "\<forall>r\<in>set rs. wf_redir r"
    "rest = [] \<or> \<not> word_char (hd rest)" "skipped rest = [] \<or> hd (skipped rest) \<notin> set ''<>''" "length rs < n"
  shows "\<exists>cmd' p'. parseredirs n buf cmd p = Ok (cmd', p') \<and> slices buf cmd' = redirs (slices buf cmd) rs \<and> at_text buf p' (skipped rest)"
  using assms(1,2,3,6)
proof (induction rs arbitrary: n cmd p x)
  case Nil
  then obtain k where "n = Suc k" by (cases n) auto
  then show ?case using peek_at [OF Nil.prems(1), of "''<>''"] Nil.prems(2) assms(5) by auto
next
  case (Cons r rs)
  obtain k where n: "n = Suc k" using Cons.prems(4) by (cases n) auto
  obtain f m d where r: "r = (f, m, d)" by (cases r)
  have f: "wf_word f" and md: "(m = O_RDONLY \<and> d = 0) \<or> (m = O_WRONLY OR O_CREATE \<and> d = 1)" using Cons.prems(3) r by (auto simp: wf_redir_def)
  let ?t = "if d = 0 then CHR ''<'' else CHR ''>''" and ?y = "pr_redirs rs @ rest"
  have t: "skipped x = ?t # f @ ?y" using Cons.prems(2) r by (simp add: pr_redir_def)
  obtain p1 where p1: "peek buf p ''<>'' = (True, p1)" "at_text buf p1 (skipped x)"
    using peek_at [OF Cons.prems(1), of "''<>''"] t by auto
  have "\<exists>q eq p'. gettoken buf p1 = (?t, q, eq, p') \<and> at_text buf p' (skipped (f @ ?y))"
  proof (cases "d = 0")
    case True
    then show ?thesis using gettoken_symbol [OF p1(2), of "?t" "f @ ?y"] t by simp
  next
    case False
    have "f @ ?y = [] \<or> hd (f @ ?y) \<noteq> CHR ''>''" using f by (cases f) (auto simp: wf_word_def word_char_def symbols_def)
    then show ?thesis using gettoken_greater [OF p1(2), of "f @ ?y"] t False by simp
  qed
  then obtain q1 e1 p2 where p2: "gettoken buf p1 = (?t, q1, e1, p2)" "at_text buf p2 (f @ ?y)" using skipped_word [OF f] by auto
  have "?y = [] \<or> \<not> word_char (hd ?y)"
    using assms(4) by (cases rs) (auto simp: pr_redir_def word_char_def symbols_def)
  then obtain q eq p3 where p3: "gettoken buf p2 = (CHR ''a'', q, eq, p3)" "slice buf (q, eq) = f" "at_text buf p3 (skipped ?y)"
    using gettoken_word [OF p2(2) skipped_word [OF f]] f by (auto simp: wf_word_def)
  have md': "redir_mode ?t = m" "redir_fd ?t = d" using md by (auto simp: redir_mode_def redir_fd_def)
  obtain cmd' p' where "parseredirs k buf (RedirCmd cmd (q, eq) m d) p3 = Ok (cmd', p')"
    "slices buf cmd' = redirs (ARedir (slices buf cmd) f m d) rs" "at_text buf p' (skipped rest)"
    using Cons.IH [OF p3(3) _ _ , of k "RedirCmd cmd (q, eq) m d"] Cons.prems(3,4) n p3(2) by auto
  then show ?case using n p1(1) p2(1) p3(1) md' r by simp
qed


definition pr_words :: "string list \<Rightarrow> string" where
  "pr_words ws = concat (map (\<lambda>w. CHR '' '' # w) ws)"

lemma pr_words_simps [simp]: "pr_words [] = []" "pr_words (w # ws) = CHR '' '' # w @ pr_words ws"
  by (simp_all add: pr_words_def)

lemma slices_add_arg: "slices buf ret = AExec us \<Longrightarrow> slices buf (add_arg w ret) = AExec (us @ [slice buf w])"
  by (cases ret) auto

lemma wf_word_hd: "wf_word w \<Longrightarrow> w @ x \<noteq> [] \<and> hd (w @ x) \<notin> set ''<>'' \<and> hd (w @ x) \<notin> set ''|)&;'' \<and> hd (w @ x) \<notin> set ''(''"
  by (cases w) (auto simp: wf_word_def word_char_def symbols_def)

lemma stops_args:
  assumes "stops ''|)&;'' rest"
  shows "skipped rest = rest" "rest = [] \<or> \<not> word_char (hd rest)" "rest = [] \<or> hd rest \<notin> set ''<>''"
    "rest = [] \<or> hd rest \<noteq> CHR 0x00 \<and> hd rest \<in> set ''|)&;''"
  using assms skipped_stop [of "''|)&;''" rest] by (auto simp: stops_def word_char_def symbols_def)

lemma parseargs_end:
  assumes "at_text buf p x" "skipped x = rest" "stops ''|)&;'' rest"
  shows "\<exists>p'. parseargs (Suc n) buf ret argc p = Ok (ret, p') \<and> at_text buf p' rest"
proof -
  obtain p1 where p1: "peek buf p ''|)&;'' = (rest \<noteq> [] \<and> hd rest \<noteq> CHR 0x00 \<and> hd rest \<in> set ''|)&;'', p1)" "at_text buf p1 rest"
    using peek_at [OF assms(1), of "''|)&;''"] assms(2) by auto
  show ?thesis
  proof (cases "rest = []")
    case True
    then show ?thesis using p1 gettoken_end [of buf p1 "[]"] by auto
  next
    case False
    then show ?thesis using p1 stops_args(4) [OF assms(3)] by auto
  qed
qed

lemma parseargs_word:
  assumes "at_text buf p x" "skipped x = w @ pr_redirs rs @ rest" "wf_word w" "\<forall>r\<in>set rs. wf_redir r"
    "rest = [] \<or> \<not> word_char (hd rest)" "skipped rest = [] \<or> hd (skipped rest) \<notin> set ''<>''"
    "length rs < n" "Suc argc < MAXARGS" "slices buf ret = AExec us"
  shows "\<exists>ret' p'. parseargs (Suc n) buf ret argc p = parseargs n buf ret' (Suc argc) p'
    \<and> slices buf ret' = redirs (AExec (us @ [w])) rs \<and> at_text buf p' (skipped rest)"
proof -
  note hd = wf_word_hd [OF assms(3), of "pr_redirs rs @ rest"]
  obtain p1 where p1: "peek buf p ''|)&;'' = (False, p1)" "at_text buf p1 (w @ pr_redirs rs @ rest)"
    using peek_at [OF assms(1), of "''|)&;''"] assms(2) hd by auto
  have "pr_redirs rs @ rest = [] \<or> \<not> word_char (hd (pr_redirs rs @ rest))"
    using assms(5) by (cases rs) (auto simp: pr_redir_def word_char_def symbols_def)
  then obtain q eq p2 where p2: "gettoken buf p1 = (CHR ''a'', q, eq, p2)" "slice buf (q, eq) = w" "at_text buf p2 (skipped (pr_redirs rs @ rest))"
    using gettoken_word [OF p1(2) skipped_word [OF assms(3)]] assms(3) by (auto simp: wf_word_def)
  obtain ret' p' where "parseredirs n buf (add_arg (q, eq) ret) p2 = Ok (ret', p')"
    "slices buf ret' = redirs (AExec (us @ [w])) rs" "at_text buf p' (skipped rest)"
    using parseredirs_at [OF p2(3) _ assms(4,5,6,7), of "add_arg (q, eq) ret"] slices_add_arg [OF assms(9), of "(q, eq)"] p2(2) by auto
  then show ?thesis using p1(1) p2(1) assms(8) by (intro exI [of _ ret'] exI [of _ p']) simp
qed

declare parseargs.simps [simp del] parseredirs.simps [simp del]

lemma parseargs_at:
  assumes "stops ''|)&;'' rest" "\<forall>r\<in>set rs. wf_redir r"
  shows "at_text buf p x \<Longrightarrow> skipped x = skipped (pr_words (w # ws) @ pr_redirs rs @ rest) \<Longrightarrow> \<forall>v\<in>set (w # ws). wf_word v
    \<Longrightarrow> argc + length (w # ws) < MAXARGS \<Longrightarrow> slices buf ret = AExec us \<Longrightarrow> length ws + length rs + 2 \<le> n \<Longrightarrow>
    \<exists>ret' p'. parseargs n buf ret argc p = Ok (ret', p') \<and> slices buf ret' = redirs (AExec (us @ w # ws)) rs \<and> at_text buf p' rest"
proof (induction ws arbitrary: w p x argc ret us n)
  case Nil
  note st = stops_args [OF assms(1)]
  obtain k where n: "n = Suc (Suc k)" "length rs < Suc k" using Nil.prems(6) by (cases n; cases "n - 1") auto
  have x: "skipped x = w @ pr_redirs rs @ rest" using Nil.prems(2,3) skipped_word [of w] by simp
  have side: "wf_word w" "skipped rest = [] \<or> hd (skipped rest) \<notin> set ''<>''" "Suc argc < MAXARGS"
    using Nil.prems(3,4) st(3) unfolding st(1) by simp_all
  obtain ret' p' where r: "parseargs (Suc (Suc k)) buf ret argc p = parseargs (Suc k) buf ret' (Suc argc) p'"
    "slices buf ret' = redirs (AExec (us @ [w])) rs" "at_text buf p' rest"
    using parseargs_word [OF Nil.prems(1) x side(1) assms(2) st(2) side(2) n(2) side(3) Nil.prems(5)] st(1) by auto
  obtain p2 where "parseargs (Suc k) buf ret' (Suc argc) p' = Ok (ret', p2)" "at_text buf p2 rest"
    using parseargs_end [OF r(3) st(1) assms(1), of k ret'] by blast
  then show ?case using n(1) r(1,2) by auto
next
  case (Cons v ws)
  obtain k where n: "n = Suc k" "length ws + length rs + 2 \<le> k" using Cons.prems(6) by (cases n) auto
  let ?rest = "pr_words (v # ws) @ pr_redirs rs @ rest"
  have x: "skipped x = w @ pr_redirs [] @ ?rest" using Cons.prems(2,3) skipped_word [of w] by simp
  have v: "skipped ?rest = v @ pr_words ws @ pr_redirs rs @ rest" using Cons.prems(3) skipped_word [of v] by simp
  have side: "wf_word w" "\<forall>r\<in>set ([] :: (string \<times> u32 \<times> u32) list). wf_redir r" "?rest = [] \<or> \<not> word_char (hd ?rest)"
    "skipped ?rest = [] \<or> hd (skipped ?rest) \<notin> set ''<>''" "length ([] :: (string \<times> u32 \<times> u32) list) < k" "Suc argc < MAXARGS"
    using Cons.prems(3,4) n wf_word_hd [of v "pr_words ws @ pr_redirs rs @ rest"] unfolding v by (simp_all add: word_char_def)
  obtain ret' p' where r: "parseargs (Suc k) buf ret argc p = parseargs k buf ret' (Suc argc) p'"
    "slices buf ret' = AExec (us @ [w])" "at_text buf p' (skipped ?rest)"
    using parseargs_word [OF Cons.prems(1) x side(1,2,3,4,5,6) Cons.prems(5)] by auto
  show ?case using Cons.IH [OF r(3) _ _ _ r(2), where n = k and w = v and argc = "Suc argc"] Cons.prems(3,4) n r(1) by auto
qed


text \<open>What each function of the parser makes of the text of a command, whatever stops it behind.\<close>

definition reads_exec :: "string \<Rightarrow> acmd \<Rightarrow> bool" where
  "reads_exec buf c \<longleftrightarrow> (\<forall>n p x rs rest. at_text buf p x \<and> skipped x = skipped (pr_cmd 3 c @ pr_redirs rs @ rest)
     \<and> (\<forall>r\<in>set rs. wf_redir r) \<and> stops ''|)&;'' rest \<and> 4 * length x + 2 \<le> n \<longrightarrow>
     (\<exists>cmd p'. parseexec n buf p = Ok (cmd, p') \<and> slices buf cmd = redirs c rs \<and> at_text buf p' rest))"

definition reads_pipe :: "string \<Rightarrow> acmd \<Rightarrow> bool" where
  "reads_pipe buf c \<longleftrightarrow> (\<forall>n p x rest. at_text buf p x \<and> skipped x = skipped (pr_cmd 2 c @ rest)
     \<and> stops '')&;'' rest \<and> 4 * length x + 3 \<le> n \<longrightarrow>
     (\<exists>cmd p'. parsepipe n buf p = Ok (cmd, p') \<and> slices buf cmd = c \<and> at_text buf p' rest))"

definition reads_back :: "string \<Rightarrow> acmd \<Rightarrow> bool" where
  "reads_back buf c \<longleftrightarrow> (\<forall>n p x j rest. at_text buf p x \<and> skipped x = skipped (pr_cmd 1 c @ replicate j CHR ''&'' @ rest)
     \<and> stops '');'' rest \<and> 4 * length x + 3 \<le> n \<longrightarrow>
     (\<exists>cmd p'. andThen (parsepipe n buf p) (\<lambda>(cmd, s). parsebacks n buf cmd s) = Ok (cmd, p')
        \<and> slices buf cmd = (ABack ^^ j) c \<and> at_text buf p' rest))"

definition reads_line :: "string \<Rightarrow> acmd \<Rightarrow> bool" where
  "reads_line buf c \<longleftrightarrow> (\<forall>n p x rest. at_text buf p x \<and> skipped x = skipped (pr_cmd 0 c @ rest)
     \<and> stops '')'' rest \<and> 4 * length x + 4 \<le> n \<longrightarrow>
     (\<exists>cmd p'. parseline n buf p = Ok (cmd, p') \<and> slices buf cmd = c \<and> at_text buf p' rest))"

lemma after_token_at:
  assumes "at_text buf p (c # y)" "c \<in> set ''|();&<''"
  shows "at_text buf (after_token buf p) (skipped y)"
proof -
  have "skipped (c # y) = c # y" using not_word_chars(1) [of c] assms(2) by auto
  then show ?thesis using gettoken_symbol [OF assms(1) _ assms(2)] by (auto simp: after_token_def)
qed

lemma skipped_le: "length (skipped x) \<le> length x"
  by (rule length_dropWhile_le)

lemma peek_stop:
  assumes "at_text buf p x" "skipped x = rest" "stops toks rest" "set toks \<subseteq> set ''<|>&;()''"
  shows "\<exists>p'. peek buf p ts' = (rest \<noteq> [] \<and> hd rest \<in> set ts', p') \<and> at_text buf p' rest"
proof -
  have "rest = [] \<or> hd rest \<noteq> CHR 0x00" using assms(3,4) not_word_chars(1) unfolding stops_def by blast
  then show ?thesis using peek_at [OF assms(1), of ts'] assms(2) by auto
qed

lemma parsebacks_at:
  assumes "stops '');'' rest"
  shows "at_text buf p x \<Longrightarrow> skipped x = replicate j CHR ''&'' @ rest \<Longrightarrow> j < n \<Longrightarrow>
    \<exists>cmd' p'. parsebacks n buf cmd p = Ok (cmd', p') \<and> slices buf cmd' = (ABack ^^ j) (slices buf cmd) \<and> at_text buf p' rest"
proof (induction j arbitrary: n cmd p x)
  case 0
  then obtain k where n: "n = Suc k" by (cases n) auto
  obtain p' where "peek buf p ''&'' = (rest \<noteq> [] \<and> hd rest \<in> set ''&'', p')" "at_text buf p' rest"
    using peek_stop [OF 0(1) _ assms, of "''&''"] 0(2) by auto
  then show ?case using n assms by (auto simp: stops_def)
next
  case (Suc j)
  then obtain k where n: "n = Suc k" "j < k" by (cases n) auto
  obtain p1 where p1: "peek buf p ''&'' = (True, p1)" "at_text buf p1 (CHR ''&'' # replicate j CHR ''&'' @ rest)"
    using peek_at [OF Suc.prems(1), of "''&''"] Suc.prems(2) by auto
  have r: "skipped (replicate j CHR ''&'' @ rest) = replicate j CHR ''&'' @ rest"
    using skipped_stop [OF assms] by (cases j) auto
  have p2: "at_text buf (after_token buf p1) (replicate j CHR ''&'' @ rest)" using after_token_at [OF p1(2)] r by simp
  have "(ABack ^^ j) (ABack c) = (ABack ^^ Suc j) c" for c by (simp add: funpow_swap1)
  then show ?case using Suc.IH [OF p2 r n(2), of "BackCmd cmd"] n(1) p1(1) by auto
qed


declare parsebacks.simps [simp del]

lemma stops_mono: "stops toks x \<Longrightarrow> set toks \<subseteq> set toks' \<Longrightarrow> stops toks' x"
  by (auto simp: stops_def)

text \<open>A command that is no operator of a level is read there as on the next level.\<close>

lemma reads_pipe_exec:
  assumes e: "reads_exec buf c" and pr: "pr_cmd 2 c = pr_cmd 3 c"
  shows "reads_pipe buf c"
  unfolding reads_pipe_def
proof (intro allI impI, elim conjE)
  fix n p x rest assume a: "at_text buf p x" "skipped x = skipped (pr_cmd 2 c @ rest)" "stops '')&;'' rest" "4 * length x + 3 \<le> n"
  obtain k where n: "n = Suc k" "4 * length x + 2 \<le> k" using a(4) by (cases n) auto
  have st: "stops ''|)&;'' rest" by (rule stops_mono [OF a(3)]) auto
  obtain cmd p1 where r: "parseexec k buf p = Ok (cmd, p1)" "slices buf cmd = c" "at_text buf p1 rest"
    using e [unfolded reads_exec_def, rule_format, of p x "[]" rest k] a(1,2) pr st n(2) by auto
  obtain p2 where "peek buf p1 ''|'' = (rest \<noteq> [] \<and> hd rest \<in> set ''|'', p2)" "at_text buf p2 rest"
    using peek_stop [OF r(3) _ a(3), of "''|''"] stops_args(1) [OF st] by auto
  then show "\<exists>cmd p'. parsepipe n buf p = Ok (cmd, p') \<and> slices buf cmd = c \<and> at_text buf p' rest"
    using r n a(3) by (auto simp: stops_def)
qed

lemma reads_back_pipe:
  assumes e: "reads_pipe buf c" and pr: "pr_cmd 1 c = pr_cmd 2 c"
  shows "reads_back buf c"
  unfolding reads_back_def
proof (intro allI impI, elim conjE)
  fix n p x j rest
  assume a: "at_text buf p x" "skipped x = skipped (pr_cmd 1 c @ replicate j CHR ''&'' @ rest)" "stops '');'' rest" "4 * length x + 3 \<le> n"
  let ?r = "replicate j CHR ''&'' @ rest"
  have st: "stops '')&;'' ?r" using stops_mono [OF a(3), of "'')&;''"] by (cases j) (auto simp: stops_def)
  have sk: "skipped ?r = ?r" using skipped_stop [OF st] by simp
  obtain cmd p1 where r: "parsepipe n buf p = Ok (cmd, p1)" "slices buf cmd = c" "at_text buf p1 ?r"
    using e [unfolded reads_pipe_def, rule_format, of p x ?r n] a pr st by auto
  have "j \<le> length (skipped x)"
  proof -
    have "length ?r \<le> length (skipped (pr_cmd 1 c @ ?r))" using sk by (induction "pr_cmd 1 c") (auto simp: dropWhile_append)
    then show ?thesis using a(2) by simp
  qed
  then have "j < n" using a(4) skipped_le [of x] by linarith
  then show "\<exists>cmd p'. andThen (parsepipe n buf p) (\<lambda>(cmd, s). parsebacks n buf cmd s) = Ok (cmd, p')
      \<and> slices buf cmd = (ABack ^^ j) c \<and> at_text buf p' rest"
    using parsebacks_at [OF a(3) r(3) sk, of n cmd] r(1,2) by simp
qed

lemma reads_line_back:
  assumes e: "reads_back buf c" and pr: "pr_cmd 0 c = pr_cmd 1 c"
  shows "reads_line buf c"
  unfolding reads_line_def
proof (intro allI impI, elim conjE)
  fix n p x rest assume a: "at_text buf p x" "skipped x = skipped (pr_cmd 0 c @ rest)" "stops '')'' rest" "4 * length x + 4 \<le> n"
  obtain k where n: "n = Suc k" "4 * length x + 3 \<le> k" using a(4) by (cases n) auto
  have st: "stops '');'' rest" by (rule stops_mono [OF a(3)]) auto
  obtain cmd p1 where r: "andThen (parsepipe k buf p) (\<lambda>(cmd, s). parsebacks k buf cmd s) = Ok (cmd, p1)" "slices buf cmd = c" "at_text buf p1 rest"
    using e [unfolded reads_back_def, rule_format, of p x 0 rest k] a(1,2) pr st n(2) by auto
  obtain p2 where "peek buf p1 '';'' = (rest \<noteq> [] \<and> hd rest \<in> set '';'', p2)" "at_text buf p2 rest"
    using peek_stop [OF r(3) _ st, of "'';''"] skipped_stop [OF st] by auto
  then show "\<exists>cmd p'. parseline n buf p = Ok (cmd, p') \<and> slices buf cmd = c \<and> at_text buf p' rest"
    using r n a(3) by (auto simp: stops_def andThen_eq_Ok_iff)
qed


text \<open>The operators themselves.\<close>

lemma reads_exec_words:
  assumes "length ws < MAXARGS" "\<forall>w\<in>set ws. wf_word w"
  shows "reads_exec buf (AExec ws)"
  unfolding reads_exec_def
proof (intro allI impI, elim conjE)
  fix n p x rs rest
  assume a: "at_text buf p x" "skipped x = skipped (pr_cmd 3 (AExec ws) @ pr_redirs rs @ rest)" "\<forall>r\<in>set rs. wf_redir r"
    "stops ''|)&;'' rest" "4 * length x + 2 \<le> n"
  note st = stops_args [OF a(4)]
  obtain k where n: "n = Suc (Suc k)" "4 * length x \<le> k" using a(5) by (cases n; cases "n - 1") auto
  have t: "skipped x = skipped (pr_words ws @ pr_redirs rs @ rest)" using a(2) by (simp add: pr_words_def)
  have rl: "length rs \<le> length (pr_redirs rs)" by (induction rs) (auto simp: pr_redir_def)
  have wl: "length vs \<le> length (pr_words vs)" for vs by (induction vs) auto
  show "\<exists>cmd p'. parseexec n buf p = Ok (cmd, p') \<and> slices buf cmd = redirs (AExec ws) rs \<and> at_text buf p' rest"
  proof (cases ws)
    case Nil
    have sk: "skipped (pr_redirs rs @ rest) = pr_redirs rs @ rest" using st(1) by (cases rs) (auto simp: pr_redir_def)
    have h: "pr_redirs rs @ rest = [] \<or> hd (pr_redirs rs @ rest) \<noteq> CHR ''(''" using a(4) by (cases rs) (auto simp: pr_redir_def stops_def)
    obtain p1 where p1: "peek buf p ''('' = (False, p1)" "at_text buf p1 (pr_redirs rs @ rest)"
      using peek_at [OF a(1), of "''(''"] t Nil sk h by auto
    have "length rs < Suc k" using rl t Nil sk n(2) skipped_le [of x] by simp
    then obtain cmd p2 where r: "parseredirs (Suc k) buf (ExecCmd []) p1 = Ok (cmd, p2)" "slices buf cmd = redirs (AExec []) rs" "at_text buf p2 rest"
      using parseredirs_at [OF p1(2) _ a(3) st(2), of "Suc k" "ExecCmd []"] st by auto
    then show ?thesis using parseargs_end [OF r(3) st(1) a(4), of k cmd 0] p1(1) n(1) Nil by auto
  next
    case (Cons w vs)
    then have w: "wf_word w" using assms(2) by simp
    have sk: "skipped x = w @ pr_words vs @ pr_redirs rs @ rest" using t Cons skipped_word [OF w] by simp
    note h = wf_word_hd [OF w, of "pr_words vs @ pr_redirs rs @ rest"]
    obtain p1 where p1: "peek buf p ''('' = (False, p1)" "at_text buf p1 (skipped x)"
      using peek_at [OF a(1), of "''(''"] sk h by auto
    let ?r = "pr_words ws @ pr_redirs rs @ rest"
    have side: "?r = [] \<or> \<not> word_char (hd ?r)" "skipped ?r = [] \<or> hd (skipped ?r) \<notin> set ''<>''"
      using Cons h sk t not_word_chars(2) by auto
    obtain cmd p2 where r: "parseredirs (Suc k) buf (ExecCmd []) p1 = Ok (cmd, p2)" "slices buf cmd = AExec []" "at_text buf p2 (skipped ?r)"
      using parseredirs_at [OF p1(2), of "[]" ?r "Suc k" "ExecCmd []"] t side by auto
    have "length vs + length rs + 2 \<le> Suc k" using rl wl [of vs] sk w n(2) skipped_le [of x] by (cases w) (auto simp: wf_word_def)
    then obtain cmd' p3 where "parseargs (Suc k) buf cmd 0 p2 = Ok (cmd', p3)" "slices buf cmd' = redirs (AExec ([] @ w # vs)) rs" "at_text buf p3 rest"
      using parseargs_at [OF a(4,3) r(3) _ _ _ r(2), of w vs 0 "Suc k"] assms Cons by auto
    then show ?thesis using p1(1) r(1) n(1) Cons by auto
  qed
qed

lemma reads_exec_redir:
  assumes "reads_exec buf c" "wf_redir (f, m, d)"
  shows "reads_exec buf (ARedir c f m d)"
  unfolding reads_exec_def
proof (intro allI impI, elim conjE)
  fix n p x rs rest
  assume a: "at_text buf p x" "skipped x = skipped (pr_cmd 3 (ARedir c f m d) @ pr_redirs rs @ rest)" "\<forall>r\<in>set rs. wf_redir r"
    "stops ''|)&;'' rest" "4 * length x + 2 \<le> n"
  then show "\<exists>cmd p'. parseexec n buf p = Ok (cmd, p') \<and> slices buf cmd = redirs (ARedir c f m d) rs \<and> at_text buf p' rest"
    using assms(1) [unfolded reads_exec_def, rule_format, of p x "(f, m, d) # rs" rest n] assms(2) by simp
qed

lemma reads_exec_line:
  assumes e: "reads_line buf c" and pr: "pr_cmd 3 c = ''('' @ pr_cmd 0 c @ '')''"
  shows "reads_exec buf c"
  unfolding reads_exec_def
proof (intro allI impI, elim conjE)
  fix n p x rs rest
  assume a: "at_text buf p x" "skipped x = skipped (pr_cmd 3 c @ pr_redirs rs @ rest)" "\<forall>r\<in>set rs. wf_redir r"
    "stops ''|)&;'' rest" "4 * length x + 2 \<le> n"
  note st = stops_args [OF a(4)]
  let ?t = "pr_cmd 0 c @ '')'' @ pr_redirs rs @ rest"
  obtain k where n: "n = Suc (Suc k)" "4 * length x \<le> k" using a(5) by (cases n; cases "n - 1") auto
  have t: "skipped x = CHR ''('' # ?t" using a(2) pr by simp
  obtain p1 where p1: "peek buf p ''('' = (True, p1)" "at_text buf p1 (skipped x)" using peek_at [OF a(1), of "''(''"] t by auto
  obtain p2 where p2: "peek buf p1 ''('' = (True, p2)" "at_text buf p2 (CHR ''('' # ?t)" using peek_at [OF p1(2), of "''(''"] t by auto
  have p3: "at_text buf (after_token buf p2) (skipped ?t)" using after_token_at [OF p2(2)] by simp
  have len: "4 * length (skipped ?t) + 4 \<le> k" "length rs < k"
  proof -
    have "length (skipped ?t) < length x" using skipped_le [of x] skipped_le [of ?t] t by simp
    then show "4 * length (skipped ?t) + 4 \<le> k" using n(2) by simp
    have "length rs \<le> length (pr_redirs rs)" by (induction rs) (auto simp: pr_redir_def)
    then show "length rs < k" using n(2) skipped_le [of x] t by simp
  qed
  obtain cmd p4 where r: "parseline k buf (after_token buf p2) = Ok (cmd, p4)" "slices buf cmd = c" "at_text buf p4 (CHR '')'' # pr_redirs rs @ rest)"
    using e [unfolded reads_line_def, rule_format, of "after_token buf p2" "skipped ?t" "'')'' @ pr_redirs rs @ rest" k] p3 len(1)
    by (auto simp: stops_def)
  obtain p5 where p5: "peek buf p4 '')'' = (True, p5)" "at_text buf p5 (CHR '')'' # pr_redirs rs @ rest)" using peek_at [OF r(3), of "'')''"] by auto
  have p6: "at_text buf (after_token buf p5) (skipped (pr_redirs rs @ rest))" using after_token_at [OF p5(2)] by simp
  obtain cmd' p7 where "parseredirs k buf cmd (after_token buf p5) = Ok (cmd', p7)" "slices buf cmd' = redirs c rs" "at_text buf p7 rest"
    using parseredirs_at [OF p6 _ a(3) st(2), of k cmd] st len(2) r(2) by auto
  then show "\<exists>cmd p'. parseexec n buf p = Ok (cmd, p') \<and> slices buf cmd = redirs c rs \<and> at_text buf p' rest"
    using p1(1) p2(1) r(1) p5(1) n(1) by auto
qed


lemma reads_pipe_APipe:
  assumes l: "reads_exec buf l" and r: "reads_pipe buf r"
  shows "reads_pipe buf (APipe l r)"
  unfolding reads_pipe_def
proof (intro allI impI, elim conjE)
  fix n p x rest
  assume a: "at_text buf p x" "skipped x = skipped (pr_cmd 2 (APipe l r) @ rest)" "stops '')&;'' rest" "4 * length x + 3 \<le> n"
  let ?t = "pr_cmd 2 r @ rest"
  obtain k where n: "n = Suc k" "4 * length x + 2 \<le> k" using a(4) by (cases n) auto
  have t: "skipped x = skipped (pr_cmd 3 l @ pr_redirs [] @ CHR ''|'' # ?t)" using a(2) by (simp add: paren_def)
  obtain cl p1 where p1: "parseexec k buf p = Ok (cl, p1)" "slices buf cl = l" "at_text buf p1 (CHR ''|'' # ?t)"
    using l [unfolded reads_exec_def, rule_format, of p x "[]" "CHR ''|'' # ?t" k] a(1) t n(2) by (auto simp: stops_def)
  obtain p2 where p2: "peek buf p1 ''|'' = (True, p2)" "at_text buf p2 (CHR ''|'' # ?t)" using peek_at [OF p1(3), of "''|''"] by auto
  have p3: "at_text buf (after_token buf p2) (skipped ?t)" using after_token_at [OF p2(2)] by simp
  have "length (CHR ''|'' # ?t) \<le> length (skipped x)" unfolding t by (induction "pr_cmd 3 l") (auto simp: dropWhile_append)
  then have "4 * length (skipped ?t) + 3 \<le> k" using skipped_le [of x] skipped_le [of ?t] n(2) by simp
  then obtain cr p4 where "parsepipe k buf (after_token buf p2) = Ok (cr, p4)" "slices buf cr = r" "at_text buf p4 rest"
    using r [unfolded reads_pipe_def, rule_format, of "after_token buf p2" "skipped ?t" rest k] p3 a(3) by auto
  then show "\<exists>cmd p'. parsepipe n buf p = Ok (cmd, p') \<and> slices buf cmd = APipe l r \<and> at_text buf p' rest"
    using p1 p2(1) n(1) by auto
qed

lemma reads_back_ABack:
  assumes "reads_back buf c"
  shows "reads_back buf (ABack c)"
  unfolding reads_back_def
proof (intro allI impI, elim conjE)
  fix n p x j rest
  assume a: "at_text buf p x" "skipped x = skipped (pr_cmd 1 (ABack c) @ replicate j CHR ''&'' @ rest)" "stops '');'' rest" "4 * length x + 3 \<le> n"
  have "(ABack ^^ Suc j) c = (ABack ^^ j) (ABack c)" by (simp add: funpow_swap1)
  then show "\<exists>cmd p'. andThen (parsepipe n buf p) (\<lambda>(cmd, s). parsebacks n buf cmd s) = Ok (cmd, p')
      \<and> slices buf cmd = (ABack ^^ j) (ABack c) \<and> at_text buf p' rest"
    using assms [unfolded reads_back_def, rule_format, of p x "Suc j" rest n] a by (simp add: paren_def)
qed

lemma reads_line_AList:
  assumes l: "reads_back buf l" and r: "reads_line buf r"
  shows "reads_line buf (AList l r)"
  unfolding reads_line_def
proof (intro allI impI, elim conjE)
  fix n p x rest
  assume a: "at_text buf p x" "skipped x = skipped (pr_cmd 0 (AList l r) @ rest)" "stops '')'' rest" "4 * length x + 4 \<le> n"
  let ?t = "pr_cmd 0 r @ rest"
  obtain k where n: "n = Suc k" "4 * length x + 3 \<le> k" using a(4) by (cases n) auto
  have t: "skipped x = skipped (pr_cmd 1 l @ replicate 0 CHR ''&'' @ CHR '';'' # ?t)" using a(2) by (simp add: paren_def)
  obtain cl p1 where p1: "andThen (parsepipe k buf p) (\<lambda>(cmd, s). parsebacks k buf cmd s) = Ok (cl, p1)" "slices buf cl = l"
    "at_text buf p1 (CHR '';'' # ?t)"
    using l [unfolded reads_back_def, rule_format, of p x 0 "CHR '';'' # ?t" k] a(1) t n(2) by (auto simp: stops_def)
  obtain p2 where p2: "peek buf p1 '';'' = (True, p2)" "at_text buf p2 (CHR '';'' # ?t)" using peek_at [OF p1(3), of "'';''"] by auto
  have p3: "at_text buf (after_token buf p2) (skipped ?t)" using after_token_at [OF p2(2)] by simp
  have "length (CHR '';'' # ?t) \<le> length (skipped x)" unfolding t by (induction "pr_cmd 1 l") (auto simp: dropWhile_append)
  then have "4 * length (skipped ?t) + 4 \<le> k" using skipped_le [of x] skipped_le [of ?t] n(2) by simp
  then obtain cr p4 where "parseline k buf (after_token buf p2) = Ok (cr, p4)" "slices buf cr = r" "at_text buf p4 rest"
    using r [unfolded reads_line_def, rule_format, of "after_token buf p2" "skipped ?t" rest k] p3 a(3) by auto
  then show "\<exists>cmd p'. parseline n buf p = Ok (cmd, p') \<and> slices buf cmd = AList l r \<and> at_text buf p' rest"
    using p1 p2(1) n(1) by (auto simp: andThen_eq_Ok_iff)
qed

lemma reads_all: "wf_acmd c \<Longrightarrow> reads_exec buf c \<and> reads_pipe buf c \<and> reads_back buf c \<and> reads_line buf c"
proof (induction c)
  case (AExec ws)
  then have "reads_exec buf (AExec ws)" using reads_exec_words by simp
  then show ?case using reads_pipe_exec reads_back_pipe reads_line_back by (metis pr_cmd.simps(1))
next
  case (ARedir c f m d)
  then have "reads_exec buf (ARedir c f m d)" using reads_exec_redir by simp
  then show ?case using reads_pipe_exec reads_back_pipe reads_line_back by (metis pr_cmd.simps(2))
next
  case (APipe l r)
  then have p: "reads_pipe buf (APipe l r)" using reads_pipe_APipe by simp
  have b: "reads_back buf (APipe l r)" by (rule reads_back_pipe [OF p]) (simp add: paren_def)
  have n: "reads_line buf (APipe l r)" by (rule reads_line_back [OF b]) (simp add: paren_def)
  have "reads_exec buf (APipe l r)" by (rule reads_exec_line [OF n]) (simp add: paren_def)
  then show ?case using p b n by simp
next
  case (AList l r)
  then have n: "reads_line buf (AList l r)" using reads_line_AList by simp
  have e: "reads_exec buf (AList l r)" by (rule reads_exec_line [OF n]) (simp add: paren_def)
  have p: "reads_pipe buf (AList l r)" by (rule reads_pipe_exec [OF e]) (simp add: paren_def)
  have "reads_back buf (AList l r)" by (rule reads_back_pipe [OF p]) (simp add: paren_def)
  then show ?case using p e n by simp
next
  case (ABack c)
  then have b: "reads_back buf (ABack c)" using reads_back_ABack by simp
  have n: "reads_line buf (ABack c)" by (rule reads_line_back [OF b]) (simp add: paren_def)
  have e: "reads_exec buf (ABack c)" by (rule reads_exec_line [OF n]) (simp add: paren_def)
  have "reads_pipe buf (ABack c)" by (rule reads_pipe_exec [OF e]) (simp add: paren_def)
  then show ?case using b e n by simp
qed


section \<open>Words terminated in place\<close>

primrec cmd_words :: "cmd \<Rightarrow> (nat \<times> nat) set" where
  "cmd_words (ExecCmd args) = set args"
| "cmd_words (RedirCmd c f m d) = insert f (cmd_words c)"
| "cmd_words (PipeCmd l r) = cmd_words l \<union> cmd_words r"
| "cmd_words (ListCmd l r) = cmd_words l \<union> cmd_words r"
| "cmd_words (BackCmd c) = cmd_words c"

text \<open>A word is a longest run of word characters.\<close>

definition is_word :: "string \<Rightarrow> nat \<times> nat \<Rightarrow> bool" where
  "is_word buf w \<longleftrightarrow> fst w \<le> snd w \<and> snd w \<le> length buf \<and> (\<forall>i. fst w \<le> i \<and> i < snd w \<longrightarrow> word_char (buf ! i))
     \<and> (snd w < length buf \<longrightarrow> \<not> word_char (buf ! snd w))"

definition words_ok :: "string \<Rightarrow> cmd \<Rightarrow> bool" where
  "words_ok buf c \<longleftrightarrow> (\<forall>w\<in>cmd_words c. is_word buf w)"

lemma skip_word_is_word: "s \<le> length buf \<Longrightarrow> s \<le> skip_word buf s \<and> is_word buf (s, skip_word buf s)"
proof (induction buf s rule: skip_word.induct)
  case (1 buf s)
  show ?case
  proof (cases "s < length buf \<and> strchr whitespace (buf ! s) = None \<and> strchr symbols (buf ! s) = None")
    case True
    then have e: "skip_word buf s = skip_word buf (Suc s)" by (subst skip_word.simps) simp
    have ih: "Suc s \<le> skip_word buf (Suc s)" "is_word buf (Suc s, skip_word buf (Suc s))" using 1(1) [OF True] True by auto
    have "word_char (buf ! s)" using True by (auto simp: word_char_def)
    then have "word_char (buf ! i)" if "s \<le> i" "i < skip_word buf (Suc s)" for i
      using ih(2) that by (cases "i = s") (auto simp: is_word_def)
    then have "is_word buf (s, skip_word buf (Suc s))" using ih(2) by (auto simp: is_word_def)
    then show ?thesis using e ih(1) by simp
  next
    case False
    then have "skip_word buf s = s" by (subst skip_word.simps) auto
    then show ?thesis using False 1(2) by (auto simp: is_word_def word_char_def)
  qed
qed

lemma skip_ws_le: "s \<le> length buf \<Longrightarrow> skip_ws buf s \<le> length buf"
  by (induction buf s rule: skip_ws.induct) (subst skip_ws.simps, auto)

lemma skip_ws_past: "\<not> s < length buf \<Longrightarrow> skip_ws buf s = s"
  by (subst skip_ws.simps) simp

lemma gettoken_is_word: "gettoken buf s = (CHR ''a'', q, eq, s') \<Longrightarrow> is_word buf (q, eq)"
proof -
  assume g: "gettoken buf s = (CHR ''a'', q, eq, s')"
  then have q: "q = skip_ws buf s" "char_at buf q \<noteq> CHR 0x00" "eq = skip_word buf q"
    by (auto simp: gettoken_def Let_def split: if_splits)
  then have "q < length buf" by (auto simp: char_at_def split: if_splits)
  then show ?thesis using skip_word_is_word [of q buf] q(3) by simp
qed

lemma words_ok_simps [simp]:
  "words_ok buf (ExecCmd []) = True" "words_ok buf (RedirCmd c f m d) = (is_word buf f \<and> words_ok buf c)"
  "words_ok buf (PipeCmd l r) = (words_ok buf l \<and> words_ok buf r)" "words_ok buf (ListCmd l r) = (words_ok buf l \<and> words_ok buf r)"
  "words_ok buf (BackCmd c) = words_ok buf c"
  by (auto simp: words_ok_def)

lemma words_ok_add_arg: "words_ok buf c \<Longrightarrow> is_word buf w \<Longrightarrow> words_ok buf (add_arg w c)"
  by (induction c) (auto simp: words_ok_def)

lemma parseredirs_words: "parseredirs n buf cmd s = Ok (cmd', s') \<Longrightarrow> words_ok buf cmd \<Longrightarrow> words_ok buf cmd'"
proof (induction n arbitrary: cmd s)
  case (Suc n)
  obtain b s1 where pk: "peek buf s ''<>'' = (b, s1)" by (cases "peek buf s ''<>''")
  obtain tok q1 e1 s2 where g1: "gettoken buf s1 = (tok, q1, e1, s2)" by (cases "gettoken buf s1")
  obtain t q eq s3 where g2: "gettoken buf s2 = (t, q, eq, s3)" by (cases "gettoken buf s2")
  show ?case
  proof (cases "b \<and> t = CHR ''a''")
    case True
    then have "parseredirs n buf (RedirCmd cmd (q, eq) (redir_mode tok) (redir_fd tok)) s3 = Ok (cmd', s')"
      using Suc.prems(1) by (simp add: parseredirs.simps pk g1 g2)
    moreover have "is_word buf (q, eq)" using True g2 gettoken_is_word by blast
    ultimately show ?thesis using Suc.IH Suc.prems(2) by simp
  next
    case False
    then show ?thesis using Suc.prems by (auto simp: parseredirs.simps pk g1 g2 split: if_splits)
  qed
qed (simp add: parseredirs.simps)

lemma parseargs_words: "parseargs n buf cmd argc s = Ok (cmd', s') \<Longrightarrow> words_ok buf cmd \<Longrightarrow> words_ok buf cmd'"
proof (induction n arbitrary: cmd argc s)
  case (Suc n)
  obtain b s1 where pk: "peek buf s ''|)&;'' = (b, s1)" by (cases "peek buf s ''|)&;''")
  obtain t q eq s2 where g: "gettoken buf s1 = (t, q, eq, s2)" by (cases "gettoken buf s1")
  show ?case
  proof (cases "\<not> b \<and> t = CHR ''a'' \<and> Suc argc < MAXARGS")
    case True
    then obtain c1 s3 where r: "parseredirs n buf (add_arg (q, eq) cmd) s2 = Ok (c1, s3)" "parseargs n buf c1 (Suc argc) s3 = Ok (cmd', s')"
      using Suc.prems(1) by (auto simp: parseargs.simps pk g andThen_eq_Ok_iff)
    have "is_word buf (q, eq)" using True g gettoken_is_word by blast
    then show ?thesis using parseredirs_words [OF r(1)] words_ok_add_arg [OF Suc.prems(2)] Suc.IH [OF r(2)] by blast
  next
    case False
    then show ?thesis using Suc.prems by (auto simp: parseargs.simps pk g split: if_splits)
  qed
qed (simp add: parseargs.simps)

lemma parsebacks_words: "parsebacks n buf cmd s = Ok (cmd', s') \<Longrightarrow> words_ok buf cmd \<Longrightarrow> words_ok buf cmd'"
proof (induction n arbitrary: cmd s)
  case (Suc n)
  obtain b s1 where pk: "peek buf s ''&'' = (b, s1)" by (cases "peek buf s ''&''")
  show ?case using Suc.prems Suc.IH [of "BackCmd cmd"] by (cases b) (auto simp: parsebacks.simps pk)
qed (simp add: parsebacks.simps)

lemma parser_words:
  "(\<forall>s c s'. parseline n buf s = Ok (c, s') \<longrightarrow> words_ok buf c) \<and> (\<forall>s c s'. parsepipe n buf s = Ok (c, s') \<longrightarrow> words_ok buf c)
   \<and> (\<forall>s c s'. parseblock n buf s = Ok (c, s') \<longrightarrow> words_ok buf c) \<and> (\<forall>s c s'. parseexec n buf s = Ok (c, s') \<longrightarrow> words_ok buf c)"
proof (induction n)
  case (Suc n)
  have ln: "words_ok buf c" if "parseline n buf s = Ok (c, s')" for s c s' using Suc that by blast
  have pp: "words_ok buf c" if "parsepipe n buf s = Ok (c, s')" for s c s' using Suc that by blast
  have bl: "words_ok buf c" if "parseblock n buf s = Ok (c, s')" for s c s' using Suc that by blast
  have ex: "words_ok buf c" if "parseexec n buf s = Ok (c, s')" for s c s' using Suc that by blast
  have "words_ok buf c" if h: "parseline (Suc n) buf s = Ok (c, s')" for s c s'
  proof -
    obtain c1 s1 c2 s2 where p: "parsepipe n buf s = Ok (c1, s1)" "parsebacks n buf c1 s1 = Ok (c2, s2)"
      using h by (auto simp: andThen_eq_Ok_iff)
    obtain b s3 where pk: "peek buf s2 '';'' = (b, s3)" by (cases "peek buf s2 '';''")
    show ?thesis using h p pk pp [OF p(1)] parsebacks_words [OF p(2)] ln by (cases b) (auto simp: andThen_eq_Ok_iff)
  qed
  moreover have "words_ok buf c" if h: "parsepipe (Suc n) buf s = Ok (c, s')" for s c s'
  proof -
    obtain c1 s1 where p: "parseexec n buf s = Ok (c1, s1)" using h by (auto simp: andThen_eq_Ok_iff)
    obtain b s3 where pk: "peek buf s1 ''|'' = (b, s3)" by (cases "peek buf s1 ''|''")
    show ?thesis using h p pk ex [OF p] pp by (cases b) (auto simp: andThen_eq_Ok_iff)
  qed
  moreover have "words_ok buf c" if h: "parseblock (Suc n) buf s = Ok (c, s')" for s c s'
  proof -
    obtain b s1 where pk: "peek buf s ''('' = (b, s1)" by (cases "peek buf s ''(''")
    then obtain c1 s2 where p: "parseline n buf (after_token buf s1) = Ok (c1, s2)" using h by (cases b) (auto simp: andThen_eq_Ok_iff)
    obtain b2 s3 where pk2: "peek buf s2 '')'' = (b2, s3)" by (cases "peek buf s2 '')''")
    show ?thesis using h p pk pk2 ln [OF p] parseredirs_words by (cases b; cases b2) auto
  qed
  moreover have "words_ok buf c" if h: "parseexec (Suc n) buf s = Ok (c, s')" for s c s'
  proof -
    obtain b s1 where pk: "peek buf s ''('' = (b, s1)" by (cases "peek buf s ''(''")
    have e: "words_ok buf (ExecCmd [])" by simp
    show ?thesis
    proof (cases b)
      case True
      then show ?thesis using h pk bl by simp
    next
      case False
      then obtain c1 s2 where "parseredirs n buf (ExecCmd []) s1 = Ok (c1, s2)" "parseargs n buf c1 0 s2 = Ok (c, s')"
        using h pk by (auto simp: andThen_eq_Ok_iff)
      then show ?thesis using parseredirs_words e parseargs_words by blast
    qed
  qed
  ultimately show ?case by blast
qed simp


lemma nulterminate_nth:
  "length (nulterminate c buf) = length buf"
  "i < length buf \<Longrightarrow> nulterminate c buf ! i = (if i \<in> snd ` cmd_words c then CHR 0x00 else buf ! i)"
proof -
  have f: "length (fold (\<lambda>(q, eq) b. b[eq := CHR 0x00]) args b) = length b"
    "i < length b \<Longrightarrow> fold (\<lambda>(q, eq) b. b[eq := CHR 0x00]) args b ! i = (if i \<in> snd ` set args then CHR 0x00 else b ! i)" for args b i
    by (induction args arbitrary: b) (auto simp: nth_list_update image_iff split_beta)
  have u: "xs[k := v] ! j = (if k = j \<and> j < length xs then v else xs ! j)" for xs :: string and k v j
    by (cases "k = j"; cases "j < length xs") (auto simp: list_update_beyond)
  have "length (nulterminate c buf) = length buf
      \<and> (\<forall>i<length buf. nulterminate c buf ! i = (if i \<in> snd ` cmd_words c then CHR 0x00 else buf ! i))"
    by (induction c arbitrary: buf) (auto simp: f u image_iff split_beta)
  then show "length (nulterminate c buf) = length buf"
    "i < length buf \<Longrightarrow> nulterminate c buf ! i = (if i \<in> snd ` cmd_words c then CHR 0x00 else buf ! i)" by auto
qed

lemma terminated_word:
  assumes ok: "words_ok buf c" and w: "w \<in> cmd_words c" and z: "CHR 0x00 \<notin> set buf"
  shows "cstr_at (nulterminate c buf) w = slice buf w"
proof -
  obtain q eq where e: "w = (q, eq)" by (cases w)
  have iw: "eq \<le> length buf" "\<And>i. q \<le> i \<Longrightarrow> i < eq \<Longrightarrow> word_char (buf ! i)" using ok w e by (auto simp: words_ok_def is_word_def)
  have qe: "q \<le> eq" "eq \<in> snd ` cmd_words c" using ok w e by (force simp: words_ok_def is_word_def)+
  have keep: "nulterminate c buf ! i = buf ! i" if "q \<le> i" "i < eq" for i
  proof -
    have "i \<notin> snd ` cmd_words c"
    proof
      assume "i \<in> snd ` cmd_words c"
      then obtain v where "v \<in> cmd_words c" "i = snd v" by blast
      then have "\<not> word_char (buf ! i)" using ok iw(1) that(2) by (auto simp: words_ok_def is_word_def)
      then show False using iw(2) [OF that] by simp
    qed
    then show ?thesis using nulterminate_nth(2) [of i buf c] iw(1) that by simp
  qed
  have "takeWhile (\<lambda>c. c \<noteq> CHR 0x00) (drop q (nulterminate c buf)) = take (eq - q) (drop q (nulterminate c buf))"
  proof (rule takeWhile_eq_take_P_nth)
    fix i assume "i < eq - q" "i < length (drop q (nulterminate c buf))"
    then show "drop q (nulterminate c buf) ! i \<noteq> CHR 0x00" using keep [of "q + i"] iw(1) z nulterminate_nth(1) [of c buf]
      by (auto simp: nth_append in_set_conv_nth)
  next
    assume n: "eq - q < length (drop q (nulterminate c buf))"
    show "\<not> drop q (nulterminate c buf) ! (eq - q) \<noteq> CHR 0x00"
      using n qe nulterminate_nth(1) [of c buf] nulterminate_nth(2) [of eq buf c] by simp
  qed
  also have "\<dots> = take (eq - q) (drop q buf)" using keep iw(1) nulterminate_nth(1) [of c buf] by (intro nth_equalityI) auto
  finally show ?thesis by (simp add: cstr_at_def slice_def e)
qed


lemma cstrings_slices: "words_ok buf c \<Longrightarrow> CHR 0x00 \<notin> set buf \<Longrightarrow> cstrings (nulterminate c buf) c = slices buf c"
proof -
  assume a: "words_ok buf c" "CHR 0x00 \<notin> set buf"
  have "cmd_words d \<subseteq> cmd_words c \<Longrightarrow> cstrings (nulterminate c buf) d = slices buf d" for d
    by (induction d) (auto simp: terminated_word [OF a(1) _ a(2)] subset_iff)
  then show ?thesis by blast
qed

lemma pr_cmd_no_nul: "wf_acmd c \<Longrightarrow> CHR 0x00 \<notin> set (pr_cmd lv c)"
  by (induction c arbitrary: lv) (auto simp: wf_word_def wf_redir_def pr_redir_def paren_def)

lemma ubind_Ret: "ubind p f = Ret y \<longleftrightarrow> (\<exists>x. p = Ret x \<and> f x = Ret y)"
  by (cases p) auto

lemma sh_panic_no_Ret: "sh_panic t \<noteq> Ret x"
  by (auto simp: sh_panic_def ubind_Ret uexit_def)

section \<open>Properties\<close>

text \<open>
  C6. The shell reads a command line back into the command it was printed from, for every tree of
  programs with arguments, input and output redirections, pipes, lists and background commands, nested
  with parentheses in any way; the strings are those the program will see, read from the line after the
  words have been terminated in place. And for every line that is accepted at all, terminating the words in
  place changes none of them.
\<close>

theorem shell_parses:
  "(\<forall>c. wf_acmd c \<longrightarrow> (\<exists>buf cmd. parsecmd (pr_cmd 0 c) = Ret (buf, cmd) \<and> cstrings buf cmd = c))
   \<and> (\<forall>line buf cmd. CHR 0x00 \<notin> set line \<and> parsecmd line = Ret (buf, cmd) \<longrightarrow> cstrings buf cmd = slices line cmd)"
proof (intro conjI allI impI)
  fix c assume c: "wf_acmd c"
  let ?l = "pr_cmd 0 c"
  have "at_text ?l 0 (pr_cmd 0 c @ [])" by (simp add: at_text_def)
  then obtain cmd p where p: "parseline (parse_depth ?l) ?l 0 = Ok (cmd, p)" "slices ?l cmd = c" "at_text ?l p []"
    using reads_all [OF c, of ?l, unfolded reads_line_def] by (fastforce simp: parse_depth_def stops_def)
  have "words_ok ?l cmd" using parser_words p(1) by blast
  then have "cstrings (nulterminate cmd ?l) cmd = c" using cstrings_slices pr_cmd_no_nul [OF c] p(2) by simp
  moreover have "parsecmd ?l = Ret (nulterminate cmd ?l, cmd)"
    using p(1,3) skip_ws_past [of p ?l] by (simp add: parsecmd_def peek_def at_text_Nil)
  ultimately show "\<exists>buf cmd. parsecmd ?l = Ret (buf, cmd) \<and> cstrings buf cmd = c" by blast
next
  fix line buf cmd assume a: "CHR 0x00 \<notin> set line \<and> parsecmd line = Ret (buf, cmd)"
  then obtain s where s: "parseline (parse_depth line) line 0 = Ok (cmd, s)" "buf = nulterminate cmd line"
    by (auto simp: parsecmd_def sh_panic_no_Ret ubind_Ret split: res.splits prod.splits if_splits)
  have "words_ok line cmd" using parser_words s(1) by blast
  then show "cstrings buf cmd = slices line cmd" using cstrings_slices a s(2) by simp
qed


definition line_example :: acmd where
  "line_example = AList (ABack (APipe (ARedir (AExec [''cat'']) ''in'' O_RDONLY 0) (AExec [''wc'', ''x''])))
     (ARedir (AList (AExec [''ls'']) (AExec [])) ''out'' (O_WRONLY OR O_CREATE) 1)"

theorem shell_parses_witness:
  "(\<exists>buf cmd. parsecmd '' cat<in| wc x&;( ls;)>out'' = Ret (buf, cmd) \<and> cstrings buf cmd = line_example
     \<and> slices '' cat<in| wc x&;( ls;)>out'' cmd = line_example)"
proof -
  have w: "wf_acmd line_example"
    by (simp add: line_example_def wf_word_def wf_redir_def word_char_def symbols_def whitespace_def MAXARGS_def)
  have t: "pr_cmd 0 line_example = '' cat<in| wc x&;( ls;)>out''" by (simp add: line_example_def paren_def pr_redir_def)
  have z: "CHR 0x00 \<notin> set '' cat<in| wc x&;( ls;)>out''" by simp
  show ?thesis using shell_parses w t z by metis
qed


end
