(* ===== verification/Grep.thy ===== *)
theory Grep
  imports User_Lib
begin

text \<open>
  \<^verbatim>\<open>grep.c\<close>: the matcher for patterns with \<^verbatim>\<open>^ . * $\<close>, and the program that applies it to the lines it reads.
  Patterns and lines are strings without their terminator.
\<close>

section \<open>Definitions\<close>

function (sequential) matchhere :: "string \<Rightarrow> string \<Rightarrow> bool"
and matchstar :: "char \<Rightarrow> string \<Rightarrow> string \<Rightarrow> bool" where
  "matchhere [] text = True"
| "matchhere (c # re) text =
     (if re \<noteq> [] \<and> hd re = CHR ''*'' then matchstar c (tl re) text
      else if c = CHR ''$'' \<and> re = [] then text = []
      else case text of
        [] \<Rightarrow> False
      | t # rest \<Rightarrow> (c = CHR ''.'' \<or> c = t) \<and> matchhere re rest)"
| "matchstar c re text =
     (matchhere re text \<or>
      (case text of [] \<Rightarrow> False | t # rest \<Rightarrow> (t = c \<or> c = CHR ''.'') \<and> matchstar c re rest))"
  by pat_completeness auto
termination
  by (relation "measure (\<lambda>x. case x of Inl (re, text) \<Rightarrow> 2 * (length re + length text) | Inr (c, re, text) \<Rightarrow> 2 * (length re + length text) + 1)")
    (auto simp: neq_Nil_conv)

primrec match_from :: "string \<Rightarrow> string \<Rightarrow> bool" where
  "match_from re [] = matchhere re []"
| "match_from re (t # rest) = (matchhere re (t # rest) \<or> match_from re rest)"

definition grep_match :: "string \<Rightarrow> string \<Rightarrow> bool" where
  "grep_match re text = (if re \<noteq> [] \<and> hd re = CHR ''^'' then matchhere (tl re) text else match_from re text)"

text \<open>
  The loop over the lines in the buffer from \<^verbatim>\<open>p\<close> on: the output, and what is left behind the last newline.
  \<^verbatim>\<open>strchr\<close> does not look behind a terminator in the data.
\<close>

function grep_lines :: "string \<Rightarrow> string \<Rightarrow> string list \<times> string" where
  "grep_lines pattern p =
     (let line = takeWhile (\<lambda>c. c \<noteq> NLC \<and> c \<noteq> CHR 0x00) p; q = drop (length line) p in
      if q \<noteq> [] \<and> hd q = NLC then
        let (out, left) = grep_lines pattern (tl q) in
        (if grep_match pattern line then (line @ [NLC]) # out else out, left)
      else ([], p))"
  by pat_completeness auto
termination
  by (relation "measure (\<lambda>(pattern, p). length p)") (auto simp: neq_Nil_conv)

declare grep_lines.simps [simp del]

definition GREP_BUF :: nat where "GREP_BUF = 1024"

text \<open>\<open>buf\<close> holds the \<^verbatim>\<open>m\<close> bytes kept from the last round; when no newline was found, nothing is kept.\<close>

primrec grep :: "nat \<Rightarrow> string \<Rightarrow> u32 \<Rightarrow> string \<Rightarrow> unit uprog" where
  "grep 0 pattern fd buf = Stuck"
| "grep (Suc n) pattern fd buf =
     Do (SysRead fd (of_nat (GREP_BUF - length buf - 1))) (\<lambda>a.
       if sint (sr_ret a) \<le> 0 then Ret ()
       else
         let text = buf @ take (unat (sr_ret a)) (sr_data a);
             (out, left) = grep_lines pattern text in
         ubind (ueach out (\<lambda>line. ubind (usys (SysWrite 1 line)) (\<lambda>_. Ret ()))) (\<lambda>_.
         grep n pattern fd (if length left = length text then [] else left)))"

primrec grep_files :: "nat \<Rightarrow> string \<Rightarrow> string list \<Rightarrow> unit uprog" where
  "grep_files n pattern [] = uexit"
| "grep_files n pattern (f # fs) =
     ubind (usys (SysOpen f 0)) (\<lambda>fd.
       if sint fd < 0 then ubind (u_printf 1 (''grep: cannot open %s'' @ [NLC]) [ustr f]) (\<lambda>_. uexit)
       else ubind (grep n pattern fd []) (\<lambda>_. ubind (usys (SysClose fd)) (\<lambda>_. grep_files n pattern fs)))"

definition grep_main :: "nat \<Rightarrow> string list \<Rightarrow> unit uprog" where
  "grep_main n argv =
     (case argv of
        _ # pattern # files \<Rightarrow>
          if files = [] then ubind (grep n pattern 0 []) (\<lambda>_. uexit) else grep_files n pattern files
      | _ \<Rightarrow> ubind (u_printf 2 (''usage: grep pattern [file ...]'' @ [NLC]) []) (\<lambda>_. uexit))"

section \<open>What a pattern means\<close>

text \<open>A pattern is a sequence of characters, each possibly repeated, and may be tied to the end of the line.\<close>

fun items :: "string \<Rightarrow> (char \<times> bool) list \<times> bool" where
  "items [] = ([], False)"
| "items (c # re) =
     (if re \<noteq> [] \<and> hd re = CHR ''*'' then (let (its, e) = items (tl re) in ((c, True) # its, e))
      else if c = CHR ''$'' \<and> re = [] then ([], True)
      else let (its, e) = items re in ((c, False) # its, e))"

definition accepts :: "char \<Rightarrow> char \<Rightarrow> bool" where
  "accepts c x \<longleftrightarrow> c = CHR ''.'' \<or> c = x"

fun lang :: "(char \<times> bool) list \<Rightarrow> string set" where
  "lang [] = {[]}"
| "lang ((c, False) # its) = {x # w | x w. accepts c x \<and> w \<in> lang its}"
| "lang ((c, True) # its) = {u @ w | u w. (\<forall>x\<in>set u. accepts c x) \<and> w \<in> lang its}"

definition matches_at :: "string \<Rightarrow> string \<Rightarrow> bool" where
  "matches_at re text \<longleftrightarrow> (\<exists>v w. text = v @ w \<and> v \<in> lang (fst (items re)) \<and> (snd (items re) \<longrightarrow> w = []))"

declare matchhere.simps [simp del] matchstar.simps [simp del]

lemma matches_at_Nil: "matches_at [] text"
  by (auto simp: matches_at_def)

lemma matches_at_star:
  "matches_at (c # CHR ''*'' # re) text \<longleftrightarrow> (\<exists>u v. text = u @ v \<and> (\<forall>x\<in>set u. accepts c x) \<and> matches_at re v)"
proof -
  obtain its e where i: "items re = (its, e)" by (cases "items re")
  show ?thesis
  proof
    assume "matches_at (c # CHR ''*'' # re) text"
    then obtain v rest where "text = v @ rest" "v \<in> lang ((c, True) # its)" "e \<longrightarrow> rest = []"
      unfolding matches_at_def by (simp add: i) blast
    then obtain u w where "text = (u @ w) @ rest" "\<forall>x\<in>set u. accepts c x" "w \<in> lang its" "e \<longrightarrow> rest = []" by auto
    then show "\<exists>u v. text = u @ v \<and> (\<forall>x\<in>set u. accepts c x) \<and> matches_at re v"
      by (intro exI [of _ u] exI [of _ "w @ rest"]) (auto simp: matches_at_def i)
  next
    assume "\<exists>u v. text = u @ v \<and> (\<forall>x\<in>set u. accepts c x) \<and> matches_at re v"
    then obtain u w rest where "text = u @ w @ rest" "\<forall>x\<in>set u. accepts c x" "w \<in> lang its" "e \<longrightarrow> rest = []"
      by (auto simp: matches_at_def i)
    then show "matches_at (c # CHR ''*'' # re) text"
      unfolding matches_at_def by (intro exI [of _ "u @ w"] exI [of _ rest]) (auto simp: i)
  qed
qed

lemma matches_at_end: "matches_at [CHR ''$''] text \<longleftrightarrow> text = []"
  by (auto simp: matches_at_def)

lemma matches_at_char:
  assumes "\<not> (re \<noteq> [] \<and> hd re = CHR ''*'')" "\<not> (c = CHR ''$'' \<and> re = [])"
  shows "matches_at (c # re) text \<longleftrightarrow> (case text of [] \<Rightarrow> False | t # rest \<Rightarrow> accepts c t \<and> matches_at re rest)"
proof -
  obtain its e where i: "items re = (its, e)" by (cases "items re")
  have ic: "items (c # re) = ((c, False) # its, e)" using assms i by auto
  show ?thesis
  proof (cases "text")
    case Nil
    then show ?thesis unfolding matches_at_def ic by auto
  next
    case (Cons t rest)
    have "(\<exists>v w. t # rest = v @ w \<and> (\<exists>x u. v = x # u \<and> accepts c x \<and> u \<in> lang its) \<and> (e \<longrightarrow> w = []))
        \<longleftrightarrow> accepts c t \<and> (\<exists>v w. rest = v @ w \<and> v \<in> lang its \<and> (e \<longrightarrow> w = []))" (is "?L = ?R")
    proof
      assume ?R
      then obtain v w where "accepts c t" "rest = v @ w" "v \<in> lang its" "e \<longrightarrow> w = []" by blast
      then show ?L by (intro exI [of _ "t # v"] exI [of _ w]) simp
    next
      assume ?L
      then obtain x u w where "t # rest = (x # u) @ w" "accepts c x" "u \<in> lang its" "e \<longrightarrow> w = []" by blast
      then show ?R by (intro conjI exI [of _ u] exI [of _ w]) auto
    qed
    then show ?thesis unfolding matches_at_def ic i Cons by simp
  qed
qed

lemma star_unfold:
  "(\<exists>u v. text = u @ v \<and> (\<forall>x\<in>set u. A x) \<and> M v) \<longleftrightarrow>
   M text \<or> (case text of [] \<Rightarrow> False | t # rest \<Rightarrow> A t \<and> (\<exists>u v. rest = u @ v \<and> (\<forall>x\<in>set u. A x) \<and> M v))"
  (is "?L \<longleftrightarrow> ?R")
proof
  assume ?L
  then obtain u v where "text = u @ v" "\<forall>x\<in>set u. A x" "M v" by blast
  then show ?R by (cases u) auto
next
  assume ?R
  then show ?L by (auto split: list.splits) (metis append_Nil empty_iff list.set(1), metis append_Cons set_ConsD)
qed

lemma match_correct:
  "matchhere re text = matches_at re text"
  "matchstar c re text \<longleftrightarrow> (\<exists>u v. text = u @ v \<and> (\<forall>x\<in>set u. accepts c x) \<and> matches_at re v)"
proof (induction re "text" and c re "text" rule: matchhere_matchstar.induct)
  case (1 t0)
  then show ?case by (simp add: matchhere.simps matches_at_Nil)
next
  case (2 c re t0)
  consider (star) re' where "re = CHR ''*'' # re'" | (dollar) "\<not> (re \<noteq> [] \<and> hd re = CHR ''*'')" "c = CHR ''$'' \<and> re = []"
    | (char) "\<not> (re \<noteq> [] \<and> hd re = CHR ''*'')" "\<not> (c = CHR ''$'' \<and> re = [])" by (cases re) auto
  then show ?case
  proof cases
    case star
    then show ?thesis using 2(1) by (simp add: matchhere.simps matches_at_star)
  next
    case dollar
    then show ?thesis by (auto simp: matchhere.simps matches_at_end)
  next
    case char
    then show ?thesis using 2(2) [OF char] matches_at_char [OF char] by (auto simp: matchhere.simps accepts_def split: list.split)
  qed
next
  case (3 c re t0)
  then show ?case
    by (subst star_unfold) (auto simp: matchstar.simps accepts_def split: list.split)
qed

lemma match_from_iff: "match_from re text \<longleftrightarrow> (\<exists>u v. text = u @ v \<and> matches_at re v)"
  by (induction "text") (auto simp: match_correct Cons_eq_append_conv)

text \<open>
  C40. The matcher of \<open>grep\<close> decides what its patterns mean: a line matches exactly when some part of it is in
  the language of the pattern's sequence of single, arbitrary and repeated characters, where the part starts
  the line if the pattern begins with \<^verbatim>\<open>^\<close> and ends it if the pattern ends with \<^verbatim>\<open>$\<close>.
\<close>

theorem grep_match_correct:
  "grep_match re text \<longleftrightarrow>
   (let body = (if re \<noteq> [] \<and> hd re = CHR ''^'' then tl re else re) in
    \<exists>u v w. text = u @ v @ w \<and> v \<in> lang (fst (items body)) \<and> (body \<noteq> re \<longrightarrow> u = []) \<and> (snd (items body) \<longrightarrow> w = []))"
  (is "_ = ?R")
proof (cases "re \<noteq> [] \<and> hd re = CHR ''^''")
  case True
  then have "tl re \<noteq> re" by (cases re) auto
  then show ?thesis using True by (simp add: grep_match_def match_correct matches_at_def Let_def)
next
  case False
  then show ?thesis unfolding grep_match_def match_from_iff matches_at_def by (simp add: Let_def) blast
qed


theorem grep_match_correct_witness: "grep_match ''^a.*c$'' ''abbc'' \<and> \<not> grep_match ''^b'' ''abbc''"
proof -
  have i: "items ''a.*c$'' = ([(CHR ''a'', False), (CHR ''.'', True), (CHR ''c'', False)], True)" "items ''b'' = ([(CHR ''b'', False)], False)"
    by simp_all
  have "''bb'' @ ''c'' \<in> lang [(CHR ''.'', True), (CHR ''c'', False)]" unfolding lang.simps by (force simp: accepts_def)
  then have "''abbc'' \<in> lang [(CHR ''a'', False), (CHR ''.'', True), (CHR ''c'', False)]" by (simp add: accepts_def)
  then have "grep_match ''^a.*c$'' ''abbc''"
    using grep_match_correct [of "''^a.*c$''" "''abbc''"] i(1) by (auto intro!: exI [of _ "[] :: string"])
  moreover have "\<not> grep_match ''^b'' ''abbc''"
    using grep_match_correct [of "''^b''" "''abbc''"] i(2) by (auto simp: accepts_def)
  ultimately show ?thesis by blast
qed

text \<open>
  When what was read so far has no newline, the text is forgotten and the program goes on as at the start of
  the input: a line that arrives in two pieces is not seen as one.
\<close>

theorem grep_forgets_unfinished_line:
  assumes "NLC \<notin> set buf" "NLC \<notin> set (sr_data a)" "0 < sint (sr_ret a)"
  shows "\<exists>r k. grep (Suc n) pattern fd buf = Do r k \<and> k a = grep n pattern fd []"
proof -
  let ?t = "buf @ take (unat (sr_ret a)) (sr_data a)"
  have no: "NLC \<notin> set ?t" using assms by (auto dest: in_set_takeD)
  let ?q = "drop (length (takeWhile (\<lambda>c. c \<noteq> NLC \<and> c \<noteq> CHR 0x00) ?t)) ?t"
  have "?q = [] \<or> hd ?q \<noteq> NLC" using no by (metis hd_in_set in_set_dropD)
  then have "grep_lines pattern ?t = ([], ?t)" by (subst grep_lines.simps) (auto simp: Let_def)
  then show ?thesis using assms(3) by (auto simp: Let_def)
qed


end
