(* ===== verification/Userprogs.thy ===== *)
theory Userprogs
  imports User_Lib
begin

text \<open>
  The small user programs. \<open>argv\<close> includes the name of the program. Loops over the input or over the answers
  of the kernel have at most \<open>n\<close> rounds. The programs that measure time (\<^verbatim>\<open>diskwrite.c\<close>, \<^verbatim>\<open>diskwriteL.c\<close>,
  \<^verbatim>\<open>matmul.c\<close>, \<^verbatim>\<open>mdfork.c\<close>) work on 32-bit matrices and file names.
\<close>

section \<open>cat, wc, echo\<close>

definition print_exit :: "u32 \<Rightarrow> string \<Rightarrow> fmt_arg list \<Rightarrow> 'a uprog" where
  "print_exit fd fmt args = ubind (u_printf fd (fmt @ [NLC]) args) (\<lambda>_. uexit)"

primrec cat :: "nat \<Rightarrow> u32 \<Rightarrow> unit uprog" where
  "cat 0 fd = Stuck"
| "cat (Suc n) fd =
     Do (SysRead fd 512) (\<lambda>a.
       if sint (sr_ret a) > 0 then
         ubind (usys (SysWrite 1 (take (unat (sr_ret a)) (sr_data a)))) (\<lambda>r.
           if r \<noteq> sr_ret a then print_exit 1 ''cat: write error'' [] else cat n fd)
       else if sint (sr_ret a) < 0 then print_exit 1 ''cat: read error'' []
       else Ret ())"

primrec cat_files :: "nat \<Rightarrow> string list \<Rightarrow> unit uprog" where
  "cat_files n [] = uexit"
| "cat_files n (f # fs) =
     ubind (usys (SysOpen f 0)) (\<lambda>fd.
       if sint fd < 0 then print_exit 1 ''cat: cannot open %s'' [ustr f]
       else ubind (cat n fd) (\<lambda>_. ubind (usys (SysClose fd)) (\<lambda>_. cat_files n fs)))"

definition cat_main :: "nat \<Rightarrow> string list \<Rightarrow> unit uprog" where
  "cat_main n argv = (if length argv \<le> 1 then ubind (cat n 0) (\<lambda>_. uexit) else cat_files n (tl argv))"

record counts =
  wc_l :: u32
  wc_w :: u32
  wc_c :: u32
  wc_inword :: bool

definition wc_char :: "char \<Rightarrow> counts \<Rightarrow> counts" where
  "wc_char c k =
     (let k = k\<lparr>wc_c := wc_c k + 1\<rparr>;
          k = (if c = NLC then k\<lparr>wc_l := wc_l k + 1\<rparr> else k) in
      if strchr [CHR '' '', CHR 0x0D, CHR 0x09, CHR 0x0A, CHR 0x0B] c \<noteq> None then k\<lparr>wc_inword := False\<rparr>
      else if \<not> wc_inword k then k\<lparr>wc_w := wc_w k + 1, wc_inword := True\<rparr>
      else k)"

primrec wc :: "nat \<Rightarrow> u32 \<Rightarrow> string \<Rightarrow> counts \<Rightarrow> unit uprog" where
  "wc 0 fd name k = Stuck"
| "wc (Suc n) fd name k =
     Do (SysRead fd 512) (\<lambda>a.
       if sint (sr_ret a) > 0 then wc n fd name (fold wc_char (take (unat (sr_ret a)) (sr_data a)) k)
       else if sint (sr_ret a) < 0 then print_exit 1 ''wc: read error'' []
       else u_printf 1 (''%d %d %d %s'' @ [NLC]) [ANum (wc_l k), ANum (wc_w k), ANum (wc_c k), ustr name])"

definition counts0 :: counts where
  "counts0 = \<lparr>wc_l = 0, wc_w = 0, wc_c = 0, wc_inword = False\<rparr>"

primrec wc_files :: "nat \<Rightarrow> string list \<Rightarrow> unit uprog" where
  "wc_files n [] = uexit"
| "wc_files n (f # fs) =
     ubind (usys (SysOpen f 0)) (\<lambda>fd.
       if sint fd < 0 then print_exit 1 ''wc: cannot open %s'' [ustr f]
       else ubind (wc n fd f counts0) (\<lambda>_. ubind (usys (SysClose fd)) (\<lambda>_. wc_files n fs)))"

definition wc_main :: "nat \<Rightarrow> string list \<Rightarrow> unit uprog" where
  "wc_main n argv = (if length argv \<le> 1 then ubind (wc n 0 [] counts0) (\<lambda>_. uexit) else wc_files n (tl argv))"

primrec echo_args :: "string list \<Rightarrow> unit uprog" where
  "echo_args [] = uexit"
| "echo_args (a # as) =
     ubind (u_printf 1 ''%s%s'' [ustr a, ustr (if as \<noteq> [] then '' '' else [NLC])]) (\<lambda>_. echo_args as)"

definition echo_main :: "string list \<Rightarrow> unit uprog" where
  "echo_main argv = echo_args (tl argv)"

section \<open>One system call per argument\<close>

definition kill_main :: "string list \<Rightarrow> unit uprog" where
  "kill_main argv =
     (if length argv < 2 then print_exit 2 ''usage: kill pid...'' []
      else ubind (ueach (tl argv) (\<lambda>a. ubind (usys (SysKill (atoi a))) (\<lambda>_. Ret ()))) (\<lambda>_. uexit))"

primrec rm_files :: "string list \<Rightarrow> unit uprog" where
  "rm_files [] = uexit"
| "rm_files (f # fs) =
     ubind (usys (SysUnlink f)) (\<lambda>r. if sint r < 0 then print_exit 2 ''rm: %s failed to delete'' [ustr f] else rm_files fs)"

definition rm_main :: "string list \<Rightarrow> unit uprog" where
  "rm_main argv = (if length argv < 2 then print_exit 2 ''Usage: rm files...'' [] else rm_files (tl argv))"

primrec mkdir_files :: "string list \<Rightarrow> unit uprog" where
  "mkdir_files [] = uexit"
| "mkdir_files (f # fs) =
     ubind (usys (SysMkdir f)) (\<lambda>r. if sint r < 0 then print_exit 2 ''mkdir: %s failed to create'' [ustr f] else mkdir_files fs)"

definition mkdir_main :: "string list \<Rightarrow> unit uprog" where
  "mkdir_main argv = (if length argv < 2 then print_exit 2 ''Usage: mkdir files...'' [] else mkdir_files (tl argv))"

definition ln_main :: "string list \<Rightarrow> unit uprog" where
  "ln_main argv =
     (if length argv \<noteq> 3 then print_exit 2 ''Usage: ln old new'' []
      else
        ubind (usys (SysLink (argv ! 1) (argv ! 2))) (\<lambda>r.
          if sint r < 0 then print_exit 2 ''link %s %s: failed'' [ustr (argv ! 1), ustr (argv ! 2)] else uexit))"

definition zombie_main :: "unit uprog" where
  "zombie_main = ubind (usys SysFork) (\<lambda>pid. if sint pid > 0 then ubind (usys (SysSleep 5)) (\<lambda>_. uexit) else uexit)"

section \<open>ls\<close>

text \<open>The name behind the last slash, padded with blanks to \<^verbatim>\<open>DIRSIZ\<close>.\<close>

definition fmtname :: "string \<Rightarrow> string" where
  "fmtname path =
     (let p = rev (takeWhile (\<lambda>c. c \<noteq> CHR ''/'') (rev path)) in
      if length p \<ge> DIRSIZ then p else p @ replicate (DIRSIZ - length p) CHR '' '')"

definition ls_line :: "string \<Rightarrow> stat \<Rightarrow> unit uprog" where
  "ls_line path st =
     u_printf 1 (''%s %d %d %d'' @ [NLC]) [ustr (fmtname path), ANum (ucast (st_type st)), ANum (st_ino st), ANum (st_size st)]"

definition de_inum :: "string \<Rightarrow> nat" where
  "de_inum d = of_char (d ! 0) + 256 * of_char (d ! 1)"

primrec ls_dir :: "nat \<Rightarrow> u32 \<Rightarrow> string \<Rightarrow> unit uprog" where
  "ls_dir 0 fd path = Stuck"
| "ls_dir (Suc n) fd path =
     Do (SysRead fd (of_nat DIRENT_SIZE)) (\<lambda>a.
       if sr_ret a \<noteq> of_nat DIRENT_SIZE then Ret ()
       else if length (sr_data a) \<noteq> DIRENT_SIZE then Crash
       else if de_inum (sr_data a) = 0 then ls_dir n fd path
       else
         let file = path @ ''/'' @ takeWhile (\<lambda>c. c \<noteq> CHR 0x00) (drop 2 (sr_data a)) in
         ubind (u_stat file) (\<lambda>(r, st).
           ubind (if sint r < 0 then u_printf 1 (''ls: cannot stat %s'' @ [NLC]) [ustr file] else ls_line file st) (\<lambda>_.
           ls_dir n fd path)))"

definition ls :: "nat \<Rightarrow> string \<Rightarrow> unit uprog" where
  "ls n path =
     ubind (usys (SysOpen path 0)) (\<lambda>fd.
       if sint fd < 0 then u_printf 2 (''ls: cannot open %s'' @ [NLC]) [ustr path]
       else
         Do (SysFstat fd) (\<lambda>a.
           if sint (sr_ret a) < 0 then
             ubind (u_printf 2 (''ls: cannot stat %s'' @ [NLC]) [ustr path]) (\<lambda>_. ubind (usys (SysClose fd)) (\<lambda>_. Ret ()))
           else
             ubind
               (if st_type (sr_stat a) = T_FILE then ls_line path (sr_stat a)
                else if st_type (sr_stat a) = T_DIR then
                  (if length path + 1 + DIRSIZ + 1 > 512 then u_printf 1 (''ls: path too long'' @ [NLC]) [] else ls_dir n fd path)
                else Ret ()) (\<lambda>_.
             ubind (usys (SysClose fd)) (\<lambda>_. Ret ()))))"

definition ls_main :: "nat \<Rightarrow> string list \<Rightarrow> unit uprog" where
  "ls_main n argv =
     (if length argv < 2 then ubind (ls n ''.'') (\<lambda>_. uexit) else ubind (ueach (tl argv) (ls n)) (\<lambda>_. uexit))"

section \<open>init, ps\<close>

primrec init_wait :: "nat \<Rightarrow> u32 \<Rightarrow> unit uprog" where
  "init_wait 0 pid = Stuck"
| "init_wait (Suc n) pid =
     ubind (usys SysWait) (\<lambda>wpid.
       if sint wpid \<ge> 0 \<and> wpid \<noteq> pid then ubind (u_printf 1 (''zombie!'' @ [NLC]) []) (\<lambda>_. init_wait n pid) else Ret ())"

primrec init_loop :: "nat \<Rightarrow> nat \<Rightarrow> unit uprog" where
  "init_loop w 0 = Stuck"
| "init_loop w (Suc n) =
     ubind (u_printf 1 (''init: starting sh'' @ [NLC]) []) (\<lambda>_.
     ubind (usys SysFork) (\<lambda>pid.
       if sint pid < 0 then print_exit 1 ''init: fork failed'' []
       else if pid = 0 then
         ubind (usys (SysExec ''sh'' [''sh''])) (\<lambda>_. print_exit 1 ''init: exec sh failed'' [])
       else ubind (init_wait w pid) (\<lambda>_. init_loop w n)))"

definition init_main :: "nat \<Rightarrow> nat \<Rightarrow> unit uprog" where
  "init_main w n =
     ubind (usys (SysOpen ''console'' O_RDWR)) (\<lambda>fd.
     ubind (if sint fd < 0 then
              ubind (usys (SysMknod ''console'' 1 1)) (\<lambda>_. ubind (usys (SysOpen ''console'' O_RDWR)) (\<lambda>_. Ret ()))
            else Ret ()) (\<lambda>_.
     ubind (usys (SysDup 0)) (\<lambda>_.
     ubind (usys (SysDup 0)) (\<lambda>_. init_loop w n))))"

definition ps_arg :: "string list \<Rightarrow> nat \<Rightarrow> u32" where
  "ps_arg argv i = (if length argv > i \<and> \<not> (argv ! i \<noteq> [] \<and> hd (argv ! i) = CHR ''-'') then atoi (argv ! i) else - 1)"

text \<open>The record \<^verbatim>\<open>ps\<close> allocates is only passed to the kernel and freed again.\<close>

definition ps_main :: "string list \<Rightarrow> unit uprog" where
  "ps_main argv =
     (let state_t = ps_arg argv 1; pid_t = ps_arg argv 2; name_t = (if length argv > 3 then argv ! 3 else ''None'') in
      ubind (u_printf 1 (''state-userspace: %d'' @ [NLC]) [ANum state_t]) (\<lambda>_.
      ubind (u_printf 1 (''id-userspace: %d'' @ [NLC]) [ANum pid_t]) (\<lambda>_.
      ubind (u_printf 1 (''name-userspace: %s'' @ [NLC]) [ustr name_t]) (\<lambda>_.
      ubind (usys (SysPs state_t pid_t name_t)) (\<lambda>_. uexit)))))"

section \<open>Measurements and stress tests\<close>

definition int_to_str :: "u32 \<Rightarrow> string" where
  "int_to_str n =
     (if n = 0 then ''0''
      else if sint n > 0 then map (\<lambda>d. char_of (48 + d)) (rev (ndigits 10 (unat n)))
      else [])"

definition create_filename :: "string \<Rightarrow> u32 \<Rightarrow> string" where
  "create_filename base num = base @ int_to_str num @ ''.txt''"

definition write_to_file :: "string \<Rightarrow> string \<Rightarrow> unit uprog" where
  "write_to_file filename content =
     ubind (usys (SysOpen filename (O_WRONLY OR O_CREATE))) (\<lambda>fd.
       if sint fd < 0 then u_printf 2 (''Error: cannot open %s'' @ [NLC]) [ustr filename]
       else
         ubind (usys (SysWrite fd content)) (\<lambda>r.
           if r \<noteq> of_nat (length content) then
             ubind (u_printf 2 (''Error: write error for %s'' @ [NLC]) [ustr filename]) (\<lambda>_. ubind (usys (SysClose fd)) (\<lambda>_. Ret ()))
           else
             ubind (usys (SysClose fd)) (\<lambda>_.
             u_printf 1 (''Successfully wrote to %s'' @ [NLC]) [ustr filename])))"

text \<open>\<^verbatim>\<open>diskwrite.c\<close> has its own version, which exits on errors.\<close>

definition diskwrite_to_file :: "string \<Rightarrow> string \<Rightarrow> unit uprog" where
  "diskwrite_to_file filename content =
     ubind (usys (SysOpen filename (O_WRONLY OR O_CREATE))) (\<lambda>fd.
       if sint fd < 0 then print_exit 2 ''Error: cannot open %s'' [ustr filename]
       else
         ubind (usys (SysWrite fd content)) (\<lambda>r.
           if r \<noteq> of_nat (length content) then
             ubind (u_printf 2 (''Error: write error'' @ [NLC]) []) (\<lambda>_. ubind (usys (SysClose fd)) (\<lambda>_. uexit))
           else
             ubind (u_printf 1 (''Successfully wrote to the file %s'' @ [NLC]) [ustr filename]) (\<lambda>_.
             ubind (usys (SysClose fd)) (\<lambda>_. Ret ()))))"

definition finish_time :: "u32 \<Rightarrow> unit uprog" where
  "finish_time start_time =
     ubind (usys SysUptime) (\<lambda>end_time. print_exit 1 ''Time taken: %d ticks'' [ANum (end_time - start_time)])"

definition diskwrite_main :: "string list \<Rightarrow> unit uprog" where
  "diskwrite_main argv =
     ubind (usys SysUptime) (\<lambda>start_time.
       if length argv < 3 then print_exit 2 ''Usage: diskwrite <filename> <text>'' []
       else ubind (diskwrite_to_file (argv ! 1) (argv ! 2)) (\<lambda>_. finish_time start_time))"

text \<open>The indices from \<^verbatim>\<open>start_index\<close> up to \<open>upto_i\<close>, as signed numbers.\<close>

definition file_indices :: "u32 \<Rightarrow> int \<Rightarrow> u32 list" where
  "file_indices start upto_i = map word_of_int [sint start..upto_i]"

definition start_index :: "string list \<Rightarrow> u32" where
  "start_index argv = (if length argv = 3 then atoi (argv ! 2) else 1)"

definition write_files :: "u32 \<Rightarrow> int \<Rightarrow> string \<Rightarrow> unit uprog" where
  "write_files start upto_i content =
     ueach (file_indices start upto_i) (\<lambda>i. write_to_file (create_filename ''file'' i) content)"

definition diskwriteL_main :: "string list \<Rightarrow> unit uprog" where
  "diskwriteL_main argv =
     ubind (usys SysUptime) (\<lambda>start_time.
       if length argv < 2 then print_exit 2 ''Usage: create_files <text> [start_index]'' []
       else ubind (write_files (start_index argv) 100 (argv ! 1)) (\<lambda>_. finish_time start_time))"

type_synonym matrix = "nat \<Rightarrow> nat \<Rightarrow> u32"

definition matrix_multiply :: "nat \<Rightarrow> matrix \<Rightarrow> matrix \<Rightarrow> matrix" where
  "matrix_multiply n A B i j = fold (\<lambda>k c. c + A i k * B k j) [0..<n] 0"

definition print_matrix :: "nat \<Rightarrow> matrix \<Rightarrow> unit uprog" where
  "print_matrix n m =
     ueach [0..<n] (\<lambda>i.
       ubind (ueach [0..<n] (\<lambda>j. u_printf 1 ''%d '' [ANum (m i j)])) (\<lambda>_. u_printf 1 [NLC] []))"

definition mat_A :: matrix where "mat_A i j = of_nat i + of_nat j"
definition mat_B :: matrix where "mat_B i j = of_nat i - of_nat j"

definition matmul_main :: "unit uprog" where
  "matmul_main =
     ubind (usys SysUptime) (\<lambda>start_time.
     ubind (print_matrix 16 (matrix_multiply 16 mat_A mat_B)) (\<lambda>_. finish_time start_time))"

definition mdfork_main :: "string list \<Rightarrow> unit uprog" where
  "mdfork_main argv =
     ubind (usys SysUptime) (\<lambda>start_time.
       if length argv < 2 then print_exit 2 ''Usage: mdfork <text> [start_index]'' []
       else
         ubind (usys SysFork) (\<lambda>pid1.
           if pid1 = 0 then ubind (write_files (start_index argv) 50 (argv ! 1)) (\<lambda>_. uexit)
           else if sint pid1 < 0 then print_exit 2 ''Error: fork failed'' []
           else
             ubind (usys SysFork) (\<lambda>pid2.
               if pid2 = 0 then
                 ubind (u_printf 1 (''Matrix C:'' @ [NLC]) []) (\<lambda>_.
                 ubind (print_matrix 17 (matrix_multiply 17 mat_A mat_B)) (\<lambda>_. uexit))
               else if sint pid2 < 0 then print_exit 2 ''Error: fork failed'' []
               else
                 ubind (usys SysWait) (\<lambda>_.
                 ubind (usys SysWait) (\<lambda>_.
                 ubind (u_printf 1 (''Both child processes completed'' @ [NLC]) []) (\<lambda>_. finish_time start_time))))))"

primrec stress_fork :: "nat \<Rightarrow> nat \<Rightarrow> nat uprog" where
  "stress_fork i 0 = Ret i"
| "stress_fork i (Suc left) = ubind (usys SysFork) (\<lambda>pid. if sint pid > 0 then Ret i else stress_fork (Suc i) left)"

definition stressfs_main :: "unit uprog" where
  "stressfs_main =
     ubind (u_printf 1 (''stressfs starting'' @ [NLC]) []) (\<lambda>_.
     ubind (stress_fork 0 4) (\<lambda>i.
       let path = ''stressfs'' @ [char_of (48 + i)] in
       ubind (u_printf 1 (''write %d'' @ [NLC]) [ANum (of_nat i)]) (\<lambda>_.
       ubind (usys (SysOpen path (O_CREATE OR O_RDWR))) (\<lambda>fd.
       ubind (ueach [0..<20] (\<lambda>_. ubind (usys (SysWrite fd (replicate 512 CHR ''a''))) (\<lambda>_. Ret ()))) (\<lambda>_.
       ubind (usys (SysClose fd)) (\<lambda>_.
       ubind (u_printf 1 (''read'' @ [NLC]) []) (\<lambda>_.
       ubind (usys (SysOpen path O_RDONLY)) (\<lambda>fd.
       ubind (ueach [0..<20] (\<lambda>_. ubind (usys (SysRead fd 512)) (\<lambda>_. Ret ()))) (\<lambda>_.
       ubind (usys (SysClose fd)) (\<lambda>_.
       ubind (usys SysWait) (\<lambda>_. uexit)))))))))))"

text \<open>\<^verbatim>\<open>forktest.c\<close> prints with one \<^verbatim>\<open>write\<close>.\<close>

definition ft_printf :: "string \<Rightarrow> unit uprog" where
  "ft_printf t = ubind (usys (SysWrite 1 (t @ [NLC]))) (\<lambda>_. Ret ())"

primrec ft_forks :: "nat \<Rightarrow> nat \<Rightarrow> nat uprog" where
  "ft_forks n 0 = Ret n"
| "ft_forks n (Suc left) =
     ubind (usys SysFork) (\<lambda>pid. if sint pid < 0 then Ret n else if pid = 0 then uexit else ft_forks (Suc n) left)"

primrec ft_waits :: "nat \<Rightarrow> unit uprog" where
  "ft_waits 0 = Ret ()"
| "ft_waits (Suc n) =
     ubind (usys SysWait) (\<lambda>r. if sint r < 0 then ubind (ft_printf ''wait stopped early'') (\<lambda>_. uexit) else ft_waits n)"

definition forktest :: "unit uprog" where
  "forktest =
     ubind (ft_printf ''fork test'') (\<lambda>_.
     ubind (ft_forks 0 1000) (\<lambda>n.
       if n = 1000 then ubind (ft_printf ''fork claimed to work N times!'') (\<lambda>_. uexit)
       else
         ubind (ft_waits n) (\<lambda>_.
         ubind (usys SysWait) (\<lambda>r.
           if r \<noteq> - 1 then ubind (ft_printf ''wait got too many'') (\<lambda>_. uexit)
           else ft_printf ''fork test OK''))))"

definition forktest_main :: "unit uprog" where
  "forktest_main = ubind forktest (\<lambda>_. uexit)"

section \<open>File names\<close>

lemma atoi_from_digits:
  assumes "\<forall>d\<in>set ds. d < 10"
  shows "atoi_from n (map (\<lambda>d. char_of (48 + d)) ds @ rest) = atoi_from (fold (\<lambda>d n. n * 10 + of_nat d) ds n) rest"
  using assms
proof (induction ds arbitrary: n)
  case (Cons d ds)
  have c: "of_char (char_of (48 + d) :: char) = (48 + d :: nat)" using Cons.prems by (simp add: take_bit_nat_eq_self)
  then have w: "of_char (char_of (48 + d) :: char) = (48 + of_nat d :: u32)" by (metis of_nat_add of_nat_numeral of_nat_of_char)
  show ?case using Cons c w by simp
qed simp

text \<open>The number in a file name is read back by \<open>atoi\<close>.\<close>

lemma atoi_int_to_str: "0 \<le> sint n \<Longrightarrow> atoi (int_to_str n) = n"
proof -
  assume n: "0 \<le> sint n"
  have v: "fold (\<lambda>d n. n * 10 + of_nat d) (rev (ndigits 10 x)) (0 :: u32) = of_nat x" for x
  proof (induction "10 :: nat" x rule: ndigits.induct)
    case (1 x)
    show ?case
    proof (cases "x div 10 = 0")
      case True
      then show ?thesis by (subst ndigits.simps) auto
    next
      case False
      have "of_nat (x div 10) * 10 + of_nat (x mod 10) = (of_nat x :: u32)"
        by (metis div_mult_mod_eq of_nat_add of_nat_mult of_nat_numeral)
      then show ?thesis using 1 False by (subst ndigits.simps) simp
    qed
  qed
  have "sint n > 0" if "n \<noteq> 0" using that n sint_nonneg_unat [OF n] unat_gt_0 [of n] by linarith
  then show ?thesis
    using atoi_from_digits [of "rev (ndigits 10 (unat n))" 0 "[]"] ndigits_less [of 10] v [of "unat n"] n
    by (auto simp: atoi_def int_to_str_def)
qed


end
