(* ===== verification/Spec2Isabelle.thy ===== *)
theory Spec2Isabelle
  imports Xv6_Prelude Resource_Spec Queue_Spec Le_Bytes Spinlock Console_Out Kstring Kalloc Mmu Vm Proc Proc_List Sleeplock Bio Log Balloc
    Inode File_Data Directory Pipe File Lifecycle Syscall_Args Exec Sysfile Descriptors Syscall Apic Ide Console_In Trap Boot
    User_Lib Shell Grep Userprogs
begin

text \<open>
  A verification development for the xv6 teaching kernel under \<^verbatim>\<open>src/\<close>.
\<close>

end
